(* ===== verification/Prelude.thy ===== *)
theory Prelude
  imports Main "HOL-Library.Word"
begin

section \<open>Shared vocabulary of the development\<close>

text \<open>
  What the components share: bytes and nonces at their machine width, the byte order of
  the wire as a value (astral-go fixes it, so the codecs take it as an argument), the Go
  readers and writers the codecs are written against, and one rule for safety of a step
  relation.

  A reader is the list of bytes still to come, followed by end of file.  \<open>io.ReadFull\<close>
  and \<open>encoding/binary\<close> are modelled as the standard library documents them: a read of
  \<open>k\<close> bytes fails with \<open>EOF\<close> when nothing was read, and with \<open>ErrUnexpectedEOF\<close> when
  some but not all of the bytes were there.

  A writer is a sink that has room for a number of bytes and fails on the write that does
  not fit, after it took what fitted: the short write that \<open>io.Writer\<close> allows.
\<close>

named_theorems wire \<open>round trips and lengths of the wire codecs\<close>
named_theorems flow \<open>effect of the flow-control operations on the abstract stream\<close>
named_theorems mux_defs \<open>unfolding of the session and mux operations\<close>

type_synonym byte = "8 word"
type_synonym bytes = "byte list"
type_synonym nonce = "64 word"

subsection \<open>Unsigned integers on the wire\<close>

datatype byteOrder = BigEndian | LittleEndian

fun be_bytes :: "nat \<Rightarrow> nat \<Rightarrow> bytes" where
  "be_bytes 0 v = []"
| "be_bytes (Suc k) v = be_bytes k (v div 256) @ [of_nat v]"

definition be_value :: "bytes \<Rightarrow> nat" where
  "be_value bs = foldl (\<lambda>a b. a * 256 + unat b) 0 bs"

definition putUint :: "byteOrder \<Rightarrow> nat \<Rightarrow> nat \<Rightarrow> bytes" where
  "putUint bo k v = (case bo of BigEndian \<Rightarrow> be_bytes k v | LittleEndian \<Rightarrow> rev (be_bytes k v))"

definition getUint :: "byteOrder \<Rightarrow> bytes \<Rightarrow> nat" where
  "getUint bo bs = (case bo of BigEndian \<Rightarrow> be_value bs | LittleEndian \<Rightarrow> be_value (rev bs))"

lemma be_bytes_numeral:
  "be_bytes (numeral k) v = be_bytes (pred_numeral k) (v div 256) @ [of_nat v]"
  by (subst numeral_eq_Suc) (rule be_bytes.simps(2))

lemma length_be_bytes [simp]: "length (be_bytes k v) = k"
  by (induction k arbitrary: v) auto

lemma length_putUint [simp, wire]: "length (putUint bo k v) = k"
  by (cases bo) (auto simp: putUint_def)

lemma be_value_snoc [simp]: "be_value (bs @ [b]) = be_value bs * 256 + unat b"
  by (simp add: be_value_def)

lemma be_value_be_bytes: "v < 256 ^ k \<Longrightarrow> be_value (be_bytes k v) = v"
proof (induction k arbitrary: v)
  case 0
  then show ?case by (simp add: be_value_def)
next
  case (Suc k)
  then have "v div 256 < 256 ^ k"
    by (simp add: less_mult_imp_div_less mult.commute)
  moreover have "unat (of_nat v :: byte) = v mod 256"
    by (simp add: unat_of_nat)
  ultimately show ?case
    using Suc.IH by simp
qed

lemma getUint_putUint [wire]: "v < 256 ^ k \<Longrightarrow> getUint bo (putUint bo k v) = v"
  by (cases bo) (auto simp: getUint_def putUint_def be_value_be_bytes)

lemma getUint_put_word [simp, wire]:
  fixes w :: "'a :: len word"
  assumes "2 ^ LENGTH('a) \<le> (256::nat) ^ k"
  shows "of_nat (getUint bo (putUint bo k (unat w))) = w"
proof -
  have "unat w < 256 ^ k"
    using unsigned_less [of w, where ?'a = nat] assms by linarith
  then show ?thesis by (simp add: getUint_putUint)
qed

subsection \<open>Readers\<close>

datatype io_err = EOF | ErrUnexpectedEOF | ErrShortWrite

text \<open>
  A \<open>ReadFrom\<close> method answers the count it returns, the value or the error, and the
  bytes left on the reader.  A failed read has used up the reader.
\<close>

type_synonym 'a rd = "bytes \<Rightarrow> nat \<times> (io_err + 'a) \<times> bytes"

definition readErr :: "bytes \<Rightarrow> io_err" where
  "readErr r = (if r = [] then EOF else ErrUnexpectedEOF)"

definition binRead :: "nat \<Rightarrow> (bytes \<Rightarrow> 'a) \<Rightarrow> 'a rd" where
  "binRead k f r =
     (if k \<le> length r then (k, Inr (f (take k r)), drop k r) else (0, Inl (readErr r), []))"

definition readFull :: "nat \<Rightarrow> bytes rd" where
  "readFull k r =
     (if k \<le> length r then (k, Inr (take k r), drop k r) else (length r, Inl (readErr r), []))"

definition rd_bind :: "'a rd \<Rightarrow> ('a \<Rightarrow> 'b rd) \<Rightarrow> 'b rd" where
  "rd_bind m f r =
     (case m r of
        (n, Inl e, r') \<Rightarrow> (n, Inl e, r')
      | (n, Inr a, r') \<Rightarrow> (case f a r' of (n', res, r'') \<Rightarrow> (n + n', res, r'')))"

definition rd_return :: "'a \<Rightarrow> 'a rd" where
  "rd_return a r = (0, Inr a, r)"

definition readU8 :: "byteOrder \<Rightarrow> 8 word rd" where
  "readU8 bo = binRead 1 (\<lambda>bs. of_nat (getUint bo bs))"

definition readU16 :: "byteOrder \<Rightarrow> 16 word rd" where
  "readU16 bo = binRead 2 (\<lambda>bs. of_nat (getUint bo bs))"

definition readU32 :: "byteOrder \<Rightarrow> 32 word rd" where
  "readU32 bo = binRead 4 (\<lambda>bs. of_nat (getUint bo bs))"

definition readU64 :: "byteOrder \<Rightarrow> 64 word rd" where
  "readU64 bo = binRead 8 (\<lambda>bs. of_nat (getUint bo bs))"

lemma binRead_append [wire]:
  "length bs = k \<Longrightarrow> binRead k f (bs @ r) = (k, Inr (f bs), r)"
  by (auto simp: binRead_def)

lemma readFull_append [wire]: "length bs = k \<Longrightarrow> readFull k (bs @ r) = (k, Inr bs, r)"
  by (auto simp: readFull_def)

lemma readFull_all [wire]: "length bs = k \<Longrightarrow> readFull k bs = (k, Inr bs, [])"
  using readFull_append [of bs k "[]"] by simp

lemma readU8_put [wire]:
  "readU8 bo (putUint bo (Suc 0) (unat (w :: 8 word)) @ r) = (Suc 0, Inr w, r)"
  by (simp add: readU8_def binRead_append)

lemma readU16_put [wire]: "readU16 bo (putUint bo 2 (unat w) @ r) = (2, Inr w, r)"
  by (simp add: readU16_def binRead_append)

lemma readU32_put [wire]: "readU32 bo (putUint bo 4 (unat w) @ r) = (4, Inr w, r)"
  by (simp add: readU32_def binRead_append)

lemma readU64_put [wire]: "readU64 bo (putUint bo 8 (unat w) @ r) = (8, Inr w, r)"
  by (simp add: readU64_def binRead_append)

lemma rd_bind_Inr [wire]:
  "m r = (n, Inr a, r') \<Longrightarrow>
     rd_bind m f r = (case f a r' of (n', res, r'') \<Rightarrow> (n + n', res, r''))"
  by (simp add: rd_bind_def)

lemma rd_bind_Inl [wire]: "m r = (n, Inl e, r') \<Longrightarrow> rd_bind m f r = (n, Inl e, r')"
  by (simp add: rd_bind_def)

text \<open>
  A reader is \<^emph>\<open>exact\<close> when a value it answers was read off the front, with its count the
  number of bytes taken, and is answered again when more bytes follow; and when an error
  means that the bytes ran out.
\<close>

definition exact :: "'a rd \<Rightarrow> bool" where
  "exact m \<longleftrightarrow>
     (\<forall>r n a r'. m r = (n, Inr a, r') \<longrightarrow>
        n \<le> length r \<and> r' = drop n r \<and> (\<forall>s. m (r @ s) = (n, Inr a, r' @ s))) \<and>
     (\<forall>r n e r'. m r = (n, Inl e, r') \<longrightarrow> n \<le> length r \<and> r' = [] \<and> e \<noteq> ErrShortWrite)"

lemma exactD:
  assumes "exact m" and "m r = (n, Inr a, r')"
  shows "n \<le> length r" and "r' = drop n r" and "m (r @ s) = (n, Inr a, r' @ s)"
  using assms unfolding exact_def by blast+

lemma exactD_err:
  assumes "exact m" and "m r = (n, Inl e, r')"
  shows "n \<le> length r" and "r' = []" and "e \<noteq> ErrShortWrite"
  using assms unfolding exact_def by blast+

text \<open>Input cut short of what an exact reader takes is an error, never a value.\<close>

lemma exact_truncated:
  assumes m: "exact m" and bs: "m bs = (length bs, Inr a, [])" and k: "k < length bs"
  shows "\<exists>n e. m (take k bs) = (n, Inl e, []) \<and> n \<le> k"
proof (cases "m (take k bs)")
  case (fields n res r')
  show ?thesis
  proof (cases res)
    case (Inl e)
    with fields exactD_err [OF m] k show ?thesis
      by (metis length_take min.absorb4)
  next
    case (Inr b)
    with fields have b: "m (take k bs) = (n, Inr b, r')" by simp
    from exactD(3) [OF m b, of "drop k bs"] bs have "n = length bs"
      by (metis Pair_inject append_take_drop_id)
    with exactD(1) [OF m b] k show ?thesis by simp
  qed
qed

lemma exact_binRead [intro!]: "exact (binRead k f)"
  by (auto simp: exact_def binRead_def readErr_def split: if_splits)

lemma exact_readFull [intro!]: "exact (readFull k)"
  by (auto simp: exact_def readFull_def readErr_def split: if_splits)

lemma exact_return [intro!]: "exact (rd_return a)"
  by (auto simp: exact_def rd_return_def)

lemma rd_bind_InrE:
  assumes "rd_bind m f r = (n, Inr b, r')"
  obtains n1 a r1 n2 where "m r = (n1, Inr a, r1)" "f a r1 = (n2, Inr b, r')" "n = n1 + n2"
  using assms by (auto simp: rd_bind_def split: prod.splits sum.splits)

lemma rd_bind_InlE:
  assumes "rd_bind m f r = (n, Inl e, r')"
  obtains "m r = (n, Inl e, r')"
  | n1 a r1 n2 where "m r = (n1, Inr a, r1)" "f a r1 = (n2, Inl e, r')" "n = n1 + n2"
  using assms by (auto simp: rd_bind_def split: prod.splits sum.splits)

lemma exact_bind [intro!]:
  assumes m: "exact m" and f: "\<And>a. exact (f a)"
  shows "exact (rd_bind m f)"
  unfolding exact_def
proof (intro conjI allI impI)
  fix r n b r' s
  assume "rd_bind m f r = (n, Inr b, r')"
  then obtain n1 a r1 n2 where 1: "m r = (n1, Inr a, r1)"
    and 2: "f a r1 = (n2, Inr b, r')" and n: "n = n1 + n2"
    by (rule rd_bind_InrE)
  note m1 = exactD [OF m 1] and f2 = exactD [OF f 2]
  show "n \<le> length r" and "r' = drop n r"
    using m1(1,2) f2(1,2) n by (auto simp: add.commute)
  show "rd_bind m f (r @ s) = (n, Inr b, r' @ s)"
    using m1(3) [of s] f2(3) [of s] n by (simp add: rd_bind_def)
next
  fix r n e r'
  assume "rd_bind m f r = (n, Inl e, r')"
  then have "n \<le> length r \<and> r' = [] \<and> e \<noteq> ErrShortWrite"
  proof (cases rule: rd_bind_InlE)
    case 1
    then show ?thesis using exactD_err [OF m] by blast
  next
    case (2 n1 a r1 n2)
    then show ?thesis using exactD [OF m 2(1)] exactD_err [OF f 2(2)] by auto
  qed
  then show "n \<le> length r" and "r' = []" and "e \<noteq> ErrShortWrite" by auto
qed

definition rd_map :: "('a \<Rightarrow> 'b) \<Rightarrow> 'a rd \<Rightarrow> 'b rd" where
  "rd_map g m = rd_bind m (\<lambda>a. rd_return (g a))"

lemma rd_map_Inr: "m r = (n, Inr a, r') \<Longrightarrow> rd_map g m r = (n, Inr (g a), r')"
  by (simp add: rd_map_def rd_bind_def rd_return_def)

lemma exact_map: "exact m \<Longrightarrow> exact (rd_map g m)"
  unfolding rd_map_def by blast

lemma exact_readU [intro!]:
  "exact (readU8 bo)" "exact (readU16 bo)" "exact (readU32 bo)" "exact (readU64 bo)"
  by (auto simp: readU8_def readU16_def readU32_def readU64_def)

subsection \<open>Writers\<close>

record sink =
  written :: bytes
  room :: nat

definition sink_Write :: "bytes \<Rightarrow> sink \<Rightarrow> nat \<times> io_err option \<times> sink" where
  "sink_Write p w =
     (if length p \<le> room w
      then (length p, None, w\<lparr>written := written w @ p, room := room w - length p\<rparr>)
      else (room w, Some ErrShortWrite, w\<lparr>written := written w @ take (room w) p, room := 0\<rparr>))"

text \<open>
  A \<open>WriteTo\<close> method answers its count, its error and the sink.  \<open>binWrite\<close> is
  \<open>binary.Write\<close> with the count the callers add: the whole width, or nothing on an error.
\<close>

type_synonym wr = "sink \<Rightarrow> nat \<times> io_err option \<times> sink"

definition binWrite :: "bytes \<Rightarrow> wr" where
  "binWrite p w = (case sink_Write p w of (n, e, w') \<Rightarrow> (if e = None then n else 0, e, w'))"

definition wr_then :: "wr \<Rightarrow> wr \<Rightarrow> wr" where
  "wr_then a b w =
     (case a w of
        (n, Some e, w') \<Rightarrow> (n, Some e, w')
      | (n, None, w') \<Rightarrow> (case b w' of (n', e, w'') \<Rightarrow> (n + n', e, w'')))"

text \<open>
  \<open>writes m bs\<close>: the method puts out exactly \<open>bs\<close>, or runs out of room, in which case
  what it put out is a strict prefix and its count is at most what it put out.
\<close>

definition writes :: "wr \<Rightarrow> bytes \<Rightarrow> bool" where
  "writes m bs \<longleftrightarrow>
     (\<forall>w. if length bs \<le> room w
          then m w = (length bs, None,
                      w\<lparr>written := written w @ bs, room := room w - length bs\<rparr>)
          else \<exists>n. n \<le> room w \<and>
                 m w = (n, Some ErrShortWrite,
                        w\<lparr>written := written w @ take (room w) bs, room := 0\<rparr>))"

lemma writes_sink [intro!]: "writes (sink_Write p) p"
  by (auto simp: writes_def sink_Write_def)

lemma writes_bin [intro!]: "writes (binWrite p) p"
  by (auto simp: writes_def sink_Write_def binWrite_def)

lemma writes_then [intro!]:
  assumes a: "writes a as" and b: "writes b bs"
  shows "writes (wr_then a b) (as @ bs)"
  unfolding writes_def
proof
  fix w
  show "if length (as @ bs) \<le> room w
        then wr_then a b w = (length (as @ bs), None,
               w\<lparr>written := written w @ as @ bs, room := room w - length (as @ bs)\<rparr>)
        else \<exists>n\<le>room w. wr_then a b w = (n, Some ErrShortWrite,
               w\<lparr>written := written w @ take (room w) (as @ bs), room := 0\<rparr>)"
  proof (cases "length as \<le> room w")
    case True
    let ?w = "w\<lparr>written := written w @ as, room := room w - length as\<rparr>"
    from a True have aw: "a w = (length as, None, ?w)"
      by (simp add: writes_def)
    show ?thesis
    proof (cases "length bs \<le> room ?w")
      case fits: True
      with b have "b ?w = (length bs, None,
          ?w\<lparr>written := written ?w @ bs, room := room ?w - length bs\<rparr>)"
        unfolding writes_def by metis
      with aw fits True show ?thesis by (auto simp: wr_then_def)
    next
      case short: False
      with b obtain n where "n \<le> room ?w" and "b ?w = (n, Some ErrShortWrite,
          ?w\<lparr>written := written ?w @ take (room ?w) bs, room := 0\<rparr>)"
        unfolding writes_def by metis
      with aw short True show ?thesis by (auto simp: wr_then_def)
    qed
  next
    case False
    with a obtain n where "n \<le> room w" and "a w = (n, Some ErrShortWrite,
        w\<lparr>written := written w @ take (room w) as, room := 0\<rparr>)"
      unfolding writes_def by metis
    with False show ?thesis by (auto simp: wr_then_def)
  qed
qed

subsection \<open>Safety of a step relation\<close>

text \<open>
  The states a step relation reaches from its initial states, and the rule that an
  inductive invariant holds in all of them.  Every component that is a state machine
  instantiates \<open>safety\<close> with its own steps and invariant.
\<close>

inductive reach :: "('s \<Rightarrow> bool) \<Rightarrow> ('s \<Rightarrow> 's \<Rightarrow> bool) \<Rightarrow> 's \<Rightarrow> bool"
  for init step where
  reach_init: "init s \<Longrightarrow> reach init step s"
| reach_step: "reach init step s \<Longrightarrow> step s t \<Longrightarrow> reach init step t"

locale safety =
  fixes init :: "'s \<Rightarrow> bool" and step :: "'s \<Rightarrow> 's \<Rightarrow> bool" and inv :: "'s \<Rightarrow> bool"
  assumes inv_init: "init s \<Longrightarrow> inv s"
    and inv_step: "inv s \<Longrightarrow> step s t \<Longrightarrow> inv t"
begin

lemma reach_inv: "reach init step s \<Longrightarrow> inv s"
  by (induction rule: reach.induct) (auto intro: inv_init inv_step)

end

subsection \<open>Lists\<close>

lemma sum_list_map_length_concat [simp]:
  "sum_list (map length xss) = length (concat xss)"
  by (simp add: length_concat)

lemma find_Some_mem: "find P xs = Some x \<Longrightarrow> x \<in> set xs \<and> P x"
  by (auto simp: find_Some_iff)

subsection \<open>Queues of bytes\<close>

text \<open>
  A run of a component that takes bytes, gives bytes, and may also move on its own; with it go
  the bytes it has taken and the bytes it has given.
\<close>

inductive fifo_run ::
  "(bytes \<Rightarrow> 's \<Rightarrow> bool \<times> 's) \<Rightarrow> (nat \<Rightarrow> 's \<Rightarrow> bytes \<times> 's) \<Rightarrow> ('s \<Rightarrow> 's \<Rightarrow> bool) \<Rightarrow> 's \<Rightarrow>
     's \<Rightarrow> bytes \<Rightarrow> bytes \<Rightarrow> bool"
  for put get tau s0 where
  fr_start: "fifo_run put get tau s0 s0 [] []"
| fr_put: "fifo_run put get tau s0 s a g \<Longrightarrow> put p s = (b, s') \<Longrightarrow>
     fifo_run put get tau s0 s' (a @ (if b then p else [])) g"
| fr_get: "fifo_run put get tau s0 s a g \<Longrightarrow> get k s = (p, s') \<Longrightarrow>
     fifo_run put get tau s0 s' a (g @ p)"
| fr_tau: "fifo_run put get tau s0 s a g \<Longrightarrow> tau s s' \<Longrightarrow> fifo_run put get tau s0 s' a g"

locale fifo =
  fixes ok :: "'s \<Rightarrow> bool" and view :: "'s \<Rightarrow> bytes"
    and put :: "bytes \<Rightarrow> 's \<Rightarrow> bool \<times> 's" and get :: "nat \<Rightarrow> 's \<Rightarrow> bytes \<times> 's"
    and tau :: "'s \<Rightarrow> 's \<Rightarrow> bool"
  assumes put_law: "ok s \<Longrightarrow> put p s = (b, s') \<Longrightarrow> ok s' \<and> view s' = view s @ (if b then p else [])"
    and get_law: "ok s \<Longrightarrow> get k s = (p, s') \<Longrightarrow> ok s' \<and> view s = p @ view s'"
    and tau_law: "ok s \<Longrightarrow> tau s s' \<Longrightarrow> ok s' \<and> view s' = view s"
begin

lemma run_fifo:
  "fifo_run put get tau s0 s a g \<Longrightarrow> ok s0 \<Longrightarrow> ok s \<and> view s0 @ a = g @ view s"
proof (induction rule: fifo_run.induct)
  case (fr_put s a g p b s')
  then show ?case using put_law [of s p b s'] by simp
next
  case (fr_get s a g k p s')
  then show ?case using get_law [of s k p s'] by simp
next
  case (fr_tau s a g s')
  then show ?case using tau_law [of s s'] by simp
qed simp

end

end
