(* ===== verification/Flow_Buffers.thy ===== *)
theory Flow_Buffers
  imports Prelude
begin

section \<open>The buffers of a session (\<open>input_buffer.go\<close>, \<open>output_buffer.go\<close>)\<close>

text \<open>
  A session receives into an \<open>InputBuffer\<close> and sends through an \<open>OutputBuffer\<close>.  Every
  method holds the buffer's mutex, so one call is one atomic step on the record.

  The wake channel of a buffer is kept as its identity: \<open>readyCh\<close> allocates the next
  channel or hands out the outstanding one, \<open>signal\<close> closes it, and \<open>woken\<close> lists the
  channels that were closed.  The channels \<open>shut\<close> and \<open>done\<close> are booleans for ``closed'';
  \<open>panicked\<close> records a close of a closed channel, on which Go panics.

  The callbacks \<open>onRead\<close> and \<open>write\<close> are closures of the mux.  A buffer stores which
  closure it was given (of type \<open>'cb\<close>), and the methods take the function that runs it on
  the surrounding state.

  Sizes are Go's \<open>int\<close>, taken as 64 bits wide: what is added to them are lengths of byte
  slices and 32-bit counts of frames.
\<close>

text \<open>
  The errors of \<open>errors.go\<close>, those of \<open>io\<close> and \<open>context\<close> the sources return, and errors made
  from a message.
\<close>

datatype nodes_err =
    ErrInvalidEndpointFormat
  | ErrEndpointParse
  | ErrIdentityResolve
  | ErrEndpointResolve
  | ErrExcessLink
  | ErrLinkNotProduced
  | ErrInvalidSessionState
  | ErrMigrationNotSupported
  | ErrSessionNotFound
  | ErrSessionClosed
  | ErrLinkNotFound
  | ErrBufferClosed
  | ErrBufferOverflow
  | ErrSessionAlreadyOnLink
  | ErrClosedPipe
  | ErrCanceled
  | ErrMsg string

subsection \<open>The one-shot wake channel\<close>

record wake =
  ready :: "nat option"
  created :: nat
  woken :: "nat list"

definition no_wake :: wake where
  "no_wake = \<lparr>ready = None, created = 0, woken = []\<rparr>"

definition readyCh :: "wake \<Rightarrow> nat \<times> wake" where
  "readyCh w =
     (case ready w of
        None \<Rightarrow> (created w, w\<lparr>ready := Some (created w), created := Suc (created w)\<rparr>)
      | Some c \<Rightarrow> (c, w))"

definition signal :: "wake \<Rightarrow> wake" where
  "signal w =
     (case ready w of
        None \<Rightarrow> w
      | Some c \<Rightarrow> w\<lparr>ready := None, woken := c # woken w\<rparr>)"

text \<open>
  Every channel ever handed out is the outstanding one or was closed, and the outstanding one
  was handed out.
\<close>

definition wake_ok :: "wake \<Rightarrow> bool" where
  "wake_ok w \<longleftrightarrow>
     (\<forall>c < created w. c \<in> set (woken w) \<or> ready w = Some c) \<and>
     (\<forall>c. ready w = Some c \<longrightarrow> c < created w)"

lemma wake_ok_no_wake [simp]: "wake_ok no_wake"
  by (simp add: wake_ok_def no_wake_def)

lemma signal_simps [simp]:
  "ready (signal w) = None" "created (signal w) = created w"
  "set (woken (signal w)) = set (woken w) \<union> set_option (ready w)"
  by (auto simp: signal_def split: option.splits)

lemma wake_ok_signal [simp]: "wake_ok w \<Longrightarrow> wake_ok (signal w)"
  by (auto simp: wake_ok_def)

lemma readyCh_simps [simp]:
  "ready (snd (readyCh w)) = Some (fst (readyCh w))" "woken (snd (readyCh w)) = woken w"
  "created w \<le> created (snd (readyCh w))"
  by (auto simp: readyCh_def split: option.splits)

lemma wake_ok_readyCh [simp]: "wake_ok w \<Longrightarrow> wake_ok (snd (readyCh w))"
  by (auto simp: wake_ok_def readyCh_def less_Suc_eq split: option.splits)

subsection \<open>InputBuffer\<close>

record 'cb ibuf =
  ib_size :: int
  ib_used :: int
  ib_buf :: "bytes list"
  ib_wake :: wake
  ib_shut :: bool
  ib_done :: bool
  ib_drained :: bool
  ib_closed :: bool
  ib_onRead :: "'cb option"
  ib_panicked :: bool

definition NewInputBuffer :: "int \<Rightarrow> 'cb option \<Rightarrow> 'cb ibuf" where
  "NewInputBuffer sz onRead =
     \<lparr>ib_size = sz, ib_used = 0, ib_buf = [], ib_wake = no_wake, ib_shut = False,
      ib_done = False, ib_drained = False, ib_closed = False, ib_onRead = onRead,
      ib_panicked = False\<rparr>"

definition ib_signal :: "'cb ibuf \<Rightarrow> 'cb ibuf" where
  "ib_signal b = b\<lparr>ib_wake := signal (ib_wake b)\<rparr>"

definition ib_checkDone :: "'cb ibuf \<Rightarrow> 'cb ibuf" where
  "ib_checkDone b =
     (if \<not> ib_drained b \<and> ib_closed b \<and> ib_buf b = []
      then b\<lparr>ib_drained := True, ib_done := True, ib_panicked := ib_panicked b \<or> ib_done b\<rparr>
      else b)"

definition ib_Push :: "bytes \<Rightarrow> 'cb ibuf \<Rightarrow> nodes_err option \<times> 'cb ibuf" where
  "ib_Push p b =
     (if ib_closed b then (Some ErrBufferClosed, b)
      else if ib_used b + int (length p) > ib_size b then (Some ErrBufferOverflow, b)
      else (None, ib_signal (b\<lparr>ib_buf := ib_buf b @ [p], ib_used := ib_used b + int (length p)\<rparr>)))"

datatype ib_result = IB_Data bytes | IB_EOF | IB_Empty nat

text \<open>\<open>Read\<close> with a destination slice of \<open>k\<close> bytes.\<close>

definition ib_Read ::
  "('cb \<Rightarrow> nat \<Rightarrow> 's \<Rightarrow> 's) \<Rightarrow> nat \<Rightarrow> 'cb ibuf \<Rightarrow> 's \<Rightarrow> ib_result \<times> 'cb ibuf \<times> 's" where
  "ib_Read run k b s =
     (case ib_buf b of
        [] \<Rightarrow>
          (if ib_closed b then (IB_EOF, b, s)
           else (let cw = readyCh (ib_wake b) in (IB_Empty (fst cw), b\<lparr>ib_wake := snd cw\<rparr>, s)))
      | chunk # rest \<Rightarrow>
          (let n = min k (length chunk);
               chunk' = drop n chunk;
               b' = b\<lparr>ib_used := ib_used b - int n,
                      ib_buf := (if chunk' \<noteq> [] then chunk' # rest else rest)\<rparr>;
               s' = (case ib_onRead b of None \<Rightarrow> s | Some cb \<Rightarrow> run cb n s)
           in (IB_Data (take n chunk), ib_checkDone b', s')))"

definition ib_Close :: "'cb ibuf \<Rightarrow> 'cb ibuf" where
  "ib_Close b =
     (if ib_closed b then b
      else ib_checkDone (ib_signal
             (b\<lparr>ib_closed := True, ib_onRead := None, ib_shut := True,
                ib_panicked := ib_panicked b \<or> ib_shut b\<rparr>)))"

definition ib_IsEmpty :: "'cb ibuf \<Rightarrow> bool" where
  "ib_IsEmpty b \<longleftrightarrow> ib_used b = 0"

lemmas ib_defs = ib_signal_def ib_checkDone_def ib_Push_def ib_Read_def ib_Close_def ib_IsEmpty_def

text \<open>The bytes a reader has still to get out of the buffer.\<close>

definition content :: "'cb ibuf \<Rightarrow> bytes" where
  "content b = concat (ib_buf b)"

lemma content_New [simp]: "content (NewInputBuffer sz cb) = []"
  by (simp add: content_def NewInputBuffer_def)

text \<open>
  The invariant of the buffer: \<open>used\<close> counts the buffered bytes and never passes the size;
  the channels agree with the flags, so that no close is repeated; a wake channel is
  outstanding only while a read would find nothing.
\<close>

definition ib_inv :: "'cb ibuf \<Rightarrow> bool" where
  "ib_inv b \<longleftrightarrow>
     ib_used b = int (length (content b)) \<and> ib_used b \<le> ib_size b \<and> \<not> ib_panicked b \<and>
     ib_shut b = ib_closed b \<and> ib_done b = ib_drained b \<and>
     ib_drained b = (ib_closed b \<and> ib_buf b = []) \<and> (ib_closed b \<longrightarrow> ib_onRead b = None) \<and>
     wake_ok (ib_wake b) \<and> (ready (ib_wake b) \<noteq> None \<longrightarrow> ib_buf b = [] \<and> \<not> ib_closed b)"

lemma ib_inv_New: "0 \<le> sz \<Longrightarrow> ib_inv (NewInputBuffer sz cb)"
  by (simp add: ib_inv_def NewInputBuffer_def content_def no_wake_def wake_ok_def)

lemma ib_inv_Push: "ib_inv b \<Longrightarrow> ib_inv (snd (ib_Push p b))"
  by (auto simp: ib_inv_def ib_Push_def ib_signal_def content_def)

lemma ib_inv_Read: "ib_inv b \<Longrightarrow> ib_inv (fst (snd (ib_Read run k b s)))"
  by (cases "ib_buf b")
    (auto simp: ib_inv_def ib_Read_def ib_checkDone_def content_def Let_def min_def)

lemma ib_inv_Close: "ib_inv b \<Longrightarrow> ib_inv (ib_Close b)"
  by (auto simp: ib_inv_def ib_Close_def ib_checkDone_def ib_signal_def content_def)

lemmas ib_invs = ib_inv_New ib_inv_Push ib_inv_Read ib_inv_Close

text \<open>What the operations do to the bytes.\<close>

lemma ib_Push_accepts [flow]:
  assumes "\<not> ib_closed b" and "ib_used b + int (length p) \<le> ib_size b"
  shows "fst (ib_Push p b) = None" and "content (snd (ib_Push p b)) = content b @ p"
    and "ib_used (snd (ib_Push p b)) = ib_used b + int (length p)"
    and "ib_size (snd (ib_Push p b)) = ib_size b" and "\<not> ib_closed (snd (ib_Push p b))"
    and "ib_onRead (snd (ib_Push p b)) = ib_onRead b"
  using assms by (auto simp: ib_Push_def ib_signal_def content_def)

lemma ib_Push_rejects [flow]: "fst (ib_Push p b) \<noteq> None \<Longrightarrow> snd (ib_Push p b) = b"
  by (auto simp: ib_Push_def)

lemma ib_Push_nonempty:
  "[] \<notin> set (ib_buf b) \<Longrightarrow> p \<noteq> [] \<Longrightarrow> [] \<notin> set (ib_buf (snd (ib_Push p b)))"
  by (auto simp: ib_Push_def ib_signal_def)

lemma ib_Read_nonempty:
  "[] \<notin> set (ib_buf b) \<Longrightarrow> [] \<notin> set (ib_buf (fst (snd (ib_Read run k b s))))"
  by (cases "ib_buf b") (auto simp: ib_Read_def Let_def ib_checkDone_def)

lemma ib_Push_cases:
  obtains (closed) "ib_closed b" "ib_Push p b = (Some ErrBufferClosed, b)"
  | (overflow) "\<not> ib_closed b" "ib_used b + int (length p) > ib_size b"
      "ib_Push p b = (Some ErrBufferOverflow, b)"
  | (accepted) "\<not> ib_closed b" "ib_used b + int (length p) \<le> ib_size b" "fst (ib_Push p b) = None"
  by (cases "ib_closed b"; cases "ib_used b + int (length p) > ib_size b") (auto simp: ib_Push_def)

text \<open>What \<open>Read\<close> answers, by the state of the buffer.\<close>

fun ib_result_bytes :: "ib_result \<Rightarrow> bytes" where
  "ib_result_bytes (IB_Data p) = p"
| "ib_result_bytes _ = []"

lemma ib_Read_content [flow]:
  "content b = ib_result_bytes (fst (ib_Read run k b s)) @ content (fst (snd (ib_Read run k b s)))"
  by (cases "ib_buf b") (auto simp: ib_Read_def content_def Let_def ib_checkDone_def)

lemma ib_Read_frame [flow]:
  "ib_size (fst (snd (ib_Read run k b s))) = ib_size b"
  "ib_closed (fst (snd (ib_Read run k b s))) = ib_closed b"
  "ib_shut (fst (snd (ib_Read run k b s))) = ib_shut b"
  "ib_onRead (fst (snd (ib_Read run k b s))) = ib_onRead b"
  by (cases "ib_buf b"; simp add: ib_Read_def Let_def ib_checkDone_def)+

lemma ib_Read_used [flow]:
  "ib_used (fst (snd (ib_Read run k b s))) =
     ib_used b - int (length (ib_result_bytes (fst (ib_Read run k b s))))"
  by (cases "ib_buf b") (auto simp: ib_Read_def Let_def ib_checkDone_def)

lemma ib_Read_credit [flow]:
  "snd (snd (ib_Read run k b s)) =
     (case ib_buf b of
        [] \<Rightarrow> s
      | chunk # _ \<Rightarrow> (case ib_onRead b of None \<Rightarrow> s | Some cb \<Rightarrow> run cb (min k (length chunk)) s))"
  by (cases "ib_buf b") (auto simp: ib_Read_def Let_def)

lemma ib_Close_frame [flow]:
  "content (ib_Close b) = content b" "ib_closed (ib_Close b)" "ib_used (ib_Close b) = ib_used b"
  "ib_size (ib_Close b) = ib_size b" "ib_buf (ib_Close b) = ib_buf b"
  by (auto simp: ib_Close_def ib_checkDone_def ib_signal_def content_def)

lemma ib_Close_idem [simp]: "ib_closed b \<Longrightarrow> ib_Close b = b"
  by (simp add: ib_Close_def)

lemma ib_Close_shut: "ib_inv b \<Longrightarrow> ib_shut (ib_Close b)"
  using ib_inv_Close [of b] ib_Close_frame(2) [of b] by (simp add: ib_inv_def)

subsection \<open>OutputBuffer\<close>

record 'cb obuf =
  ob_wsize :: nat
  ob_wake :: wake
  ob_closed :: bool
  ob_write :: 'cb

definition NewOutputBuffer :: "'cb \<Rightarrow> 'cb obuf" where
  "NewOutputBuffer write = \<lparr>ob_wsize = 0, ob_wake = no_wake, ob_closed = False, ob_write = write\<rparr>"

datatype ob_result = OB_Wrote nat "nodes_err option" | OB_Closed | OB_Empty nat

definition ob_Write ::
  "('cb \<Rightarrow> bytes \<Rightarrow> 's \<Rightarrow> nodes_err option \<times> 's) \<Rightarrow> bytes \<Rightarrow> 'cb obuf \<Rightarrow> 's \<Rightarrow>
     ob_result \<times> 'cb obuf \<times> 's" where
  "ob_Write run p b s =
     (if ob_closed b then (OB_Closed, b, s)
      else if ob_wsize b = 0
        then (let cw = readyCh (ob_wake b) in (OB_Empty (fst cw), b\<lparr>ob_wake := snd cw\<rparr>, s))
      else (let n = min (ob_wsize b) (length p);
                es = run (ob_write b) (take n p) s
            in (OB_Wrote n (fst es), b\<lparr>ob_wsize := ob_wsize b - n\<rparr>, snd es)))"

definition ob_signal :: "'cb obuf \<Rightarrow> 'cb obuf" where
  "ob_signal b = b\<lparr>ob_wake := signal (ob_wake b)\<rparr>"

definition ob_Grow :: "nat \<Rightarrow> 'cb obuf \<Rightarrow> 'cb obuf" where
  "ob_Grow n b = ob_signal (b\<lparr>ob_wsize := ob_wsize b + n\<rparr>)"

definition ob_Close :: "'cb obuf \<Rightarrow> 'cb obuf" where
  "ob_Close b = ob_signal (b\<lparr>ob_closed := True\<rparr>)"

definition ob_inv :: "'cb obuf \<Rightarrow> bool" where
  "ob_inv b \<longleftrightarrow>
     wake_ok (ob_wake b) \<and> (ready (ob_wake b) \<noteq> None \<longrightarrow> ob_wsize b = 0 \<and> \<not> ob_closed b)"

lemma ob_inv_New: "ob_inv (NewOutputBuffer cb)"
  by (simp add: ob_inv_def NewOutputBuffer_def no_wake_def wake_ok_def)

lemma ob_inv_Write: "ob_inv b \<Longrightarrow> ob_inv (fst (snd (ob_Write run p b s)))"
  by (auto simp: ob_inv_def ob_Write_def Let_def)

lemma ob_inv_Grow: "ob_inv b \<Longrightarrow> ob_inv (ob_Grow n b)"
  by (simp add: ob_inv_def ob_Grow_def ob_signal_def)

lemma ob_inv_Close: "ob_inv b \<Longrightarrow> ob_inv (ob_Close b)"
  by (simp add: ob_inv_def ob_Close_def ob_signal_def)

lemmas ob_invs = ob_inv_New ob_inv_Write ob_inv_Grow ob_inv_Close

lemma ob_Grow_simps [simp]:
  "ob_wsize (ob_Grow n b) = ob_wsize b + n" "ob_closed (ob_Grow n b) = ob_closed b"
  "ob_write (ob_Grow n b) = ob_write b"
  by (simp_all add: ob_Grow_def ob_signal_def)

lemma ob_Close_simps [simp]:
  "ob_wsize (ob_Close b) = ob_wsize b" "ob_closed (ob_Close b)" "ob_write (ob_Close b) = ob_write b"
  by (simp_all add: ob_Close_def ob_signal_def)

subsection \<open>No wake-up is lost\<close>

text \<open>
  Both buffers promise their waiting caller the same thing.  A buffer is \<open>stuck\<close> when a
  call would have to wait; \<open>chan\<close> is a channel that was handed out to a waiting caller.
\<close>

locale wakeup =
  fixes wk :: "'b \<Rightarrow> wake" and stuck :: "'b \<Rightarrow> bool" and ok :: "'b \<Rightarrow> bool"
    and step :: "'b \<Rightarrow> 'b \<Rightarrow> bool"
  assumes ok_step: "ok b \<Longrightarrow> step b b' \<Longrightarrow> ok b'"
    and ok_wake: "ok b \<Longrightarrow> wake_ok (wk b) \<and> (ready (wk b) \<noteq> None \<longrightarrow> stuck b)"
    and step_created: "step b b' \<Longrightarrow> created (wk b) \<le> created (wk b')"
begin

lemma steps_ok: "step\<^sup>*\<^sup>* b b' \<Longrightarrow> ok b \<Longrightarrow> ok b' \<and> created (wk b) \<le> created (wk b')"
proof (induction rule: rtranclp_induct)
  case (step b' b'')
  then show ?case using ok_step step_created le_trans by blast
qed simp

text \<open>
  A caller that waits on a channel is released: as soon as the buffer is no longer stuck,
  its channel is closed.
\<close>

lemma no_lost_wakeup:
  assumes "ok b" and "step\<^sup>*\<^sup>* b b'" and "chan < created (wk b)" and "\<not> stuck b'"
  shows "chan \<in> set (woken (wk b'))"
proof -
  have ok': "ok b'" and "chan < created (wk b')"
    using steps_ok [OF assms(2,1)] assms(3) by auto
  then show ?thesis
    using ok_wake [OF ok'] assms(4) by (auto simp: wake_ok_def)
qed

end

text \<open>The buffer after a call does not depend on what the callback does.\<close>

definition ib_after_Read :: "nat \<Rightarrow> 'cb ibuf \<Rightarrow> 'cb ibuf" where
  "ib_after_Read k b = fst (snd (ib_Read (\<lambda>_ _ _. ()) k b ()))"

definition ob_after_Write :: "bytes \<Rightarrow> 'cb obuf \<Rightarrow> 'cb obuf" where
  "ob_after_Write p b = fst (snd (ob_Write (\<lambda>_ _ s. (None, s)) p b ()))"

lemma ib_after_Read: "fst (snd (ib_Read run k b s)) = ib_after_Read k b"
  by (cases "ib_buf b") (simp_all add: ib_after_Read_def ib_Read_def Let_def)

lemma ob_after_Write: "fst (snd (ob_Write run p b s)) = ob_after_Write p b"
  by (simp add: ob_after_Write_def ob_Write_def Let_def)

inductive ib_step :: "'cb ibuf \<Rightarrow> 'cb ibuf \<Rightarrow> bool" where
  ib_step_Push: "ib_step b (snd (ib_Push p b))"
| ib_step_Read: "ib_step b (ib_after_Read k b)"
| ib_step_Close: "ib_step b (ib_Close b)"

inductive ob_step :: "'cb obuf \<Rightarrow> 'cb obuf \<Rightarrow> bool" where
  ob_step_Write: "ob_step b (ob_after_Write p b)"
| ob_step_Grow: "ob_step b (ob_Grow n b)"
| ob_step_Close: "ob_step b (ob_Close b)"

definition ib_stuck :: "'cb ibuf \<Rightarrow> bool" where
  "ib_stuck b \<longleftrightarrow> ib_buf b = [] \<and> \<not> ib_closed b"

definition ob_stuck :: "'cb obuf \<Rightarrow> bool" where
  "ob_stuck b \<longleftrightarrow> ob_wsize b = 0 \<and> \<not> ob_closed b"

interpretation ib_wakeup: wakeup ib_wake ib_stuck ib_inv ib_step
proof
  fix b b' :: "'cb ibuf"
  show "ib_inv b'" if "ib_inv b" "ib_step b b'"
    using that(2,1) by (cases rule: ib_step.cases) (auto simp: ib_after_Read_def intro: ib_invs)
  show "wake_ok (ib_wake b) \<and> (ready (ib_wake b) \<noteq> None \<longrightarrow> ib_stuck b)" if "ib_inv b"
    using that by (simp add: ib_inv_def ib_stuck_def)
  show "created (ib_wake b) \<le> created (ib_wake b')" if "ib_step b b'"
    using that
    by (cases rule: ib_step.cases)
      (auto simp: ib_after_Read_def ib_defs Let_def split: list.splits)
qed

interpretation ob_wakeup: wakeup ob_wake ob_stuck ob_inv ob_step
proof
  fix b b' :: "'cb obuf"
  show "ob_inv b'" if "ob_inv b" "ob_step b b'"
    using that(2,1) by (cases rule: ob_step.cases) (auto simp: ob_after_Write_def intro: ob_invs)
  show "wake_ok (ob_wake b) \<and> (ready (ob_wake b) \<noteq> None \<longrightarrow> ob_stuck b)" if "ob_inv b"
    using that by (simp add: ob_inv_def ob_stuck_def)
  show "created (ob_wake b) \<le> created (ob_wake b')" if "ob_step b b'"
    using that
    by (cases rule: ob_step.cases)
      (auto simp: ob_after_Write_def ob_Write_def ob_Grow_def ob_Close_def ob_signal_def Let_def)
qed

subsection \<open>Properties\<close>

text \<open>A reader that reads on until it is told the end, or has to wait.\<close>

fun ib_drain :: "nat \<Rightarrow> nat \<Rightarrow> 'cb ibuf \<Rightarrow> bytes \<times> bool \<times> 'cb ibuf" where
  "ib_drain 0 k b = ([], False, b)"
| "ib_drain (Suc m) k b =
     (let r = ib_Read (\<lambda>_ _ _. ()) k b () in
      (case fst r of
         IB_Data p \<Rightarrow> (let d = ib_drain m k (fst (snd r)) in (p @ fst d, snd d))
       | IB_EOF \<Rightarrow> ([], True, fst (snd r))
       | IB_Empty _ \<Rightarrow> ([], False, fst (snd r))))"

text \<open>Each read of at least one byte shortens the buffered bytes or drops an empty chunk.\<close>

lemma ib_Read_shrinks:
  assumes "0 < k" and "ib_buf b = chunk # rest"
  shows "\<exists>p b'. ib_Read (\<lambda>_ _ _. ()) k b () = (IB_Data p, b', ()) \<and>
           length (content b') + length (ib_buf b') < length (content b) + length (ib_buf b)"
  using assms
  by (cases "chunk = []") (auto simp: ib_Read_def ib_checkDone_def content_def Let_def min_def)

text \<open>
  A closed buffer loses nothing: reading on with any non-empty slice gives exactly the
  bytes it held when it was closed, then end of file, and leaves its \<open>Done\<close> channel closed
  and no channel closed twice.
\<close>

lemma input_buffer_drains:
  assumes "ib_inv b" and "ib_closed b" and "0 < k"
    and "length (content b) + length (ib_buf b) < m"
  shows "\<exists>b'. ib_drain m k b = (content b, True, b') \<and> ib_done b' \<and> \<not> ib_panicked b'"
  using assms
proof (induction m arbitrary: b)
  case (Suc m)
  show ?case
  proof (cases "ib_buf b")
    case Nil
    then show ?thesis
      using Suc.prems(1,2) by (simp add: ib_Read_def content_def ib_inv_def)
  next
    case (Cons chunk rest)
    then obtain p b' where r: "ib_Read (\<lambda>_ _ _. ()) k b () = (IB_Data p, b', ())"
      and less: "length (content b') + length (ib_buf b') < length (content b) + length (ib_buf b)"
      using ib_Read_shrinks [OF Suc.prems(3)] by blast
    have "ib_inv b'" "ib_closed b'" "content b = p @ content b'"
      using ib_inv_Read [OF Suc.prems(1), of "\<lambda>_ _ _. ()" k "()"]
        ib_Read_frame(2) [of "\<lambda>_ _ _. ()" k b "()"] ib_Read_content [of b "\<lambda>_ _ _. ()" k "()"]
        Suc.prems(2) r by auto
    with Suc.IH [of b'] Suc.prems(3,4) less show ?thesis
      by (auto simp: r)
  qed
qed simp

lemma input_buffer_drains_witness:
  "\<exists>b'. ib_drain 9 2 (ib_Close (snd (ib_Push [1, 2, 3] (NewInputBuffer 8 (Some ()))))) =
          ([1, 2, 3], True, b') \<and> ib_done b' \<and> \<not> ib_panicked b'"
proof -
  let ?b = "ib_Close (snd (ib_Push [1, 2, 3] (NewInputBuffer 8 (Some ()))))"
  have "ib_inv ?b" by (intro ib_inv_Close ib_inv_Push ib_inv_New) simp
  moreover have "ib_buf ?b = [[1, 2, 3]]"
    by (simp add: ib_Close_frame) (simp add: ib_Push_def NewInputBuffer_def ib_signal_def)
  ultimately show ?thesis
    using input_buffer_drains [of ?b 2 9] by (simp add: content_def ib_Close_frame)
qed

text \<open>
  C32.  A reader that waits on an empty buffer is always woken: whatever pushes, reads and
  closes follow, once the buffer has data or is closed the channel it waits on is closed.
\<close>

theorem reader_woken:
  assumes "ib_inv b" and "fst (ib_Read run k b s) = IB_Empty chan"
    and "ib_step\<^sup>*\<^sup>* (fst (snd (ib_Read run k b s))) b'" and "ib_buf b' \<noteq> [] \<or> ib_closed b'"
  shows "chan \<in> set (woken (ib_wake b'))"
proof (rule ib_wakeup.no_lost_wakeup)
  show "ib_inv (fst (snd (ib_Read run k b s)))" using assms(1) by (rule ib_inv_Read)
  show "ib_step\<^sup>*\<^sup>* (fst (snd (ib_Read run k b s))) b'" by (rule assms(3))
  show "chan < created (ib_wake (fst (snd (ib_Read run k b s))))"
    using assms(1,2)
    by (cases "ib_buf b")
      (auto simp: ib_Read_def Let_def readyCh_def ib_inv_def wake_ok_def
        split: if_splits option.splits)
  show "\<not> ib_stuck b'" using assms(4) by (auto simp: ib_stuck_def)
qed

theorem reader_woken_witness:
  "0 \<in> set (woken (ib_wake (snd (ib_Push [7]
      (fst (snd (ib_Read (\<lambda>_ _ _. ()) 4 (NewInputBuffer 8 (Some ())) ())))))))"
proof -
  let ?b = "NewInputBuffer 8 (Some ()) :: unit ibuf"
  let ?r = "fst (snd (ib_Read (\<lambda>_ _ _. ()) 4 ?b ()))"
  have "ib_step ?r (snd (ib_Push [7] ?r))" by (rule ib_step_Push)
  moreover have "fst (ib_Read (\<lambda>_ _ _. ()) 4 ?b ()) = IB_Empty 0"
    by (simp add: ib_Read_def NewInputBuffer_def readyCh_def no_wake_def)
  moreover have "ib_buf (snd (ib_Push [7] ?r)) \<noteq> []"
    by (simp add: ib_Read_def NewInputBuffer_def readyCh_def no_wake_def ib_Push_def ib_signal_def)
  ultimately show ?thesis
    using reader_woken [of ?b "\<lambda>_ _ _. ()" 4 "()" 0, OF _ _ r_into_rtranclp]
    by (simp add: ib_inv_New)
qed

text \<open>
  A writer that waits for space is always woken: once the peer has granted space, or the
  buffer is closed, the channel it waits on is closed.
\<close>

lemma writer_woken:
  assumes "ob_inv b" and "fst (ob_Write run p b s) = OB_Empty chan"
    and "ob_step\<^sup>*\<^sup>* (fst (snd (ob_Write run p b s))) b'" and "0 < ob_wsize b' \<or> ob_closed b'"
  shows "chan \<in> set (woken (ob_wake b'))"
proof (rule ob_wakeup.no_lost_wakeup)
  show "ob_inv (fst (snd (ob_Write run p b s)))" using assms(1) by (rule ob_inv_Write)
  show "ob_step\<^sup>*\<^sup>* (fst (snd (ob_Write run p b s))) b'" by (rule assms(3))
  show "chan < created (ob_wake (fst (snd (ob_Write run p b s))))"
    using assms(1,2)
    by (auto simp: ob_Write_def Let_def readyCh_def ob_inv_def wake_ok_def
        split: if_splits option.splits)
  show "\<not> ob_stuck b'" using assms(4) by (auto simp: ob_stuck_def)
qed

lemma writer_woken_witness:
  "0 \<in> set (woken (ob_wake (ob_Grow 5
      (fst (snd (ob_Write (\<lambda>_ _ _. (None, ())) [1] (NewOutputBuffer ()) ()))))))"
proof -
  let ?run = "(\<lambda>_ _ _. (None, ())) :: unit \<Rightarrow> bytes \<Rightarrow> unit \<Rightarrow> nodes_err option \<times> unit"
  let ?b = "NewOutputBuffer () :: unit obuf"
  let ?w = "fst (snd (ob_Write ?run [1] ?b ()))"
  have "ob_step ?w (ob_Grow 5 ?w)" by (rule ob_step_Grow)
  moreover have "fst (ob_Write ?run [1] ?b ()) = OB_Empty 0"
    by (simp add: ob_Write_def NewOutputBuffer_def readyCh_def no_wake_def)
  moreover have "0 < ob_wsize (ob_Grow 5 ?w)"
    by (simp add: ob_Grow_def ob_signal_def)
  ultimately show ?thesis
    using writer_woken [of ?b ?run "[1]" "()" 0, OF _ _ r_into_rtranclp]
    by (simp add: ob_inv_New)
qed

end
