(* ===== verification/Frames.thy ===== *)
theory Frames
  imports Prelude
begin

section \<open>The frames of a node link (\<open>mod/nodes/frames\<close>)\<close>

text \<open>
  Each frame struct is a record with the fields of the Go struct at their width, and each
  \<open>ReadFrom\<close> and \<open>WriteTo\<close> method is a definition over the readers and writers of the
  prelude.  The byte order is the constant \<open>astral.ByteOrder\<close> of astral-go and is an
  argument; the wire form of an identity is astral-go's too, and the relay query takes its
  reader, its writer and the zero identity as arguments.

  The locale \<open>wire_codec\<close> states what a link relies on: a frame is decoded from exactly
  the bytes it was encoded to, whatever follows it.  Every frame of the source is an
  interpretation of it, on the frames it can carry: a query and a data frame write the
  length of their payload as 16 bits, so a longer payload is not a frame of the wire.
\<close>

subsection \<open>The structs\<close>

record ping_frame =
  ping_Nonce :: nonce
  ping_Pong :: bool

record query_frame =
  query_Nonce :: nonce
  query_Buffer :: "32 word"
  query_Query :: bytes

record 'id relay_frame =
  relay_CallerID :: "'id option"
  relay_TargetID :: "'id option"
  relay_Query :: query_frame

record read_frame =
  read_Nonce :: nonce
  read_Len :: "32 word"

record response_frame =
  response_Nonce :: nonce
  response_ErrCode :: "8 word"
  response_Buffer :: "32 word"

record data_frame =
  data_Nonce :: nonce
  data_Payload :: bytes

record migrate_frame =
  migrate_Nonce :: nonce

record reset_frame =
  reset_Nonce :: nonce

definition CodeAccepted :: "8 word" where "CodeAccepted = 0"

definition CodeRejected :: "8 word" where "CodeRejected = 1"

text \<open>The frame interface: one constructor per struct the source registers.\<close>

datatype 'id frame =
    Ping ping_frame
  | Query query_frame
  | RelayQuery "'id relay_frame"
  | Read read_frame
  | Response response_frame
  | Data data_frame
  | Migrate migrate_frame
  | Reset reset_frame

fun ObjectType :: "'id frame \<Rightarrow> string" where
  "ObjectType (Ping _) = ''nodes.frames.ping''"
| "ObjectType (Query _) = ''nodes.frames.query''"
| "ObjectType (RelayQuery _) = ''nodes.frames.relay_query''"
| "ObjectType (Read _) = ''nodes.frames.read''"
| "ObjectType (Response _) = ''nodes.frames.response''"
| "ObjectType (Data _) = ''nodes.frames.data''"
| "ObjectType (Migrate _) = ''nodes.frames.migrate''"
| "ObjectType (Reset _) = ''nodes.frames.reset''"

definition FrameTypes :: "string list" where
  "FrameTypes =
     [''nodes.frames.ping'', ''nodes.frames.query'', ''nodes.frames.relay_query'',
      ''nodes.frames.read'', ''nodes.frames.response'', ''nodes.frames.data'',
      ''nodes.frames.migrate'', ''nodes.frames.reset'']"

subsection \<open>Reading and writing\<close>

definition Ping_ReadFrom :: "byteOrder \<Rightarrow> ping_frame rd" where
  "Ping_ReadFrom bo =
     rd_bind (readU64 bo) (\<lambda>nonce.
     rd_bind (binRead 1 (\<lambda>bs. bs \<noteq> [0])) (\<lambda>pong.
     rd_return \<lparr>ping_Nonce = nonce, ping_Pong = pong\<rparr>))"

definition Ping_WriteTo :: "byteOrder \<Rightarrow> ping_frame \<Rightarrow> wr" where
  "Ping_WriteTo bo f =
     wr_then (binWrite (putUint bo 8 (unat (ping_Nonce f))))
             (binWrite [if ping_Pong f then 1 else 0])"

definition Query_ReadFrom :: "byteOrder \<Rightarrow> query_frame rd" where
  "Query_ReadFrom bo =
     rd_bind (readU64 bo) (\<lambda>nonce.
     rd_bind (readU32 bo) (\<lambda>buffer.
     rd_bind (readU16 bo) (\<lambda>plen.
     rd_bind (readFull (unat plen)) (\<lambda>b.
     rd_return \<lparr>query_Nonce = nonce, query_Buffer = buffer, query_Query = b\<rparr>))))"

definition Query_WriteTo :: "byteOrder \<Rightarrow> query_frame \<Rightarrow> wr" where
  "Query_WriteTo bo f =
     wr_then (binWrite (putUint bo 8 (unat (query_Nonce f))))
    (wr_then (binWrite (putUint bo 4 (unat (query_Buffer f))))
    (wr_then (binWrite (putUint bo 2 (unat (of_nat (length (query_Query f)) :: 16 word))))
             (sink_Write (query_Query f))))"

definition RelayQuery_ReadFrom :: "'id rd \<Rightarrow> byteOrder \<Rightarrow> 'id relay_frame rd" where
  "RelayQuery_ReadFrom idRead bo =
     rd_bind idRead (\<lambda>caller.
     rd_bind idRead (\<lambda>target.
     rd_bind (Query_ReadFrom bo) (\<lambda>q.
     rd_return \<lparr>relay_CallerID = Some caller, relay_TargetID = Some target, relay_Query = q\<rparr>)))"

definition RelayQuery_WriteTo ::
  "('id \<Rightarrow> wr) \<Rightarrow> 'id \<Rightarrow> byteOrder \<Rightarrow> 'id relay_frame \<Rightarrow> wr" where
  "RelayQuery_WriteTo idWrite zeroID bo f =
     (let callerID = (case relay_CallerID f of None \<Rightarrow> zeroID | Some i \<Rightarrow> i);
          targetID = (case relay_TargetID f of None \<Rightarrow> zeroID | Some i \<Rightarrow> i)
      in wr_then (idWrite callerID)
        (wr_then (idWrite targetID)
                 (Query_WriteTo bo (relay_Query f))))"

definition Read_ReadFrom :: "byteOrder \<Rightarrow> read_frame rd" where
  "Read_ReadFrom bo =
     rd_bind (readU64 bo) (\<lambda>nonce.
     rd_bind (readU32 bo) (\<lambda>len.
     rd_return \<lparr>read_Nonce = nonce, read_Len = len\<rparr>))"

definition Read_WriteTo :: "byteOrder \<Rightarrow> read_frame \<Rightarrow> wr" where
  "Read_WriteTo bo f =
     wr_then (binWrite (putUint bo 8 (unat (read_Nonce f))))
             (binWrite (putUint bo 4 (unat (read_Len f))))"

definition Response_ReadFrom :: "byteOrder \<Rightarrow> response_frame rd" where
  "Response_ReadFrom bo =
     rd_bind (readU64 bo) (\<lambda>nonce.
     rd_bind (readU8 bo) (\<lambda>code.
     rd_bind (readU32 bo) (\<lambda>buffer.
     rd_return \<lparr>response_Nonce = nonce, response_ErrCode = code, response_Buffer = buffer\<rparr>)))"

definition Response_WriteTo :: "byteOrder \<Rightarrow> response_frame \<Rightarrow> wr" where
  "Response_WriteTo bo f =
     wr_then (binWrite (putUint bo 8 (unat (response_Nonce f))))
    (wr_then (binWrite (putUint bo 1 (unat (response_ErrCode f))))
             (binWrite (putUint bo 4 (unat (response_Buffer f)))))"

definition Data_ReadFrom :: "byteOrder \<Rightarrow> data_frame rd" where
  "Data_ReadFrom bo =
     rd_bind (readU64 bo) (\<lambda>nonce.
     rd_bind (readU16 bo) (\<lambda>plen.
     rd_bind (readFull (unat plen)) (\<lambda>payload.
     rd_return \<lparr>data_Nonce = nonce, data_Payload = payload\<rparr>)))"

definition Data_WriteTo :: "byteOrder \<Rightarrow> data_frame \<Rightarrow> wr" where
  "Data_WriteTo bo f =
     wr_then (binWrite (putUint bo 8 (unat (data_Nonce f))))
    (wr_then (binWrite (putUint bo 2 (unat (of_nat (length (data_Payload f)) :: 16 word))))
             (sink_Write (data_Payload f)))"

definition Migrate_ReadFrom :: "byteOrder \<Rightarrow> migrate_frame rd" where
  "Migrate_ReadFrom bo = rd_bind (readU64 bo) (\<lambda>nonce. rd_return \<lparr>migrate_Nonce = nonce\<rparr>)"

definition Migrate_WriteTo :: "byteOrder \<Rightarrow> migrate_frame \<Rightarrow> wr" where
  "Migrate_WriteTo bo f = binWrite (putUint bo 8 (unat (migrate_Nonce f)))"

definition Reset_ReadFrom :: "byteOrder \<Rightarrow> reset_frame rd" where
  "Reset_ReadFrom bo = rd_bind (readU64 bo) (\<lambda>nonce. rd_return \<lparr>reset_Nonce = nonce\<rparr>)"

definition Reset_WriteTo :: "byteOrder \<Rightarrow> reset_frame \<Rightarrow> wr" where
  "Reset_WriteTo bo f = binWrite (putUint bo 8 (unat (reset_Nonce f)))"

text \<open>
  The bytes that \<open>WriteTo\<close> puts out, as a function of the frame: the specification the
  writers are proved against.
\<close>

definition ping_bytes :: "byteOrder \<Rightarrow> ping_frame \<Rightarrow> bytes" where
  "ping_bytes bo f = putUint bo 8 (unat (ping_Nonce f)) @ [if ping_Pong f then 1 else 0]"

definition len16 :: "bytes \<Rightarrow> 16 word" where
  "len16 p = of_nat (length p)"

definition query_bytes :: "byteOrder \<Rightarrow> query_frame \<Rightarrow> bytes" where
  "query_bytes bo f =
     putUint bo 8 (unat (query_Nonce f)) @ putUint bo 4 (unat (query_Buffer f)) @
     putUint bo 2 (unat (len16 (query_Query f))) @ query_Query f"

definition read_bytes :: "byteOrder \<Rightarrow> read_frame \<Rightarrow> bytes" where
  "read_bytes bo f = putUint bo 8 (unat (read_Nonce f)) @ putUint bo 4 (unat (read_Len f))"

definition response_bytes :: "byteOrder \<Rightarrow> response_frame \<Rightarrow> bytes" where
  "response_bytes bo f =
     putUint bo 8 (unat (response_Nonce f)) @ putUint bo 1 (unat (response_ErrCode f)) @
     putUint bo 4 (unat (response_Buffer f))"

definition data_bytes :: "byteOrder \<Rightarrow> data_frame \<Rightarrow> bytes" where
  "data_bytes bo f =
     putUint bo 8 (unat (data_Nonce f)) @ putUint bo 2 (unat (len16 (data_Payload f))) @
     data_Payload f"

definition migrate_bytes :: "byteOrder \<Rightarrow> migrate_frame \<Rightarrow> bytes" where
  "migrate_bytes bo f = putUint bo 8 (unat (migrate_Nonce f))"

definition reset_bytes :: "byteOrder \<Rightarrow> reset_frame \<Rightarrow> bytes" where
  "reset_bytes bo f = putUint bo 8 (unat (reset_Nonce f))"

lemmas frame_bytes_defs =
  ping_bytes_def query_bytes_def read_bytes_def response_bytes_def data_bytes_def
  migrate_bytes_def reset_bytes_def

subsection \<open>The contract of a codec\<close>

locale wire_codec =
  fixes enc :: "byteOrder \<Rightarrow> 'f \<Rightarrow> bytes"
    and WriteTo :: "byteOrder \<Rightarrow> 'f \<Rightarrow> wr"
    and ReadFrom :: "byteOrder \<Rightarrow> 'f rd"
    and ok :: "'f \<Rightarrow> bool"
  assumes WriteTo_enc: "writes (WriteTo bo f) (enc bo f)"
    and ReadFrom_enc: "ok f \<Longrightarrow> ReadFrom bo (enc bo f @ r) = (length (enc bo f), Inr f, r)"
    and ReadFrom_exact: "exact (ReadFrom bo)"
begin

text \<open>Encoding is injective, also in front of more bytes: no frame is a prefix of another.\<close>

lemma enc_prefix_free:
  assumes "ok f" and "ok g" and "enc bo f @ r = enc bo g @ s"
  shows "f = g \<and> r = s"
  using ReadFrom_enc [OF assms(1), of bo r] ReadFrom_enc [OF assms(2), of bo s]
  unfolding assms(3) by auto

text \<open>A frame cut short is never read as a frame.\<close>

lemma truncated:
  assumes "ok f" and "k < length (enc bo f)"
  shows "\<exists>n e. ReadFrom bo (take k (enc bo f)) = (n, Inl e, []) \<and> n \<le> k"
  using exact_truncated [OF ReadFrom_exact _ assms(2)] ReadFrom_enc [OF assms(1), of bo "[]"]
  by simp

text \<open>A whole stream of frames is read back one by one.\<close>

lemma stream:
  assumes "\<forall>f\<in>set fs. ok f" and "i < length fs"
  shows "ReadFrom bo (concat (map (enc bo) (drop i fs)) @ r) =
           (length (enc bo (fs ! i)), Inr (fs ! i), concat (map (enc bo) (drop (Suc i) fs)) @ r)"
  using assms ReadFrom_enc [of "fs ! i" bo] by (simp add: Cons_nth_drop_Suc [symmetric])

end

subsection \<open>Every frame meets it\<close>

lemma unat_len16: "length p < 65536 \<Longrightarrow> unat (len16 p) = length p"
  by (simp add: len16_def unat_of_nat)

lemma readU16_len16:
  "length p < 65536 \<Longrightarrow> readU16 bo (putUint bo 2 (length p) @ r) = (2, Inr (len16 p), r)"
  using readU16_put [of bo "len16 p" r] by (simp add: unat_len16)

lemmas codec_simps = frame_bytes_defs rd_bind_def rd_return_def wire unat_len16 readU16_len16

interpretation ping: wire_codec ping_bytes Ping_WriteTo Ping_ReadFrom "\<lambda>_. True"
proof
  fix bo f r
  show "writes (Ping_WriteTo bo f) (ping_bytes bo f)"
    unfolding Ping_WriteTo_def ping_bytes_def by blast
  show "Ping_ReadFrom bo (ping_bytes bo f @ r) = (length (ping_bytes bo f), Inr f, r)"
    by (simp add: Ping_ReadFrom_def codec_simps binRead_def)
  show "exact (Ping_ReadFrom bo)" unfolding Ping_ReadFrom_def by blast
qed

interpretation query: wire_codec query_bytes Query_WriteTo Query_ReadFrom
  "\<lambda>f. length (query_Query f) < 65536"
proof
  fix bo f r
  show "writes (Query_WriteTo bo f) (query_bytes bo f)"
    unfolding Query_WriteTo_def query_bytes_def len16_def by blast
  show "Query_ReadFrom bo (query_bytes bo f @ r) = (length (query_bytes bo f), Inr f, r)"
    if "length (query_Query f) < 65536"
    using that by (simp add: Query_ReadFrom_def codec_simps)
  show "exact (Query_ReadFrom bo)" unfolding Query_ReadFrom_def by blast
qed

interpretation read: wire_codec read_bytes Read_WriteTo Read_ReadFrom "\<lambda>_. True"
proof
  fix bo f r
  show "writes (Read_WriteTo bo f) (read_bytes bo f)"
    unfolding Read_WriteTo_def read_bytes_def by blast
  show "Read_ReadFrom bo (read_bytes bo f @ r) = (length (read_bytes bo f), Inr f, r)"
    using readU32_put [of bo "read_Len f" r] by (simp add: Read_ReadFrom_def codec_simps)
  show "exact (Read_ReadFrom bo)" unfolding Read_ReadFrom_def by blast
qed

interpretation response: wire_codec response_bytes Response_WriteTo Response_ReadFrom "\<lambda>_. True"
proof
  fix bo f r
  show "writes (Response_WriteTo bo f) (response_bytes bo f)"
    unfolding Response_WriteTo_def response_bytes_def by blast
  show "Response_ReadFrom bo (response_bytes bo f @ r) = (length (response_bytes bo f), Inr f, r)"
    by (simp add: Response_ReadFrom_def codec_simps)
  show "exact (Response_ReadFrom bo)" unfolding Response_ReadFrom_def by blast
qed

interpretation data: wire_codec data_bytes Data_WriteTo Data_ReadFrom
  "\<lambda>f. length (data_Payload f) < 65536"
proof
  fix bo f r
  show "writes (Data_WriteTo bo f) (data_bytes bo f)"
    unfolding Data_WriteTo_def data_bytes_def len16_def by blast
  show "Data_ReadFrom bo (data_bytes bo f @ r) = (length (data_bytes bo f), Inr f, r)"
    if "length (data_Payload f) < 65536"
    using that by (simp add: Data_ReadFrom_def codec_simps)
  show "exact (Data_ReadFrom bo)" unfolding Data_ReadFrom_def by blast
qed

interpretation migrate: wire_codec migrate_bytes Migrate_WriteTo Migrate_ReadFrom "\<lambda>_. True"
proof
  fix bo f r
  show "writes (Migrate_WriteTo bo f) (migrate_bytes bo f)"
    unfolding Migrate_WriteTo_def migrate_bytes_def by blast
  show "Migrate_ReadFrom bo (migrate_bytes bo f @ r) = (length (migrate_bytes bo f), Inr f, r)"
    by (simp add: Migrate_ReadFrom_def codec_simps)
  show "exact (Migrate_ReadFrom bo)" unfolding Migrate_ReadFrom_def by blast
qed

interpretation reset: wire_codec reset_bytes Reset_WriteTo Reset_ReadFrom "\<lambda>_. True"
proof
  fix bo f r
  show "writes (Reset_WriteTo bo f) (reset_bytes bo f)"
    unfolding Reset_WriteTo_def reset_bytes_def by blast
  show "Reset_ReadFrom bo (reset_bytes bo f @ r) = (length (reset_bytes bo f), Inr f, r)"
    by (simp add: Reset_ReadFrom_def codec_simps)
  show "exact (Reset_ReadFrom bo)" unfolding Reset_ReadFrom_def by blast
qed

subsection \<open>The relay query and the identities it carries\<close>

text \<open>
  What the source relies on of astral-go's identities: an identity takes 33 bytes, and is
  read back from them.
\<close>

definition identity_wire :: "('id \<Rightarrow> bytes) \<Rightarrow> ('id \<Rightarrow> wr) \<Rightarrow> 'id rd \<Rightarrow> bool" where
  "identity_wire idBytes idWrite idRead \<longleftrightarrow>
     (\<forall>i. length (idBytes i) = 33) \<and> (\<forall>i. writes (idWrite i) (idBytes i)) \<and>
     (\<forall>i r. idRead (idBytes i @ r) = (33, Inr i, r)) \<and> exact idRead"

definition relay_bytes :: "('id \<Rightarrow> bytes) \<Rightarrow> 'id \<Rightarrow> byteOrder \<Rightarrow> 'id relay_frame \<Rightarrow> bytes" where
  "relay_bytes idBytes zeroID bo f =
     idBytes (case relay_CallerID f of None \<Rightarrow> zeroID | Some i \<Rightarrow> i) @
     idBytes (case relay_TargetID f of None \<Rightarrow> zeroID | Some i \<Rightarrow> i) @
     query_bytes bo (relay_Query f)"

text \<open>A nil identity is written as the zero identity, and read back as it.\<close>

definition relay_normal :: "'id \<Rightarrow> 'id relay_frame \<Rightarrow> 'id relay_frame" where
  "relay_normal zeroID f =
     f\<lparr>relay_CallerID := Some (case relay_CallerID f of None \<Rightarrow> zeroID | Some i \<Rightarrow> i),
       relay_TargetID := Some (case relay_TargetID f of None \<Rightarrow> zeroID | Some i \<Rightarrow> i)\<rparr>"

lemma RelayQuery_writes:
  assumes "identity_wire idBytes idWrite idRead"
  shows "writes (RelayQuery_WriteTo idWrite zeroID bo f) (relay_bytes idBytes zeroID bo f)"
  using assms query.WriteTo_enc unfolding RelayQuery_WriteTo_def relay_bytes_def Let_def identity_wire_def
  by (intro writes_then) auto

lemma RelayQuery_reads:
  assumes "identity_wire idBytes idWrite idRead" and "length (query_Query (relay_Query f)) < 65536"
  shows "RelayQuery_ReadFrom idRead bo (relay_bytes idBytes zeroID bo f @ r) =
           (length (relay_bytes idBytes zeroID bo f), Inr (relay_normal zeroID f), r)"
  using assms query.ReadFrom_enc [OF assms(2), of bo r]
  by (simp add: RelayQuery_ReadFrom_def relay_bytes_def relay_normal_def identity_wire_def
      rd_bind_def rd_return_def)

lemma RelayQuery_exact:
  assumes "identity_wire idBytes idWrite idRead"
  shows "exact (RelayQuery_ReadFrom idRead bo)"
  using assms query.ReadFrom_exact unfolding RelayQuery_ReadFrom_def identity_wire_def
  by (intro exact_bind exact_return) auto

lemma RelayQuery_codec:
  assumes "identity_wire idBytes idWrite idRead"
  shows "wire_codec (relay_bytes idBytes zeroID) (RelayQuery_WriteTo idWrite zeroID)
           (RelayQuery_ReadFrom idRead)
           (\<lambda>f. relay_normal zeroID f = f \<and> length (query_Query (relay_Query f)) < 65536)"
proof
  fix bo f r
  show "writes (RelayQuery_WriteTo idWrite zeroID bo f) (relay_bytes idBytes zeroID bo f)"
    using assms by (rule RelayQuery_writes)
  show "RelayQuery_ReadFrom idRead bo (relay_bytes idBytes zeroID bo f @ r) =
          (length (relay_bytes idBytes zeroID bo f), Inr f, r)"
    if "relay_normal zeroID f = f \<and> length (query_Query (relay_Query f)) < 65536"
    using RelayQuery_reads [OF assms, of f] that by simp
  show "exact (RelayQuery_ReadFrom idRead bo)"
    using assms by (rule RelayQuery_exact)
qed

subsection \<open>Dispatch by object type\<close>

text \<open>
  A link sends the object type of a frame and then its payload.  The receiver builds the
  struct registered under the type, and none for any other type.
\<close>

definition frame_ReadFrom :: "'id rd \<Rightarrow> byteOrder \<Rightarrow> string \<Rightarrow> 'id frame rd option" where
  "frame_ReadFrom idRead bo ty =
     (if ty = ''nodes.frames.ping'' then Some (rd_map Ping (Ping_ReadFrom bo))
      else if ty = ''nodes.frames.query'' then Some (rd_map Query (Query_ReadFrom bo))
      else if ty = ''nodes.frames.relay_query''
        then Some (rd_map RelayQuery (RelayQuery_ReadFrom idRead bo))
      else if ty = ''nodes.frames.response'' then Some (rd_map Response (Response_ReadFrom bo))
      else if ty = ''nodes.frames.read'' then Some (rd_map Read (Read_ReadFrom bo))
      else if ty = ''nodes.frames.data'' then Some (rd_map Data (Data_ReadFrom bo))
      else if ty = ''nodes.frames.migrate'' then Some (rd_map Migrate (Migrate_ReadFrom bo))
      else if ty = ''nodes.frames.reset'' then Some (rd_map Reset (Reset_ReadFrom bo))
      else None)"

fun frame_WriteTo :: "('id \<Rightarrow> wr) \<Rightarrow> 'id \<Rightarrow> byteOrder \<Rightarrow> 'id frame \<Rightarrow> wr" where
  "frame_WriteTo idWrite zeroID bo (Ping f) = Ping_WriteTo bo f"
| "frame_WriteTo idWrite zeroID bo (Query f) = Query_WriteTo bo f"
| "frame_WriteTo idWrite zeroID bo (RelayQuery f) = RelayQuery_WriteTo idWrite zeroID bo f"
| "frame_WriteTo idWrite zeroID bo (Read f) = Read_WriteTo bo f"
| "frame_WriteTo idWrite zeroID bo (Response f) = Response_WriteTo bo f"
| "frame_WriteTo idWrite zeroID bo (Data f) = Data_WriteTo bo f"
| "frame_WriteTo idWrite zeroID bo (Migrate f) = Migrate_WriteTo bo f"
| "frame_WriteTo idWrite zeroID bo (Reset f) = Reset_WriteTo bo f"

fun frame_bytes :: "('id \<Rightarrow> bytes) \<Rightarrow> 'id \<Rightarrow> byteOrder \<Rightarrow> 'id frame \<Rightarrow> bytes" where
  "frame_bytes idBytes zeroID bo (Ping f) = ping_bytes bo f"
| "frame_bytes idBytes zeroID bo (Query f) = query_bytes bo f"
| "frame_bytes idBytes zeroID bo (RelayQuery f) = relay_bytes idBytes zeroID bo f"
| "frame_bytes idBytes zeroID bo (Read f) = read_bytes bo f"
| "frame_bytes idBytes zeroID bo (Response f) = response_bytes bo f"
| "frame_bytes idBytes zeroID bo (Data f) = data_bytes bo f"
| "frame_bytes idBytes zeroID bo (Migrate f) = migrate_bytes bo f"
| "frame_bytes idBytes zeroID bo (Reset f) = reset_bytes bo f"

text \<open>The frames a link can carry: no payload longer than its length field can say.\<close>

fun sendable :: "'id frame \<Rightarrow> bool" where
  "sendable (Query f) = (length (query_Query f) < 65536)"
| "sendable (RelayQuery f) = (length (query_Query (relay_Query f)) < 65536)"
| "sendable (Data f) = (length (data_Payload f) < 65536)"
| "sendable _ = True"

fun received_as :: "'id \<Rightarrow> 'id frame \<Rightarrow> 'id frame" where
  "received_as zeroID (RelayQuery f) = RelayQuery (relay_normal zeroID f)"
| "received_as zeroID f = f"

lemma frame_writes:
  assumes "identity_wire idBytes idWrite idRead"
  shows "writes (frame_WriteTo idWrite zeroID bo f) (frame_bytes idBytes zeroID bo f)"
  using RelayQuery_writes [OF assms]
  by (cases f)
    (auto intro: ping.WriteTo_enc query.WriteTo_enc read.WriteTo_enc response.WriteTo_enc
      data.WriteTo_enc migrate.WriteTo_enc reset.WriteTo_enc)

lemma frame_reads:
  assumes "identity_wire idBytes idWrite idRead" and "sendable f"
  shows "\<exists>m. frame_ReadFrom idRead bo (ObjectType f) = Some m \<and> exact m \<and>
           m (frame_bytes idBytes zeroID bo f @ r) =
             (length (frame_bytes idBytes zeroID bo f), Inr (received_as zeroID f), r)"
  using assms query.ReadFrom_enc [of _ bo r] data.ReadFrom_enc [of _ bo r]
  by (cases f)
    (simp_all add: frame_ReadFrom_def rd_map_Inr exact_map ping.ReadFrom_enc read.ReadFrom_enc
      response.ReadFrom_enc migrate.ReadFrom_enc reset.ReadFrom_enc RelayQuery_reads
      RelayQuery_exact ping.ReadFrom_exact query.ReadFrom_exact read.ReadFrom_exact
      response.ReadFrom_exact data.ReadFrom_exact migrate.ReadFrom_exact reset.ReadFrom_exact)

subsection \<open>Properties\<close>

text \<open>An identity codec of the documented shape, for the witnesses: 33 equal bytes.\<close>

definition byte_id_bytes :: "byte \<Rightarrow> bytes" where
  "byte_id_bytes i = replicate 33 i"

definition byte_id_read :: "byte rd" where
  "byte_id_read = rd_map hd (readFull 33)"

lemma byte_identity_wire:
  "identity_wire byte_id_bytes (\<lambda>i. sink_Write (byte_id_bytes i)) byte_id_read"
  unfolding identity_wire_def byte_id_read_def
  by (auto simp: byte_id_bytes_def intro!: exact_map rd_map_Inr [where a = "replicate 33 _", THEN trans]
      readFull_append)

text \<open>
  C14.  Every frame the link can carry survives the wire: \<open>WriteTo\<close> on a writer with room
  puts out exactly its bytes, and the struct registered under its object type reads them
  back from the front of whatever follows, with the count of bytes it took; a nil identity
  of a relay query comes back as the zero identity.
\<close>

theorem frame_roundtrip:
  assumes "identity_wire idBytes idWrite idRead" and "sendable f"
    and "length (frame_bytes idBytes zeroID bo f) \<le> room w"
  shows "\<exists>w' m. frame_WriteTo idWrite zeroID bo f w =
             (length (frame_bytes idBytes zeroID bo f), None, w') \<and>
           written w' = written w @ frame_bytes idBytes zeroID bo f \<and>
           frame_ReadFrom idRead bo (ObjectType f) = Some m \<and>
           m (frame_bytes idBytes zeroID bo f @ r) =
             (length (frame_bytes idBytes zeroID bo f), Inr (received_as zeroID f), r)"
  using frame_writes [OF assms(1), of zeroID bo f] frame_reads [OF assms(1,2)] assms(3)
  by (fastforce simp: writes_def)

theorem frame_roundtrip_witness:
  "\<exists>w' m. frame_WriteTo (\<lambda>i. sink_Write (byte_id_bytes i)) 0 BigEndian
             (Data \<lparr>data_Nonce = 7, data_Payload = [1, 2, 3]\<rparr>) \<lparr>written = [], room = 20\<rparr> =
             (13, None, w') \<and>
           written w' = [0, 0, 0, 0, 0, 0, 0, 7, 0, 3, 1, 2, 3] \<and>
           frame_ReadFrom byte_id_read BigEndian ''nodes.frames.data'' = Some m \<and>
           m [0, 0, 0, 0, 0, 0, 0, 7, 0, 3, 1, 2, 3, 9] =
             (13, Inr (Data \<lparr>data_Nonce = 7, data_Payload = [1, 2, 3]\<rparr>), [9])"
proof -
  let ?f = "Data \<lparr>data_Nonce = 7, data_Payload = [1, 2, 3]\<rparr> :: byte frame"
  have b: "frame_bytes byte_id_bytes 0 BigEndian ?f = [0, 0, 0, 0, 0, 0, 0, 7, 0, 3, 1, 2, 3]"
    by (simp add: data_bytes_def putUint_def len16_def be_bytes_numeral)
  have l: "length (frame_bytes byte_id_bytes 0 BigEndian ?f) = 13"
    unfolding b by simp
  show ?thesis
    using frame_roundtrip [OF byte_identity_wire, of ?f 0 BigEndian "\<lparr>written = [], room = 20\<rparr>" "[9]"]
    unfolding l unfolding b by simp
qed

text \<open>
  A frame cut short at any byte is never taken for a frame: the reader answers an
  error, and a count of no more bytes than there were.
\<close>

lemma frame_truncated:
  assumes "identity_wire idBytes idWrite idRead" and "sendable f"
    and "frame_ReadFrom idRead bo (ObjectType f) = Some m"
    and "k < length (frame_bytes idBytes zeroID bo f)"
  shows "\<exists>n e. m (take k (frame_bytes idBytes zeroID bo f)) = (n, Inl e, []) \<and> n \<le> k"
proof -
  obtain m' where m': "frame_ReadFrom idRead bo (ObjectType f) = Some m'" "exact m'"
    "m' (frame_bytes idBytes zeroID bo f) =
      (length (frame_bytes idBytes zeroID bo f), Inr (received_as zeroID f), [])"
    using frame_reads [OF assms(1,2), of bo zeroID "[]"] by auto
  with assms(3) have "m' = m" by simp
  with m' have m: "exact m" and all: "m (frame_bytes idBytes zeroID bo f) =
      (length (frame_bytes idBytes zeroID bo f), Inr (received_as zeroID f), [])"
    by simp_all
  show ?thesis by (rule exact_truncated [OF m all assms(4)])
qed

lemma frame_truncated_witness:
  "\<exists>n e. rd_map (Reset :: _ \<Rightarrow> byte frame) (Reset_ReadFrom LittleEndian) [7, 0, 0] =
     (n, Inl e, []) \<and> n \<le> 3"
proof -
  let ?f = "Reset \<lparr>reset_Nonce = 7\<rparr> :: byte frame"
  have b: "frame_bytes byte_id_bytes 0 LittleEndian ?f = [7, 0, 0, 0, 0, 0, 0, 0]"
    by (simp add: reset_bytes_def putUint_def be_bytes_numeral)
  have m: "frame_ReadFrom byte_id_read LittleEndian (ObjectType ?f) =
      Some (rd_map Reset (Reset_ReadFrom LittleEndian))"
    by (simp add: frame_ReadFrom_def)
  have k: "take 3 [7, 0, 0, 0, 0, 0, 0, 0 :: byte] = [7, 0, 0]"
    by (simp add: eval_nat_numeral)
  show ?thesis
    using frame_truncated [OF byte_identity_wire _ m, of 3 0] unfolding b k by simp
qed

text \<open>
  The opcode table and the registered structs agree: no object type has two opcodes,
  every frame has one, and a type outside the table builds no frame.
\<close>

lemma frame_types:
  "distinct FrameTypes \<and> ObjectType f \<in> set FrameTypes \<and>
   (frame_ReadFrom idRead bo ty = None) = (ty \<notin> set FrameTypes)"
  by (cases f) (auto simp: FrameTypes_def frame_ReadFrom_def)

text \<open>
  A query string past 65535 bytes would not arrive as it was sent: the length field
  wraps, so the peer reads a prefix of the string as the query and finds the rest of it on
  the link where the next frame should be.
\<close>

lemma long_query_wraps:
  assumes "65536 \<le> length (query_Query f)"
  shows "\<exists>g r. Query_ReadFrom bo (query_bytes bo f) = (14 + length (query_Query f) mod 65536, Inr g, r) \<and>
           query_Query g \<noteq> query_Query f \<and> r \<noteq> [] \<and> query_Query f = query_Query g @ r"
proof -
  let ?n = "length (query_Query f) mod 65536"
  let ?g = "f\<lparr>query_Query := take ?n (query_Query f)\<rparr>"
  have n: "?n < 65536" "?n < length (query_Query f)" using assms by (simp_all add: less_le_trans)
  have "unat (len16 (query_Query f)) = ?n"
    by (simp add: len16_def unat_of_nat)
  then have "query_bytes bo f = query_bytes bo ?g @ drop ?n (query_Query f)"
    using n by (simp add: query_bytes_def len16_def unat_of_nat min_def)
  then have "Query_ReadFrom bo (query_bytes bo f) =
      (length (query_bytes bo ?g), Inr ?g, drop ?n (query_Query f))"
    using query.ReadFrom_enc [of ?g bo "drop ?n (query_Query f)"] n by simp
  moreover have "length (query_bytes bo ?g) = 14 + ?n"
    using n by (simp add: query_bytes_def)
  moreover have "take ?n (query_Query f) \<noteq> query_Query f"
    using n(2) by (metis length_take less_irrefl min.absorb4)
  ultimately show ?thesis
    using n(2) by (intro exI [of _ ?g] exI [of _ "drop ?n (query_Query f)"]) simp
qed

definition long_query :: query_frame where
  "long_query = \<lparr>query_Nonce = 1, query_Buffer = 0, query_Query = replicate 65538 5\<rparr>"

lemma long_query_wraps_witness:
  "\<exists>g r. Query_ReadFrom BigEndian (query_bytes BigEndian long_query) = (16, Inr g, r) \<and>
         query_Query g \<noteq> query_Query long_query \<and> r \<noteq> []"
proof -
  have n: "length (query_Query long_query) = 65538"
    by (simp add: long_query_def)
  show ?thesis
    using long_query_wraps [of long_query BigEndian] unfolding n by auto
qed

end
