(* ===== verification/Pressure.thy ===== *)
theory Pressure
  imports Complex_Main
begin

section \<open>The pressure of a link (\<open>pressure.go\<close>)\<close>

text \<open>
  Every link to a peer feeds a detector with the bytes it moves and the round-trip times it
  measures; the detector decides when the link is loaded enough to look for a better one.
  The detector is a record, its methods are functions on it.  Floating-point numbers are
  reals; times and durations are integers in nanoseconds; \<open>p_onHigh\<close> counts the calls of the
  \<open>onHigh\<close> callback.  The lemmas show that the level stays within its bounds, what makes the
  detector enter and leave the high state, and the two promises in the comments of the
  configurations.
\<close>

record LinkPressureConfig =
  LeakRate :: real
  Cap :: real
  LevelRef :: real
  RTTRef :: int
  RTTAlpha :: real
  WLevel :: real
  WRTT :: real
  Enter :: real
  Exit :: real

definition Millisecond :: int where "Millisecond = 1000000"

definition DefaultLinkPressureConfig :: LinkPressureConfig where
  "DefaultLinkPressureConfig =
     \<lparr>LeakRate = 50 * 1024, Cap = 500 * 1024, LevelRef = 200 * 1024,
      RTTRef = 300 * Millisecond, RTTAlpha = 25 / 100,
      WLevel = 7 / 10, WRTT = 5 / 10, Enter = 1, Exit = 4 / 10\<rparr>"

definition TorLinkPressureConfig :: LinkPressureConfig where
  "TorLinkPressureConfig =
     \<lparr>LeakRate = 10 * 1024, Cap = 200 * 1024, LevelRef = 100 * 1024,
      RTTRef = 1500 * Millisecond, RTTAlpha = 25 / 100,
      WLevel = 8 / 10, WRTT = 2 / 10, Enter = 1, Exit = 4 / 10\<rparr>"

record linkPressureDetector =
  p_cfg :: LinkPressureConfig
  p_level :: real
  p_rttEma :: real
  p_lastUpdate :: int
  p_high :: bool
  p_onHigh :: nat

definition NewLinkPressureDetector :: "int \<Rightarrow> LinkPressureConfig \<Rightarrow> linkPressureDetector" where
  "NewLinkPressureDetector now cfg =
     \<lparr>p_cfg = cfg, p_level = 0, p_rttEma = 0, p_lastUpdate = now, p_high = False, p_onHigh = 0\<rparr>"

text \<open>\<open>time.Duration.Seconds\<close>.\<close>

definition Seconds :: "int \<Rightarrow> real" where
  "Seconds d = real_of_int d / 1000000000"

definition decay :: "int \<Rightarrow> linkPressureDetector \<Rightarrow> linkPressureDetector" where
  "decay now p =
     (let dt = Seconds (now - p_lastUpdate p);
          l = p_level p - LeakRate (p_cfg p) * dt
      in p\<lparr>p_lastUpdate := now, p_level := (if l < 0 then 0 else l)\<rparr>)"

definition score :: "linkPressureDetector \<Rightarrow> real" where
  "score p =
     (let levelNorm = p_level p / LevelRef (p_cfg p);
          levelNorm = (if levelNorm > 3 then 3 else levelNorm);
          rttNorm = p_rttEma p / real_of_int (RTTRef (p_cfg p));
          rttNorm = (if rttNorm > 3 then 3 else rttNorm)
      in WLevel (p_cfg p) * levelNorm + WRTT (p_cfg p) * rttNorm)"

definition gate :: "real \<Rightarrow> linkPressureDetector \<Rightarrow> linkPressureDetector" where
  "gate s p =
     (if \<not> p_high p \<and> s \<ge> Enter (p_cfg p) then p\<lparr>p_high := True, p_onHigh := Suc (p_onHigh p)\<rparr>
      else if p_high p \<and> s \<le> Exit (p_cfg p) then p\<lparr>p_high := False\<rparr>
      else p)"

definition OnBytes :: "nat \<Rightarrow> int \<Rightarrow> linkPressureDetector \<Rightarrow> linkPressureDetector" where
  "OnBytes n now p =
     (let p = decay now p;
          l = p_level p + real n;
          p = p\<lparr>p_level := (if l > Cap (p_cfg p) then Cap (p_cfg p) else l)\<rparr>
      in gate (score p) p)"

definition IsHigh :: "linkPressureDetector \<Rightarrow> bool" where
  "IsHigh p = p_high p"

definition OnRTT :: "int \<Rightarrow> int \<Rightarrow> linkPressureDetector \<Rightarrow> linkPressureDetector" where
  "OnRTT rtt now p =
     (let p = decay now p;
          p = (if p_rttEma p = 0 then p\<lparr>p_rttEma := real_of_int rtt\<rparr>
               else p\<lparr>p_rttEma := RTTAlpha (p_cfg p) * real_of_int rtt +
                                    (1 - RTTAlpha (p_cfg p)) * p_rttEma p\<rparr>)
      in gate (score p) p)"

subsection \<open>One sample\<close>

lemma gate_frame [simp]:
  "p_cfg (gate s p) = p_cfg p" "p_level (gate s p) = p_level p"
  "p_rttEma (gate s p) = p_rttEma p" "p_lastUpdate (gate s p) = p_lastUpdate p"
  by (simp_all add: gate_def)

lemma decay_frame [simp]:
  "p_cfg (decay now p) = p_cfg p" "p_rttEma (decay now p) = p_rttEma p"
  "p_high (decay now p) = p_high p" "p_onHigh (decay now p) = p_onHigh p"
  "p_lastUpdate (decay now p) = now"
  by (simp_all add: decay_def Let_def)

lemma decay_level:
  "p_level (decay now p) =
     max 0 (p_level p - LeakRate (p_cfg p) * Seconds (now - p_lastUpdate p))"
  by (simp add: decay_def Let_def max_def)

lemma score_gate [simp]: "score (gate s p) = score p"
  by (simp add: score_def)

lemma gate_high:
  "Exit (p_cfg p) < Enter (p_cfg p) \<Longrightarrow>
     p_high (gate s p) \<longleftrightarrow> Enter (p_cfg p) \<le> s \<or> p_high p \<and> Exit (p_cfg p) < s"
  by (auto simp: gate_def)

lemma gate_onHigh:
  "p_onHigh (gate s p) = p_onHigh p + (if \<not> p_high p \<and> p_high (gate s p) then 1 else 0)"
  by (auto simp: gate_def)

lemma OnBytes_frame [simp]:
  "p_cfg (OnBytes n now p) = p_cfg p" "p_rttEma (OnBytes n now p) = p_rttEma p"
  "p_lastUpdate (OnBytes n now p) = now"
  by (simp_all add: OnBytes_def Let_def)

lemma OnRTT_frame [simp]:
  "p_cfg (OnRTT r now p) = p_cfg p" "p_level (OnRTT r now p) = p_level (decay now p)"
  "p_lastUpdate (OnRTT r now p) = now"
  by (simp_all add: OnRTT_def Let_def)

lemma OnBytes_level:
  "p_level (OnBytes n now p) = min (Cap (p_cfg p)) (p_level (decay now p) + real n)"
  by (simp add: OnBytes_def Let_def min_def)

text \<open>After either sample the detector has been through the gate with its new score.\<close>

lemma OnBytes_gate:
  "\<exists>q. OnBytes n now p = gate (score q) q \<and> p_high q = p_high p \<and> p_onHigh q = p_onHigh p \<and>
       p_cfg q = p_cfg p"
  unfolding OnBytes_def Let_def by (rule exI, rule conjI, rule refl) simp

lemma OnRTT_gate:
  "\<exists>q. OnRTT r now p = gate (score q) q \<and> p_high q = p_high p \<and> p_onHigh q = p_onHigh p \<and>
       p_cfg q = p_cfg p"
  unfolding OnRTT_def Let_def by (rule exI, rule conjI, rule refl) simp

subsection \<open>Runs of samples\<close>

datatype sample = Bytes nat | RTT int

fun on_sample :: "sample \<times> int \<Rightarrow> linkPressureDetector \<Rightarrow> linkPressureDetector" where
  "on_sample (Bytes n, now) p = OnBytes n now p"
| "on_sample (RTT r, now) p = OnRTT r now p"

lemma on_sample_gate:
  "\<exists>q. on_sample e p = gate (score q) q \<and> p_high q = p_high p \<and> p_onHigh q = p_onHigh p \<and>
       p_cfg q = p_cfg p"
  by (cases e; cases "fst e") (simp_all add: OnBytes_gate OnRTT_gate)

lemma on_sample_frame [simp]:
  "p_cfg (on_sample e p) = p_cfg p" "p_lastUpdate (on_sample e p) = snd e"
  by (cases e; cases "fst e"; simp)+

text \<open>Samples come with the times of one monotonic clock.\<close>

fun in_order :: "int \<Rightarrow> (sample \<times> int) list \<Rightarrow> bool" where
  "in_order t [] = True"
| "in_order t (e # es) = (t \<le> snd e \<and> in_order (snd e) es)"

lemma decay_mono:
  assumes "0 \<le> LeakRate (p_cfg p)" and "p_lastUpdate p \<le> now" and "0 \<le> p_level p"
  shows "p_level (decay now p) \<le> p_level p" and "0 \<le> p_level (decay now p)"
  using assms by (auto simp: decay_level Seconds_def)

lemma on_sample_level:
  assumes "0 \<le> LeakRate (p_cfg p)" and "0 \<le> Cap (p_cfg p)" and "p_lastUpdate p \<le> snd e"
    and "0 \<le> p_level p" and "p_level p \<le> Cap (p_cfg p)"
  shows "0 \<le> p_level (on_sample e p) \<and> p_level (on_sample e p) \<le> Cap (p_cfg p)"
  using assms decay_mono [OF assms(1,3,4)]
  by (cases e; cases "fst e") (auto simp: OnBytes_level)

lemma samples_level:
  assumes "0 \<le> LeakRate (p_cfg p)" and "0 \<le> Cap (p_cfg p)" and "in_order (p_lastUpdate p) es"
    and "0 \<le> p_level p" and "p_level p \<le> Cap (p_cfg p)"
  shows "0 \<le> p_level (fold on_sample es p) \<and> p_level (fold on_sample es p) \<le> Cap (p_cfg p)"
  using assms
proof (induction es arbitrary: p)
  case (Cons e es)
  then show ?case
    using on_sample_level [of p e] Cons.IH [of "on_sample e p"] by simp
qed simp

subsection \<open>Properties\<close>

text \<open>
  Hysteresis.  After a sample the detector is high exactly when its score has reached
  \<open>Enter\<close>, or when it was high and the score is still above \<open>Exit\<close>; the callback is called
  exactly when the detector goes from low to high.
\<close>

lemma pressure_hysteresis:
  assumes "Exit (p_cfg p) < Enter (p_cfg p)"
  shows "(IsHigh (on_sample e p) \<longleftrightarrow>
            Enter (p_cfg p) \<le> score (on_sample e p) \<or>
            IsHigh p \<and> Exit (p_cfg p) < score (on_sample e p)) \<and>
         p_onHigh (on_sample e p) =
           p_onHigh p + (if \<not> IsHigh p \<and> IsHigh (on_sample e p) then 1 else 0)"
proof -
  obtain q where q: "on_sample e p = gate (score q) q" "p_high q = p_high p"
    "p_onHigh q = p_onHigh p" "p_cfg q = p_cfg p"
    using on_sample_gate by blast
  then show ?thesis
    using gate_high [of q "score q"] gate_onHigh [of "score q" q] assms
    by (simp add: IsHigh_def)
qed

lemma pressure_hysteresis_witness:
  "IsHigh (on_sample (Bytes 400000, 0) (NewLinkPressureDetector 0 DefaultLinkPressureConfig)) \<and>
   p_onHigh (on_sample (Bytes 400000, 0) (NewLinkPressureDetector 0 DefaultLinkPressureConfig)) = 1"
  using pressure_hysteresis [of "NewLinkPressureDetector 0 DefaultLinkPressureConfig" "(Bytes 400000, 0)"]
  by (simp add: NewLinkPressureDetector_def DefaultLinkPressureConfig_def IsHigh_def score_def
      OnBytes_def decay_def Seconds_def gate_def Let_def)

text \<open>
  Whatever is sampled in the order of the clock, the level stays between zero and the cap.
\<close>

lemma pressure_level_bounded:
  assumes "0 \<le> LeakRate cfg" and "0 \<le> Cap cfg" and "in_order t0 es"
  shows "0 \<le> p_level (fold on_sample es (NewLinkPressureDetector t0 cfg)) \<and>
         p_level (fold on_sample es (NewLinkPressureDetector t0 cfg)) \<le> Cap cfg"
  using samples_level [of "NewLinkPressureDetector t0 cfg" es] assms
  by (simp add: NewLinkPressureDetector_def)

lemma pressure_level_bounded_witness:
  "p_level (fold on_sample [(Bytes 9000000, 5), (RTT 7, 6)]
     (NewLinkPressureDetector 0 TorLinkPressureConfig)) \<le> 200 * 1024"
  using pressure_level_bounded [of TorLinkPressureConfig 0 "[(Bytes 9000000, 5), (RTT 7, 6)]"]
  by (simp add: TorLinkPressureConfig_def)

text \<open>
  The promise of the Tor configuration: round-trip times alone, however large, never
  make the detector high.
\<close>

lemma tor_rtt_never_alone:
  assumes "in_order t0 es" and "\<forall>e \<in> set es. \<exists>r. fst e = RTT r"
  shows "\<not> IsHigh (fold on_sample es (NewLinkPressureDetector t0 TorLinkPressureConfig))"
proof -
  define quiet where "quiet p \<longleftrightarrow> p_cfg p = TorLinkPressureConfig \<and> p_level p = 0 \<and> \<not> p_high p"
    for p :: linkPressureDetector
  have "quiet (OnRTT r now p)" if "quiet p" "p_lastUpdate p \<le> now" for p r now
  proof -
    have "p_level (decay now p) = 0"
      using that by (simp add: decay_level quiet_def TorLinkPressureConfig_def Seconds_def)
    moreover obtain q where q: "OnRTT r now p = gate (score q) q" "p_high q = p_high p" "p_cfg q = p_cfg p"
      using OnRTT_gate by blast
    ultimately have "p_level q = 0" by (metis OnRTT_frame(2) gate_frame(2))
    with q that have "score q < 1"
      by (auto simp: score_def quiet_def TorLinkPressureConfig_def Let_def)
    with q that \<open>p_level q = 0\<close> show ?thesis
      by (simp add: quiet_def gate_def TorLinkPressureConfig_def)
  qed
  then have "quiet (fold on_sample es p)"
    if "quiet p" "in_order (p_lastUpdate p) es" "\<forall>e \<in> set es. \<exists>r. fst e = RTT r" for p
    using that
  proof (induction es arbitrary: p)
    case (Cons e es)
    then obtain r where "e = (RTT r, snd e)" by (metis list.set_intros(1) prod.collapse)
    with Cons show ?case
      by (metis (no_types, lifting) OnRTT_frame(3) fold_simps(2) in_order.simps(2) list.set_intros(2)
          on_sample.simps(2))
  qed simp
  then show ?thesis
    using assms by (simp add: quiet_def NewLinkPressureDetector_def IsHigh_def)
qed

lemma tor_rtt_never_alone_witness:
  "\<not> IsHigh (fold on_sample [(RTT 60000000000, 1), (RTT 90000000000, 2)]
       (NewLinkPressureDetector 0 TorLinkPressureConfig))"
  using tor_rtt_never_alone [of 0 "[(RTT 60000000000, 1), (RTT 90000000000, 2)]"] by simp

text \<open>Byte samples of at most \<open>largest\<close> bytes, each within what leaked since the last.\<close>

fun paced :: "real \<Rightarrow> nat \<Rightarrow> int \<Rightarrow> (sample \<times> int) list \<Rightarrow> bool" where
  "paced rate largest t [] = True"
| "paced rate largest t ((Bytes n, now) # es) =
     (n \<le> largest \<and> real n \<le> rate * Seconds (now - t) \<and> paced rate largest now es)"
| "paced rate largest t ((RTT r, now) # es) = (t \<le> now \<and> paced rate largest now es)"

lemma paced_level:
  assumes "0 \<le> LeakRate (p_cfg p)" and "paced (LeakRate (p_cfg p)) largest (p_lastUpdate p) es"
    and "0 \<le> p_level p" and "p_level p \<le> real largest" and "0 \<le> Cap (p_cfg p)"
  shows "p_level (fold on_sample es p) \<le> real largest"
  using assms
proof (induction es arbitrary: p)
  case (Cons e es)
  have "0 \<le> p_level (on_sample e p) \<and> p_level (on_sample e p) \<le> real largest"
    using Cons.prems
    using decay_mono [of p "snd e"]
    by (cases e; cases "fst e") (auto simp: OnBytes_level decay_level)
  then show ?case
    using Cons.prems Cons.IH [of "on_sample e p"] by (cases e; cases "fst e") simp_all
qed simp

text \<open>
  The promise of \<open>LeakRate\<close>: samples that each bring no more bytes than have leaked
  since the one before never raise the level above the largest of them.
\<close>

lemma slow_traffic_no_pressure:
  assumes "0 \<le> LeakRate cfg" and "0 \<le> Cap cfg" and "paced (LeakRate cfg) largest t0 es"
  shows "p_level (fold on_sample es (NewLinkPressureDetector t0 cfg)) \<le> real largest"
  using paced_level [of "NewLinkPressureDetector t0 cfg" largest es] assms
  by (simp add: NewLinkPressureDetector_def)

lemma slow_traffic_no_pressure_witness:
  "p_level (fold on_sample [(Bytes 40000, 1000000000), (RTT 5, 1500000000), (Bytes 51200, 3000000000)]
     (NewLinkPressureDetector 0 DefaultLinkPressureConfig)) \<le> real 51200"
  using slow_traffic_no_pressure [of DefaultLinkPressureConfig 51200 0
      "[(Bytes 40000, 1000000000), (RTT 5, 1500000000), (Bytes 51200, 3000000000)]"]
  by (simp add: DefaultLinkPressureConfig_def Seconds_def)

end
