(* ===== verification/Links.thy ===== *)
theory Links
  imports Flow_Buffers Frames Pressure
begin

section \<open>A link and its keep-alive (\<open>link.go\<close>)\<close>

text \<open>
  A link is the record of the Go struct, with the mux it owns.  Its channel is code of
  another library: what \<open>Send\<close> answers is an arbitrary function \<open>ch_send\<close> of the calls made
  so far, and the log of those calls is kept, so that properties can speak of the frames a
  step sends and of their order.  Times are nanoseconds of one clock.

  \<open>Ping\<close> blocks between its send and its outcome: it is two operations, \<open>Ping_start\<close> up to the
  \<open>select\<close> and \<open>Ping_end\<close> with the case the \<open>select\<close> took.  A ping is compared by pointer in
  the source and has an address here.  The pong channels that were closed are listed, and
  \<open>lk_panicked\<close> records a second close of one.
\<close>

subsection \<open>The channel\<close>

type_synonym 'id sends = "('id frame \<times> nodes_err option) list"

record 'id chan =
  ch_log :: "'id sends"
  ch_send :: "'id sends \<Rightarrow> 'id frame \<Rightarrow> nodes_err option"
  ch_closed :: bool

definition ch_Send :: "'id frame \<Rightarrow> 'id chan \<Rightarrow> nodes_err option \<times> 'id chan" where
  "ch_Send f c =
     (let e = ch_send c (ch_log c) f in (e, c\<lparr>ch_log := ch_log c @ [(f, e)]\<rparr>))"

definition ch_Close :: "'id chan \<Rightarrow> 'id chan" where
  "ch_Close c = c\<lparr>ch_closed := True\<rparr>"

subsection \<open>The records\<close>

record 'id mux =
  localIdentity :: 'id
  remoteIdentity :: 'id
  sessions :: "nonce \<rightharpoonup> nat"
  routerOnce :: bool

record lping =
  ping_addr :: nat
  ping_nonce :: nonce
  ping_sentAt :: int

record 'id link =
  lk_ch :: "'id chan"
  lk_mux :: "'id mux"
  lk_id :: nonce
  lk_createdAt :: int
  lk_err :: "nodes_err option"
  lk_done :: bool
  lk_ping :: "lping option"
  lk_pings :: nat
  lk_pongs :: "nat list"
  lk_checks :: int
  lk_throughput :: "64 word"
  lk_outbound :: bool
  lk_wakeCh :: bool
  lk_pressure :: "linkPressureDetector option"
  lk_panicked :: bool

definition newMux :: "'id \<Rightarrow> 'id \<Rightarrow> 'id mux" where
  "newMux local remote =
     \<lparr>localIdentity = local, remoteIdentity = remote, sessions = Map.empty, routerOnce = False\<rparr>"

definition newLink :: "'id chan \<Rightarrow> 'id \<Rightarrow> 'id \<Rightarrow> nonce \<Rightarrow> bool \<Rightarrow> int \<Rightarrow> 'id link" where
  "newLink ch local remote i outbound now =
     \<lparr>lk_ch = ch, lk_mux = newMux local remote, lk_id = i, lk_createdAt = now, lk_err = None,
      lk_done = False, lk_ping = None, lk_pings = 0, lk_pongs = [], lk_checks = 0,
      lk_throughput = 0, lk_outbound = outbound, lk_wakeCh = False, lk_pressure = None,
      lk_panicked = False\<rparr>"

definition lk_Send :: "'id frame \<Rightarrow> 'id link \<Rightarrow> nodes_err option \<times> 'id link" where
  "lk_Send f l = (let ec = ch_Send f (lk_ch l) in (fst ec, l\<lparr>lk_ch := snd ec\<rparr>))"

subsection \<open>Closing\<close>

text \<open>
  \<open>sig.Value.Swap(old, new)\<close> is code of another library: an argument, of which the source
  relies on the compare-and-swap law.
\<close>

type_synonym err_swap = "nodes_err option \<Rightarrow> nodes_err option \<Rightarrow> nodes_err option \<Rightarrow> nodes_err option"

definition swap_law :: "err_swap \<Rightarrow> bool" where
  "swap_law swap \<longleftrightarrow> (\<forall>old new cur. swap old new cur = (if cur = old then new else cur))"

definition CloseWithError :: "err_swap \<Rightarrow> nodes_err option \<Rightarrow> 'id link \<Rightarrow> 'id link" where
  "CloseWithError swap err l =
     (let err = (if err = None then Some (ErrMsg ''link closed'') else err)
      in l\<lparr>lk_err := swap None err (lk_err l), lk_ch := ch_Close (lk_ch l)\<rparr>)"

definition lk_Close :: "err_swap \<Rightarrow> 'id link \<Rightarrow> 'id link" where
  "lk_Close swap l = CloseWithError swap None l"

text \<open>What the read loop does when a receive or a handler fails with \<open>err\<close>.\<close>

definition readLoop_exit :: "err_swap \<Rightarrow> nodes_err \<Rightarrow> 'id link \<Rightarrow> 'id link" where
  "readLoop_exit swap err l =
     l\<lparr>lk_err := swap None (Some err) (lk_err l), lk_ch := ch_Close (lk_ch l), lk_done := True\<rparr>"

subsection \<open>Pressure\<close>

definition PressureHigh :: "'id link \<Rightarrow> bool" where
  "PressureHigh l = (case lk_pressure l of None \<Rightarrow> False | Some p \<Rightarrow> IsHigh p)"

definition lk_onBytes :: "nat \<Rightarrow> int \<Rightarrow> 'id link \<Rightarrow> 'id link" where
  "lk_onBytes n now l =
     l\<lparr>lk_throughput := lk_throughput l + of_nat n,
       lk_pressure := map_option (OnBytes n now) (lk_pressure l)\<rparr>"

subsection \<open>Ping and pong\<close>

text \<open>The compare-and-clear of \<open>s.ping\<close> under the mutex.\<close>

definition clear_ping :: "lping \<Rightarrow> 'id link \<Rightarrow> 'id link" where
  "clear_ping p l =
     (case lk_ping l of
        None \<Rightarrow> l
      | Some q \<Rightarrow> (if ping_addr q = ping_addr p then l\<lparr>lk_ping := None\<rparr> else l))"

definition Ping_start :: "nonce \<Rightarrow> int \<Rightarrow> 'id link \<Rightarrow> (nodes_err + lping) \<times> 'id link" where
  "Ping_start nonce now l =
     (if lk_ping l \<noteq> None then (Inl (ErrMsg ''ping already in flight''), l)
      else (let p = \<lparr>ping_addr = lk_pings l, ping_nonce = nonce, ping_sentAt = now\<rparr>;
                es = lk_Send (Ping \<lparr>ping_Nonce = nonce, ping_Pong = False\<rparr>)
                       (l\<lparr>lk_ping := Some p, lk_pings := Suc (lk_pings l)\<rparr>)
            in (case fst es of
                  Some err \<Rightarrow> (Inl err, clear_ping p (snd es))
                | None \<Rightarrow> (Inr p, snd es))))"

datatype ping_case = OnPong | OnTimeout | OnDone

text \<open>The result is the error and the duration Go returns, \<open>-1\<close> with an error.\<close>

fun Ping_end :: "ping_case \<Rightarrow> lping \<Rightarrow> int \<Rightarrow> 'id link \<Rightarrow> (nodes_err option \<times> int) \<times> 'id link" where
  "Ping_end OnPong p now l = ((None, now - ping_sentAt p), l)"
| "Ping_end OnTimeout p now l = ((Some (ErrMsg ''ping timeout''), -1), clear_ping p l)"
| "Ping_end OnDone p now l = ((lk_err l, -1), clear_ping p l)"

definition pong :: "nonce \<Rightarrow> int \<Rightarrow> 'id link \<Rightarrow> (nodes_err + int) \<times> 'id link" where
  "pong nonce now l =
     (case lk_ping l of
        None \<Rightarrow> (Inl (ErrMsg ''invalid pong nonce''), l)
      | Some p \<Rightarrow>
          (if ping_nonce p \<noteq> nonce then (Inl (ErrMsg ''invalid pong nonce''), l)
           else (let d = now - ping_sentAt p
                 in (Inr d, l\<lparr>lk_ping := None, lk_pongs := ping_addr p # lk_pongs l,
                              lk_panicked := lk_panicked l \<or> ping_addr p \<in> set (lk_pongs l),
                              lk_pressure := map_option (OnRTT d now) (lk_pressure l)\<rparr>))))"

definition Wake :: "'id link \<Rightarrow> 'id link" where
  "Wake l = l\<lparr>lk_wakeCh := True\<rparr>"

text \<open>
  The ping loop.  It sleeps until the active interval has passed while checks are left, and
  until it is woken otherwise; then one turn runs, and answers whether the loop goes on.
\<close>

datatype loop_event = Tick | Woken

definition pingLoop_waits :: "'id link \<Rightarrow> loop_event" where
  "pingLoop_waits l = (if lk_checks l > 0 then Tick else Woken)"

definition pingLoop_awake :: "loop_event \<Rightarrow> 'id link \<Rightarrow> 'id link" where
  "pingLoop_awake e l = (case e of Tick \<Rightarrow> l | Woken \<Rightarrow> l\<lparr>lk_wakeCh := False\<rparr>)"

text \<open>The turn, with the error of its \<open>Ping\<close>, if it came to that.\<close>

definition pingLoop_turn :: "err_swap \<Rightarrow> nodes_err option \<Rightarrow> 'id link \<Rightarrow> bool \<times> 'id link" where
  "pingLoop_turn swap err l =
     (if lk_err l \<noteq> None then (False, l)
      else (case err of
              Some e \<Rightarrow> (False, CloseWithError swap (Some e) l)
            | None \<Rightarrow> (True, if lk_checks l > 0 then l\<lparr>lk_checks := lk_checks l - 1\<rparr> else l)))"

lemmas link_defs [mux_defs] =
  ch_Send_def ch_Close_def lk_Send_def CloseWithError_def lk_Close_def readLoop_exit_def
  lk_onBytes_def clear_ping_def Wake_def Let_def

subsection \<open>Concurrent pings\<close>

text \<open>
  The link with the callers that are between the two halves of \<open>Ping\<close>.  Any caller may start,
  any waiting caller may leave through a case its \<open>select\<close> has ready, the peer may answer with
  any nonce at any time, and the link may move bytes or die.
\<close>

type_synonym 'id pinging = "'id link \<times> lping list"

definition start_ping :: "nonce \<Rightarrow> int \<Rightarrow> 'id pinging \<Rightarrow> 'id pinging" where
  "start_ping nonce now s =
     (let r = Ping_start nonce now (fst s)
      in (snd r, (case fst r of Inl _ \<Rightarrow> snd s | Inr p \<Rightarrow> p # snd s)))"

fun ping_ready :: "ping_case \<Rightarrow> lping \<Rightarrow> 'id link \<Rightarrow> bool" where
  "ping_ready OnPong p l = (ping_addr p \<in> set (lk_pongs l))"
| "ping_ready OnTimeout p l = True"
| "ping_ready OnDone p l = lk_done l"

inductive ping_step :: "err_swap \<Rightarrow> 'id pinging \<Rightarrow> 'id pinging \<Rightarrow> bool" for swap where
  ps_start: "ping_step swap s (start_ping nonce now s)"
| ps_end: "p \<in> set ps \<Longrightarrow> ping_ready c p l \<Longrightarrow>
     ping_step swap (l, ps) (snd (Ping_end c p now l), remove1 p ps)"
| ps_pong: "ping_step swap (l, ps) (snd (pong nonce now l), ps)"
| ps_bytes: "ping_step swap (l, ps) (lk_onBytes n now l, ps)"
| ps_exit: "ping_step swap (l, ps) (readLoop_exit swap e l, ps)"
| ps_close: "ping_step swap (l, ps) (CloseWithError swap e l, ps)"

definition ping_init :: "'id pinging \<Rightarrow> bool" where
  "ping_init s \<longleftrightarrow> (\<exists>ch local remote i out now. s = (newLink ch local remote i out now, []))"

text \<open>
  The invariant: addresses are fresh, no answered ping is outstanding, every waiting caller
  is the outstanding ping or has been answered, and the outstanding ping has a caller.
\<close>

definition ping_inv :: "'id pinging \<Rightarrow> bool" where
  "ping_inv s \<longleftrightarrow>
     (let l = fst s; ps = snd s in
      \<not> lk_panicked l \<and> distinct (map ping_addr ps) \<and>
      (\<forall>a \<in> set (lk_pongs l). a < lk_pings l) \<and>
      (\<forall>p \<in> set ps. ping_addr p < lk_pings l \<and>
         (lk_ping l = Some p \<or> ping_addr p \<in> set (lk_pongs l))) \<and>
      (\<forall>p. lk_ping l = Some p \<longrightarrow> p \<in> set ps \<and> ping_addr p \<notin> set (lk_pongs l)))"

lemma lk_Send_frame [simp]:
  "lk_ping (snd (lk_Send f l)) = lk_ping l" "lk_pings (snd (lk_Send f l)) = lk_pings l"
  "lk_pongs (snd (lk_Send f l)) = lk_pongs l" "lk_panicked (snd (lk_Send f l)) = lk_panicked l"
  by (simp_all add: lk_Send_def Let_def)

lemma clear_ping_frame [simp]:
  "lk_pings (clear_ping p l) = lk_pings l" "lk_pongs (clear_ping p l) = lk_pongs l"
  "lk_panicked (clear_ping p l) = lk_panicked l"
  by (simp_all add: clear_ping_def split: option.split)

lemma clear_ping_Some:
  "lk_ping (clear_ping p l) = Some q \<longleftrightarrow> lk_ping l = Some q \<and> ping_addr q \<noteq> ping_addr p"
  by (auto simp: clear_ping_def split: option.split)

lemma ping_inv_start: "ping_inv s \<Longrightarrow> ping_inv (start_ping nonce now s)"
  by (auto simp: ping_inv_def start_ping_def Ping_start_def Let_def clear_ping_Some less_Suc_eq
      split: option.split)

lemma ping_inv_clear:
  assumes "ping_inv (l, ps)" and "p \<in> set ps"
  shows "ping_inv (clear_ping p l, remove1 p ps)"
proof -
  have eq: "q = p" if "q \<in> set ps" "ping_addr q = ping_addr p" for q
    using assms that by (auto simp: ping_inv_def distinct_map inj_on_def)
  have d: "distinct ps" using assms by (auto simp: ping_inv_def distinct_map)
  show ?thesis
    using assms eq d
    by (auto simp: ping_inv_def Let_def clear_ping_Some distinct_map inj_on_def)
qed

lemma ping_inv_pong: "ping_inv (l, ps) \<Longrightarrow> ping_inv (snd (pong nonce now l), ps)"
  by (auto simp: ping_inv_def pong_def Let_def split: option.split)

lemma ping_inv_answered:
  "ping_inv (l, ps) \<Longrightarrow> p \<in> set ps \<Longrightarrow> ping_addr p \<in> set (lk_pongs l) \<Longrightarrow> ping_inv (l, remove1 p ps)"
  by (auto simp: ping_inv_def Let_def distinct_map inj_on_def in_set_remove1)

lemma ping_inv_other [simp]:
  "ping_inv (lk_onBytes n now l, ps) = ping_inv (l, ps)"
  "ping_inv (readLoop_exit swap e l, ps) = ping_inv (l, ps)"
  "ping_inv (CloseWithError swap err l, ps) = ping_inv (l, ps)"
  by (simp_all add: ping_inv_def lk_onBytes_def readLoop_exit_def CloseWithError_def Let_def)

interpretation pings: safety ping_init "ping_step swap" ping_inv
proof
  show "ping_inv s" if "ping_init s" for s :: "'a pinging"
    using that by (auto simp: ping_init_def ping_inv_def newLink_def)
  show "ping_inv t" if "ping_inv s" "ping_step swap s t" for s t :: "'a pinging"
    using that(2,1)
  proof cases
    case (ps_end p ps c l now)
    then show ?thesis
      using that(1) by (cases c) (auto intro: ping_inv_clear ping_inv_answered)
  qed (auto intro: ping_inv_start ping_inv_pong)
qed

subsection \<open>Properties\<close>

text \<open>
  C33.  At most one ping of a link is in flight and its slot is never lost.  However callers,
  the peer and the link interleave: no pong channel is closed twice, of the waiting callers
  at most the one whose ping is outstanding is unanswered, and with no caller waiting the
  next \<open>Ping\<close> is not refused as ``already in flight''.
\<close>

theorem ping_single_flight:
  assumes "reach ping_init (ping_step swap) (l, ps)"
  shows "\<not> lk_panicked l \<and>
         (\<forall>p \<in> set ps. lk_ping l = Some p \<or> ping_addr p \<in> set (lk_pongs l)) \<and>
         (ps = [] \<longrightarrow> lk_ping l = None)"
  using pings.reach_inv [OF assms] by (auto simp: ping_inv_def Let_def)

definition ping_link :: "nat link" where
  "ping_link = newLink \<lparr>ch_log = [], ch_send = (\<lambda>_ _. None), ch_closed = False\<rparr> 1 2 77 True 0"

theorem ping_single_flight_witness:
  "\<not> lk_panicked (fst (start_ping 5 10 (ping_link, []))) \<and>
   lk_ping (fst (start_ping 5 10 (ping_link, []))) \<noteq> None"
proof -
  let ?s = "start_ping 5 10 (ping_link, [])"
  have "reach ping_init (ping_step (\<lambda>_ _ c. c)) (fst ?s, snd ?s)"
  proof (rule reach_step)
    show "reach ping_init (ping_step (\<lambda>_ _ c. c)) (ping_link, [])"
      unfolding ping_link_def ping_init_def by (rule reach_init) blast
    show "ping_step (\<lambda>_ _ c. c) (ping_link, []) (fst ?s, snd ?s)"
      using ps_start by simp
  qed
  from ping_single_flight [OF this] show ?thesis
    by (auto simp: start_ping_def Ping_start_def lk_Send_def ch_Send_def ping_link_def newLink_def Let_def)
qed

text \<open>
  A pong counts once and only for the ping in flight: an accepted nonce is that of the
  outstanding ping, the duration it gives is the time since that ping was stamped, and the
  same or any other nonce is refused until the next ping.
\<close>

lemma pong_accepted_once:
  assumes "pong nonce now l = (Inr d, l')"
  shows "(\<exists>p. lk_ping l = Some p \<and> ping_nonce p = nonce \<and> d = now - ping_sentAt p) \<and>
         pong nonce' now' l' = (Inl (ErrMsg ''invalid pong nonce''), l')"
  using assms by (auto simp: pong_def Let_def split: option.splits if_splits)

lemma pong_accepted_once_witness:
  "pong 5 40 (snd (pong 5 30 (snd (Ping_start 5 10 ping_link)))) =
     (Inl (ErrMsg ''invalid pong nonce''), snd (pong 5 30 (snd (Ping_start 5 10 ping_link))))"
proof -
  have "pong 5 30 (snd (Ping_start 5 10 ping_link)) =
    (Inr 20, snd (pong 5 30 (snd (Ping_start 5 10 ping_link))))"
    by (simp add: pong_def Ping_start_def lk_Send_def ch_Send_def ping_link_def newLink_def Let_def)
  from pong_accepted_once [OF this] show ?thesis by blast
qed

end
