(* ===== verification/Flow_Control.thy ===== *)
theory Flow_Control
  imports Flow_Buffers Frames
begin

section \<open>Credit-based flow control between two sessions\<close>

text \<open>
  The write callback of a session cuts its bytes into data frames
  (\<open>sessionOnWriteFunc\<close> in \<open>mux_sessions.go\<close>), and the read callback answers every read
  with a read frame that grants the sender the same number of bytes
  (\<open>sessionOnReadFunc\<close>).  Here the two ends of one session and the link between them are
  put together as a step relation, over the operations of the buffers: the link keeps the
  order of the frames in each direction, and either end may move at any time.
\<close>

definition maxPayloadSize :: nat where "maxPayloadSize = 8192"

definition defaultBufferSize :: nat where "defaultBufferSize = 4 * 1024 * 1024"

subsection \<open>Cutting a write into data frames\<close>

function sessionOnWrite ::
  "(bytes \<Rightarrow> 's \<Rightarrow> nodes_err option \<times> 's) \<Rightarrow> (nat \<Rightarrow> 's \<Rightarrow> 's) \<Rightarrow> bytes \<Rightarrow> 's \<Rightarrow> nodes_err option \<times> 's" where
  "sessionOnWrite send onBytes remaining s =
     (if remaining = [] then (None, s)
      else (let chunkSize = (if length remaining < maxPayloadSize then length remaining
                             else maxPayloadSize);
                es = send (take chunkSize remaining) s
            in (case fst es of
                  Some err \<Rightarrow> (Some err, snd es)
                | None \<Rightarrow> sessionOnWrite send onBytes (drop chunkSize remaining)
                            (onBytes chunkSize (snd es)))))"
  by pat_completeness auto
termination
  by (relation "measure (\<lambda>(send, onBytes, remaining, s). length remaining)")
    (auto simp: maxPayloadSize_def)

declare sessionOnWrite.simps [simp del]

text \<open>The payloads of the frames, as a function of the bytes alone.\<close>

function chunks :: "bytes \<Rightarrow> bytes list" where
  "chunks p = (if p = [] then [] else take maxPayloadSize p # chunks (drop maxPayloadSize p))"
  by pat_completeness auto
termination
  by (relation "measure length") (auto simp: maxPayloadSize_def)

declare chunks.simps [simp del]

lemma chunks_Nil [simp]: "chunks [] = []"
  by (simp add: chunks.simps)

lemma chunks_short: "p \<noteq> [] \<Longrightarrow> length p \<le> maxPayloadSize \<Longrightarrow> chunks p = [p]"
  by (simp add: chunks.simps [of p])

lemma concat_chunks [simp]: "concat (chunks p) = p"
proof (induction p rule: chunks.induct)
  case (1 p)
  then show ?case by (cases "p = []") (auto simp: chunks.simps [of p])
qed

lemma chunks_sizes: "c \<in> set (chunks p) \<Longrightarrow> c \<noteq> [] \<and> length c \<le> maxPayloadSize"
proof (induction p rule: chunks.induct)
  case (1 p)
  then show ?case
    by (cases "p = []") (auto simp: chunks.simps [of p] maxPayloadSize_def)
qed

text \<open>A channel that takes every frame gets exactly the chunks, in order.\<close>

lemma sessionOnWrite_chunks:
  "sessionOnWrite (\<lambda>c t. (None, put c t)) (\<lambda>_ t. t) p s = (None, fold put (chunks p) s)"
proof (induction p arbitrary: s rule: chunks.induct)
  case (1 p)
  note unfold = sessionOnWrite.simps [of "\<lambda>c t. (None, put c t)" _ p]
  consider "p = []" | "p \<noteq> []" "length p < maxPayloadSize" | "p \<noteq> []" "\<not> length p < maxPayloadSize"
    by blast
  then show ?case
  proof cases
    case 2
    then show ?thesis
      by (simp add: unfold chunks_short sessionOnWrite.simps [of _ _ "[]"])
  next
    case 3
    then show ?thesis
      using "1.IH" by (simp add: unfold chunks.simps [of p])
  qed (simp add: sessionOnWrite.simps [of _ _ "[]"])
qed

lemma fold_snoc: "fold (\<lambda>c t. t @ [f c]) cs s = s @ map f cs"
  by (induction cs arbitrary: s) auto

subsection \<open>The two ends and the link\<close>

record flow =
  snd_ob :: "unit obuf"
  data_link :: "bytes list"
  rcv_ib :: "unit ibuf"
  credit_link :: "32 word list"
  sent :: bytes
  got :: bytes
  overflowed :: bool

definition put_data :: "unit \<Rightarrow> bytes \<Rightarrow> bytes list \<Rightarrow> nodes_err option \<times> bytes list" where
  "put_data _ p s = sessionOnWrite (\<lambda>c t. (None, t @ [c])) (\<lambda>_ t. t) p s"

definition put_credit :: "unit \<Rightarrow> nat \<Rightarrow> 32 word list \<Rightarrow> 32 word list" where
  "put_credit _ n s = s @ [of_nat n]"

definition flow_write :: "bytes \<Rightarrow> flow \<Rightarrow> flow" where
  "flow_write p f =
     (let r = ob_Write put_data p (snd_ob f) (data_link f)
      in f\<lparr>snd_ob := fst (snd r), data_link := snd (snd r),
           sent := sent f @ (case fst r of OB_Wrote n _ \<Rightarrow> take n p | _ \<Rightarrow> [])\<rparr>)"

definition flow_deliver :: "flow \<Rightarrow> flow" where
  "flow_deliver f =
     (case data_link f of
        [] \<Rightarrow> f
      | d # ds \<Rightarrow>
          (let r = ib_Push d (rcv_ib f)
           in f\<lparr>data_link := ds, rcv_ib := snd r, overflowed := overflowed f \<or> fst r \<noteq> None\<rparr>))"

definition flow_read :: "nat \<Rightarrow> flow \<Rightarrow> flow" where
  "flow_read k f =
     (let r = ib_Read put_credit k (rcv_ib f) (credit_link f)
      in f\<lparr>rcv_ib := fst (snd r), credit_link := snd (snd r),
           got := got f @ ib_result_bytes (fst r)\<rparr>)"

definition flow_credit :: "flow \<Rightarrow> flow" where
  "flow_credit f =
     (case credit_link f of
        [] \<Rightarrow> f
      | c # cs \<Rightarrow> f\<lparr>credit_link := cs, snd_ob := ob_Grow (unat c) (snd_ob f)\<rparr>)"

inductive flow_step :: "flow \<Rightarrow> flow \<Rightarrow> bool" where
  fs_write: "flow_step f (flow_write p f)"
| fs_deliver: "flow_step f (flow_deliver f)"
| fs_read: "flow_step f (flow_read k f)"
| fs_credit: "flow_step f (flow_credit f)"

text \<open>
  The start: the sender has grown to the buffer size the peer announced in its query or
  response frame, and the receiver has an empty buffer of that size.
\<close>

definition flow_start :: flow where
  "flow_start =
     \<lparr>snd_ob = ob_Grow (unat (of_nat defaultBufferSize :: 32 word)) (NewOutputBuffer ()),
      data_link = [], rcv_ib = NewInputBuffer (int defaultBufferSize) (Some ()), credit_link = [],
      sent = [], got = [], overflowed = False\<rparr>"

definition flow_init :: "flow \<Rightarrow> bool" where
  "flow_init f \<longleftrightarrow> f = flow_start"

text \<open>
  The invariant: every byte of the receiver's buffer size is accounted for exactly once, as
  credit of the sender, as data on the way, as data in the buffer or as credit on the way
  back.
\<close>

definition credits :: "flow \<Rightarrow> nat" where
  "credits f = sum_list (map unat (credit_link f))"

definition flow_inv :: "flow \<Rightarrow> bool" where
  "flow_inv f \<longleftrightarrow>
     \<not> overflowed f \<and> ib_inv (rcv_ib f) \<and> ob_inv (snd_ob f) \<and>
     ib_size (rcv_ib f) = int defaultBufferSize \<and> \<not> ib_closed (rcv_ib f) \<and>
     ib_onRead (rcv_ib f) = Some () \<and>
     ob_wsize (snd_ob f) + length (concat (data_link f)) + length (content (rcv_ib f)) + credits f
       = defaultBufferSize \<and>
     [] \<notin> set (data_link f) \<and> [] \<notin> set (ib_buf (rcv_ib f)) \<and>
     sent f = got f @ content (rcv_ib f) @ concat (data_link f)"

lemma flow_inv_start: "flow_inv flow_start"
  by (simp add: flow_inv_def flow_start_def defaultBufferSize_def credits_def ib_inv_New
      ob_inv_New ob_inv_Grow)
    (simp add: NewInputBuffer_def NewOutputBuffer_def content_def)

lemma put_data_chunks: "put_data u q s = (None, s @ chunks q)"
  by (simp add: put_data_def sessionOnWrite_chunks [where put = "\<lambda>c t. t @ [c]", simplified]
      fold_snoc [where f = "\<lambda>c. c", simplified])

lemma flow_write_eq:
  "flow_write p f =
     (let n = min (ob_wsize (snd_ob f)) (length p)
      in if ob_stuck (snd_ob f) \<or> ob_closed (snd_ob f)
         then f\<lparr>snd_ob := ob_after_Write p (snd_ob f)\<rparr>
         else f\<lparr>snd_ob := (snd_ob f)\<lparr>ob_wsize := ob_wsize (snd_ob f) - n\<rparr>,
                data_link := data_link f @ chunks (take n p), sent := sent f @ take n p\<rparr>)"
  by (auto simp: flow_write_def ob_Write_def ob_after_Write_def Let_def put_data_chunks ob_stuck_def)

lemma ob_after_Write_stuck:
  "ob_stuck b \<or> ob_closed b \<Longrightarrow> ob_wsize (ob_after_Write p b) = ob_wsize b"
  by (auto simp: ob_after_Write_def ob_Write_def Let_def ob_stuck_def)

lemma chunks_nonempty [simp]: "[] \<notin> set (chunks p)"
  using chunks_sizes by blast

lemma flow_inv_write:
  assumes "flow_inv f"
  shows "flow_inv (flow_write p f)"
proof (cases "ob_stuck (snd_ob f) \<or> ob_closed (snd_ob f)")
  case True
  then show ?thesis
    using assms ob_inv_Write [of "snd_ob f", where run = "\<lambda>_ _ s. (None, s)" and s = "()"]
    by (simp add: flow_write_eq flow_inv_def credits_def ob_after_Write_stuck
        ob_after_Write_def [symmetric])
next
  case False
  let ?n = "min (ob_wsize (snd_ob f)) (length p)"
  have "ob_inv ((snd_ob f)\<lparr>ob_wsize := ob_wsize (snd_ob f) - ?n\<rparr>)"
    using assms False by (auto simp: flow_inv_def ob_inv_def ob_stuck_def)
  then show ?thesis
    using assms False by (simp add: flow_write_eq Let_def flow_inv_def credits_def)
qed

lemma flow_inv_deliver:
  assumes "flow_inv f"
  shows "flow_inv (flow_deliver f)"
proof (cases "data_link f")
  case Nil
  then show ?thesis using assms by (simp add: flow_deliver_def)
next
  case (Cons d ds)
  have fits: "ib_used (rcv_ib f) + int (length d) \<le> ib_size (rcv_ib f)"
    using assms Cons by (simp add: flow_inv_def ib_inv_def)
  have op: "\<not> ib_closed (rcv_ib f)" using assms by (simp add: flow_inv_def)
  show ?thesis
    using assms Cons ib_Push_accepts [OF op fits] ib_inv_Push [of "rcv_ib f" d]
      ib_Push_nonempty [of "rcv_ib f" d]
    by (auto simp: flow_deliver_def flow_inv_def credits_def Let_def)
qed

lemma flow_inv_read:
  assumes "flow_inv f"
  shows "flow_inv (flow_read k f)"
proof -
  let ?r = "ib_Read put_credit k (rcv_ib f) (credit_link f)"
  let ?p = "ib_result_bytes (fst ?r)"
  have c: "content (rcv_ib f) = ?p @ content (fst (snd ?r))"
    by (rule ib_Read_content)
  then have "length ?p \<le> defaultBufferSize"
    using assms by (simp add: flow_inv_def)
  then have "unat (of_nat (length ?p) :: 32 word) = length ?p"
    by (simp add: unat_of_nat defaultBufferSize_def)
  moreover have "snd (snd ?r) = credit_link f @ [of_nat (length ?p)] \<or>
      ?p = [] \<and> snd (snd ?r) = credit_link f"
    using assms
    by (cases "ib_buf (rcv_ib f)") (auto simp: flow_inv_def ib_Read_def Let_def put_credit_def)
  ultimately have "sum_list (map unat (snd (snd ?r))) = credits f + length ?p"
    by (auto simp: credits_def)
  then show ?thesis
    using assms c ib_inv_Read [of "rcv_ib f" put_credit k "credit_link f"]
      ib_Read_nonempty [of "rcv_ib f" put_credit k "credit_link f"]
    by (simp add: flow_read_def flow_inv_def credits_def Let_def ib_Read_frame)
qed

lemma flow_inv_credit: "flow_inv f \<Longrightarrow> flow_inv (flow_credit f)"
  by (cases "credit_link f") (auto simp: flow_credit_def flow_inv_def credits_def ob_inv_Grow)

interpretation flow: safety flow_init flow_step flow_inv
proof
  show "flow_inv f" if "flow_init f" for f
    using that flow_inv_start by (simp add: flow_init_def)
  show "flow_inv g" if "flow_inv f" "flow_step f g" for f g
    using that(2,1)
    by (cases rule: flow_step.cases)
      (auto intro: flow_inv_write flow_inv_deliver flow_inv_read flow_inv_credit)
qed

subsection \<open>Properties\<close>

text \<open>The run of the witnesses: one write of three bytes, delivered.\<close>

definition flow_run :: flow where
  "flow_run = flow_write [1, 2, 3] flow_start"

lemma flow_start_write_reach: "reach flow_init flow_step (flow_write p flow_start)"
proof (rule reach_step)
  show "reach flow_init flow_step flow_start"
    by (rule reach_init) (simp add: flow_init_def)
  show "flow_step flow_start (flow_write p flow_start)"
    by (rule fs_write)
qed

lemma flow_run_reach: "reach flow_init flow_step flow_run"
  unfolding flow_run_def by (rule flow_start_write_reach)

lemma flow_run_data: "data_link flow_run = [[1, 2, 3]]"
proof -
  have "chunks [1, 2, 3] = [[1, 2, 3]]"
    by (rule chunks_short) (simp_all add: maxPayloadSize_def)
  then show ?thesis
    by (simp add: flow_run_def flow_write_eq flow_start_def Let_def ob_stuck_def
        NewOutputBuffer_def defaultBufferSize_def min_def)
qed

text \<open>
  C1.  The receiver's buffer never overflows: in every reachable state of the two ends and
  the link between them, the next data frame on the link fits, so \<open>Push\<close> takes it, and none
  was refused before.
\<close>

theorem flow_no_overflow:
  assumes "reach flow_init flow_step f" and "data_link f = d # ds"
  shows "fst (ib_Push d (rcv_ib f)) = None \<and> \<not> overflowed f"
proof -
  have "flow_inv (flow_deliver f)" and "flow_inv f"
    using flow.reach_inv [OF assms(1)] flow_inv_deliver by auto
  then show ?thesis using assms(2) by (simp add: flow_inv_def flow_deliver_def Let_def)
qed

theorem flow_no_overflow_witness:
  "fst (ib_Push [1, 2, 3] (rcv_ib flow_run)) = None \<and> \<not> overflowed flow_run"
  by (rule flow_no_overflow [OF flow_run_reach flow_run_data])

text \<open>
  C2.  The bytes arrive complete, in order and once: what the receiver has read, followed by
  what its buffer holds and what is on the link, is what the sender wrote.
\<close>

theorem flow_in_order:
  assumes "reach flow_init flow_step f"
  shows "sent f = got f @ content (rcv_ib f) @ concat (data_link f)"
  using flow.reach_inv [OF assms] by (simp add: flow_inv_def)

theorem flow_in_order_witness:
  "sent flow_run = got flow_run @ content (rcv_ib flow_run) @ [1, 2, 3]"
  using flow_in_order [OF flow_run_reach] by (simp add: flow_run_data)


text \<open>The witness fills the window in one write and delivers all of it.\<close>

definition flow_full :: flow where
  "flow_full = (flow_deliver ^^ 512) (flow_write (replicate defaultBufferSize 0) flow_start)"

lemma flow_deliver_reach:
  "reach flow_init flow_step f \<Longrightarrow> reach flow_init flow_step ((flow_deliver ^^ n) f)"
  by (induction n) (auto intro: reach_step flow_step.fs_deliver)

lemma flow_deliver_frame [simp]:
  "snd_ob (flow_deliver f) = snd_ob f" "credit_link (flow_deliver f) = credit_link f"
  "data_link (flow_deliver f) = tl (data_link f)"
  by (cases "data_link f"; simp add: flow_deliver_def Let_def)+

lemma flow_deliver_data:
  "snd_ob ((flow_deliver ^^ n) f) = snd_ob f \<and> credit_link ((flow_deliver ^^ n) f) = credit_link f \<and>
   data_link ((flow_deliver ^^ n) f) = drop n (data_link f)"
  by (induction n) (auto simp: drop_Suc tl_drop)

lemma length_chunks: "length p \<le> n * maxPayloadSize \<Longrightarrow> length (chunks p) \<le> n"
proof (induction p arbitrary: n rule: chunks.induct)
  case (1 p)
  then show ?case
    by (cases n; cases "p = []") (auto simp: chunks.simps [of p])
qed

lemma flow_full_state:
  "reach flow_init flow_step flow_full" "ob_wsize (snd_ob flow_full) = 0" "data_link flow_full = []"
  "credit_link flow_full = []"
proof -
  let ?p = "replicate defaultBufferSize 0 :: bytes"
  let ?f = "flow_write ?p flow_start"
  have "unat (of_nat defaultBufferSize :: 32 word) = defaultBufferSize"
    by (simp add: defaultBufferSize_def)
  then have f: "ob_wsize (snd_ob ?f) = 0" "data_link ?f = chunks ?p" "credit_link ?f = []"
    by (simp_all add: flow_write_eq flow_start_def Let_def ob_stuck_def NewOutputBuffer_def)
      (simp_all add: defaultBufferSize_def)
  have "length (chunks ?p) \<le> 512"
    by (rule length_chunks) (simp add: defaultBufferSize_def maxPayloadSize_def)
  with f show "ob_wsize (snd_ob flow_full) = 0" "data_link flow_full = []" "credit_link flow_full = []"
    by (simp_all add: flow_full_def flow_deliver_data)
  show "reach flow_init flow_step flow_full"
    unfolding flow_full_def by (rule flow_deliver_reach [OF flow_start_write_reach])
qed


text \<open>
  A write becomes data frames that the link can carry: none is empty or longer than
  8192 bytes, each fits the 16-bit length of a data frame, and their payloads in order are
  the bytes of the write.
\<close>

lemma session_write_frames:
  "\<exists>fs. sessionOnWrite (\<lambda>c t. (None, t @ [Data \<lparr>data_Nonce = nonce, data_Payload = c\<rparr>])) (\<lambda>_ t. t) p
          (out :: 'id frame list) = (None, out @ map Data fs) \<and>
        concat (map data_Payload fs) = p \<and>
        list_all (\<lambda>f. data_Nonce f = nonce \<and> data_Payload f \<noteq> [] \<and>
                       length (data_Payload f) \<le> 8192 \<and> sendable (Data f :: 'id frame)) fs"
proof -
  let ?mk = "\<lambda>c. \<lparr>data_Nonce = nonce, data_Payload = c\<rparr>"
  let ?fs = "map ?mk (chunks p)"
  have "sessionOnWrite (\<lambda>c t. (None, t @ [Data (?mk c)])) (\<lambda>_ t. t) p out =
      (None, fold (\<lambda>c t. t @ [Data (?mk c)]) (chunks p) out)"
    by (rule sessionOnWrite_chunks)
  also have "\<dots> = (None, out @ map Data ?fs)"
    by (simp add: fold_snoc [where f = "\<lambda>c. Data (?mk c)"])
  finally have "sessionOnWrite (\<lambda>c t. (None, t @ [Data (?mk c)])) (\<lambda>_ t. t) p out =
      (None, out @ map Data ?fs)" .
  moreover have "concat (map data_Payload ?fs) = p" by (simp add: comp_def)
  moreover have "list_all (\<lambda>f. data_Nonce f = nonce \<and> data_Payload f \<noteq> [] \<and>
      length (data_Payload f) \<le> 8192 \<and> sendable (Data f :: 'id frame)) ?fs"
    using chunks_sizes [of _ p] by (fastforce simp: list_all_iff maxPayloadSize_def)
  ultimately show ?thesis by blast
qed

end
