(* ===== verification/Sessions.thy ===== *)
theory Sessions
  imports Links Flow_Control
begin

section \<open>Sessions and the store of a node (\<open>session.go\<close>, \<open>mux_sessions.go\<close>, the session reader and writer)\<close>

text \<open>
  Sessions, links and buffers are shared by pointer: a migration moves a session from one mux
  to another and keeps hold of its old input buffer.  The state of a node is therefore a store:
  links, sessions, input and output buffers by address.  The reader and the writer of a
  session are its own and are part of its record.

  The closures the mux hands out name a link and a nonce; a closure is that pair, and
  \<open>run_onRead\<close>, \<open>run_onWrite\<close>, \<open>run_reset\<close> and \<open>run_onClose\<close> are the bodies.

  Every method holds its mutex from its first to its last access, so a call is one step; a
  method that waits ends its step with the reason it waits for.  \<open>Identity.IsEqual\<close> is
  equality: identities are taken up to it.
\<close>

subsection \<open>The records\<close>

type_synonym closure = "nat \<times> nonce"

datatype session_state = stateRouting | stateOpen | stateMigrating | stateClosed

record muxSessionReader =
  r_paused :: bool
  r_buf :: nat
  r_nextBuffer :: "nat option"

record muxSessionWriter =
  w_closed :: bool
  w_paused :: bool
  w_buf :: nat
  w_reset :: "closure option"

record 'id session =
  s_Nonce :: nonce
  s_RemoteIdentity :: "'id option"
  s_SourceIdentity :: "'id option"
  s_Outbound :: bool
  s_Query :: bytes
  s_createdAt :: int
  s_routingResult :: "8 word list"
  s_paused :: bool
  s_closed :: bool
  s_state :: session_state
  s_bytes :: "64 word"
  s_onClose :: "closure option"
  s_reader :: "muxSessionReader option"
  s_writer :: "muxSessionWriter option"

record 'id node =
  n_links :: "nat \<Rightarrow> 'id link"
  n_pool :: "nat list"
  n_sess :: "nat \<Rightarrow> 'id session"
  n_sessNext :: nat
  n_ib :: "nat \<Rightarrow> closure ibuf"
  n_ibNext :: nat
  n_ob :: "nat \<Rightarrow> closure obuf"
  n_obNext :: nat
  n_now :: int

subsection \<open>Access to the store\<close>

definition upd_link :: "nat \<Rightarrow> ('id link \<Rightarrow> 'id link) \<Rightarrow> 'id node \<Rightarrow> 'id node" where
  "upd_link l f n = n\<lparr>n_links := (n_links n)(l := f (n_links n l))\<rparr>"

definition upd_sess :: "nat \<Rightarrow> ('id session \<Rightarrow> 'id session) \<Rightarrow> 'id node \<Rightarrow> 'id node" where
  "upd_sess s f n = n\<lparr>n_sess := (n_sess n)(s := f (n_sess n s))\<rparr>"

definition upd_ib :: "nat \<Rightarrow> (closure ibuf \<Rightarrow> closure ibuf) \<Rightarrow> 'id node \<Rightarrow> 'id node" where
  "upd_ib a f n = n\<lparr>n_ib := (n_ib n)(a := f (n_ib n a))\<rparr>"

definition upd_ob :: "nat \<Rightarrow> (closure obuf \<Rightarrow> closure obuf) \<Rightarrow> 'id node \<Rightarrow> 'id node" where
  "upd_ob a f n = n\<lparr>n_ob := (n_ob n)(a := f (n_ob n a))\<rparr>"

definition alloc_ib :: "closure ibuf \<Rightarrow> 'id node \<Rightarrow> nat \<times> 'id node" where
  "alloc_ib b n = (n_ibNext n, n\<lparr>n_ib := (n_ib n)(n_ibNext n := b), n_ibNext := Suc (n_ibNext n)\<rparr>)"

definition alloc_ob :: "closure obuf \<Rightarrow> 'id node \<Rightarrow> nat \<times> 'id node" where
  "alloc_ob b n = (n_obNext n, n\<lparr>n_ob := (n_ob n)(n_obNext n := b), n_obNext := Suc (n_obNext n)\<rparr>)"

definition upd_reader ::
  "nat \<Rightarrow> (muxSessionReader \<Rightarrow> muxSessionReader) \<Rightarrow> 'id node \<Rightarrow> 'id node" where
  "upd_reader s f n = upd_sess s (\<lambda>x. x\<lparr>s_reader := map_option f (s_reader x)\<rparr>) n"

definition upd_writer ::
  "nat \<Rightarrow> (muxSessionWriter \<Rightarrow> muxSessionWriter) \<Rightarrow> 'id node \<Rightarrow> 'id node" where
  "upd_writer s f n = upd_sess s (\<lambda>x. x\<lparr>s_writer := map_option f (s_writer x)\<rparr>) n"

definition upd_sessions :: "nat \<Rightarrow> ((nonce \<rightharpoonup> nat) \<Rightarrow> (nonce \<rightharpoonup> nat)) \<Rightarrow> 'id node \<Rightarrow> 'id node" where
  "upd_sessions l f n =
     upd_link l (\<lambda>k. k\<lparr>lk_mux := (lk_mux k)\<lparr>sessions := f (sessions (lk_mux k))\<rparr>\<rparr>) n"

abbreviation mux_sessions :: "'id node \<Rightarrow> nat \<Rightarrow> nonce \<rightharpoonup> nat" where
  "mux_sessions n l \<equiv> sessions (lk_mux (n_links n l))"

definition mux_Send :: "nat \<Rightarrow> 'id frame \<Rightarrow> 'id node \<Rightarrow> nodes_err option \<times> 'id node" where
  "mux_Send l f n = (let r = lk_Send f (n_links n l) in (fst r, upd_link l (\<lambda>_. snd r) n))"

subsection \<open>The closures of the mux\<close>

definition run_onClose :: "closure \<Rightarrow> 'id node \<Rightarrow> 'id node" where
  "run_onClose c n = upd_sessions (fst c) (\<lambda>m. m(snd c := None)) n"

definition run_reset :: "closure \<Rightarrow> 'id node \<Rightarrow> 'id node" where
  "run_reset c n = snd (mux_Send (fst c) (Reset \<lparr>reset_Nonce = snd c\<rparr>) n)"

definition run_onRead :: "closure \<Rightarrow> nat \<Rightarrow> 'id node \<Rightarrow> 'id node" where
  "run_onRead c k n =
     snd (mux_Send (fst c) (Read \<lparr>read_Nonce = snd c, read_Len = of_nat k\<rparr>) n)"

definition run_onWrite :: "closure \<Rightarrow> bytes \<Rightarrow> 'id node \<Rightarrow> nodes_err option \<times> 'id node" where
  "run_onWrite c p n =
     sessionOnWrite (\<lambda>q. mux_Send (fst c) (Data \<lparr>data_Nonce = snd c, data_Payload = q\<rparr>))
       (\<lambda>k m. upd_link (fst c) (lk_onBytes k (n_now m)) m) p n"

subsection \<open>The session reader\<close>

definition newSessionReader :: "nat \<Rightarrow> muxSessionReader" where
  "newSessionReader buf = \<lparr>r_paused = False, r_buf = buf, r_nextBuffer = None\<rparr>"

definition reader_Close :: "nat \<Rightarrow> 'id node \<Rightarrow> 'id node" where
  "reader_Close s n =
     (case s_reader (n_sess n s) of
        None \<Rightarrow> n
      | Some r \<Rightarrow>
          (let n1 = upd_reader s (\<lambda>r. r\<lparr>r_nextBuffer := None, r_paused := False\<rparr>) n;
               n2 = upd_ib (r_buf r) ib_Close n1
           in (case r_nextBuffer r of None \<Rightarrow> n2 | Some b \<Rightarrow> upd_ib b ib_Close n2)))"

definition push_to :: "nat \<Rightarrow> bytes \<Rightarrow> 'id node \<Rightarrow> nodes_err option \<times> 'id node" where
  "push_to a p n = (fst (ib_Push p (n_ib n a)), upd_ib a (\<lambda>b. snd (ib_Push p b)) n)"

definition reader_Push :: "muxSessionReader \<Rightarrow> bytes \<Rightarrow> 'id node \<Rightarrow> nodes_err option \<times> 'id node" where
  "reader_Push r p n =
     (let en = push_to (r_buf r) p n in
      (case r_nextBuffer r of
         Some b \<Rightarrow> (if fst en = Some ErrBufferClosed then push_to b p (snd en) else en)
       | None \<Rightarrow> en))"

definition reader_SetNextBuffer :: "nat \<Rightarrow> nat \<Rightarrow> 'id node \<Rightarrow> 'id node" where
  "reader_SetNextBuffer s b = upd_reader s (\<lambda>r. r\<lparr>r_nextBuffer := Some b\<rparr>)"

definition reader_Pause :: "nat \<Rightarrow> 'id node \<Rightarrow> 'id node" where
  "reader_Pause s = upd_reader s (\<lambda>r. r\<lparr>r_paused := True\<rparr>)"

definition reader_Resume :: "nat \<Rightarrow> 'id node \<Rightarrow> 'id node" where
  "reader_Resume s = upd_reader s (\<lambda>r. r\<lparr>r_paused := False\<rparr>)"

definition promote :: "nat \<Rightarrow> nat \<Rightarrow> 'id node \<Rightarrow> 'id node" where
  "promote s b = upd_reader s (\<lambda>r. r\<lparr>r_buf := b, r_nextBuffer := None\<rparr>)"

definition reader_Advance :: "nat \<Rightarrow> muxSessionReader \<Rightarrow> 'id node \<Rightarrow> 'id node" where
  "reader_Advance s r n =
     (case r_nextBuffer r of
        None \<Rightarrow> n
      | Some b \<Rightarrow>
          (let n1 = upd_ib (r_buf r) ib_Close n
           in (if ib_IsEmpty (n_ib n1 (r_buf r)) then promote s b n1 else n1)))"

datatype read_out =
    ReadData bytes
  | ReadEOF
  | ReadPaused
  | ReadWait nat nat
  | ReadAgain

text \<open>
  One turn of the loop in \<open>Read\<close>: it is paused, it returns, it waits on a channel of the
  current buffer, or it has switched to the next buffer and goes round again.
\<close>

definition reader_turn :: "nat \<Rightarrow> muxSessionReader \<Rightarrow> nat \<Rightarrow> 'id node \<Rightarrow> read_out \<times> 'id node" where
  "reader_turn s r k n =
     (if r_paused r then (ReadPaused, n)
      else (let (res, b', n') = ib_Read run_onRead k (n_ib n (r_buf r)) n;
                n'' = upd_ib (r_buf r) (\<lambda>_. b') n'
            in (case res of
                  IB_Data p \<Rightarrow> (ReadData p, n'')
                | IB_EOF \<Rightarrow>
                    (case r_nextBuffer r of
                       Some b \<Rightarrow> (ReadAgain, promote s b n'')
                     | None \<Rightarrow> (ReadEOF, n''))
                | IB_Empty ch \<Rightarrow> (ReadWait (r_buf r) ch, n''))))"

text \<open>
  The loop without waits.  A turn that goes round again has used up the next buffer, so the
  second turn is the last one (\<open>reader_turn_once\<close>).
\<close>

definition reader_Read :: "nat \<Rightarrow> nat \<Rightarrow> 'id node \<Rightarrow> read_out \<times> 'id node" where
  "reader_Read s k n =
     (case s_reader (n_sess n s) of
        None \<Rightarrow> (ReadEOF, n)
      | Some r \<Rightarrow>
          (let on = reader_turn s r k n in
           (if fst on = ReadAgain
            then reader_turn s (the (s_reader (n_sess (snd on) s))) k (snd on)
            else on)))"

subsection \<open>The session writer\<close>

definition newSessionWriter :: "nat \<Rightarrow> closure option \<Rightarrow> muxSessionWriter" where
  "newSessionWriter buf reset = \<lparr>w_closed = False, w_paused = False, w_buf = buf, w_reset = reset\<rparr>"

definition writer_SwapBuf :: "nat \<Rightarrow> muxSessionWriter \<Rightarrow> nat \<Rightarrow> closure option \<Rightarrow> 'id node \<Rightarrow> 'id node" where
  "writer_SwapBuf s w buf reset n =
     upd_ob (w_buf w) ob_Close (upd_writer s (\<lambda>w. w\<lparr>w_buf := buf, w_reset := reset\<rparr>) n)"

definition writer_Close :: "nat \<Rightarrow> 'id node \<Rightarrow> 'id node" where
  "writer_Close s n =
     (case s_writer (n_sess n s) of
        None \<Rightarrow> n
      | Some w \<Rightarrow>
          (if w_closed w then n
           else (let n1 = upd_writer s (\<lambda>w. w\<lparr>w_closed := True\<rparr>) n;
                     n2 = (case w_reset w of None \<Rightarrow> n1 | Some c \<Rightarrow> run_reset c n1)
                 in upd_ob (w_buf w) ob_Close n2)))"

definition writer_PeerClose :: "nat \<Rightarrow> 'id node \<Rightarrow> 'id node" where
  "writer_PeerClose s n =
     (case s_writer (n_sess n s) of
        None \<Rightarrow> n
      | Some w \<Rightarrow>
          (if w_closed w then n
           else upd_ob (w_buf w) ob_Close (upd_writer s (\<lambda>w. w\<lparr>w_closed := True\<rparr>) n)))"

definition writer_Grow :: "muxSessionWriter \<Rightarrow> nat \<Rightarrow> 'id node \<Rightarrow> 'id node" where
  "writer_Grow w k = upd_ob (w_buf w) (ob_Grow k)"

definition writer_Pause :: "nat \<Rightarrow> 'id node \<Rightarrow> 'id node" where
  "writer_Pause s = upd_writer s (\<lambda>w. w\<lparr>w_paused := True\<rparr>)"

definition writer_Resume :: "nat \<Rightarrow> 'id node \<Rightarrow> 'id node" where
  "writer_Resume s = upd_writer s (\<lambda>w. w\<lparr>w_paused := False\<rparr>)"

text \<open>
  \<open>Write\<close> runs on until all is written, an error ends it, or it has to wait, with what is
  left to write: paused, or on a channel of the current buffer.
\<close>

datatype write_out =
    WriteDone nat
  | WriteErr nat nodes_err
  | WritePaused nat bytes
  | WriteWait nat bytes nat nat

definition write_buf :: "nat \<Rightarrow> bytes \<Rightarrow> 'id node \<Rightarrow> ob_result \<times> 'id node" where
  "write_buf a p n =
     (let (res, b', n') = ob_Write run_onWrite p (n_ob n a) n
      in (res, upd_ob a (\<lambda>_. b') n'))"

lemma write_buf_shrinks:
  "fst (write_buf a p n) = OB_Wrote k e \<Longrightarrow> p \<noteq> [] \<Longrightarrow> 0 < k \<and> k \<le> length p"
  by (auto simp: write_buf_def ob_Write_def Let_def split: if_splits)

function writer_Write :: "muxSessionWriter \<Rightarrow> nat \<Rightarrow> bytes \<Rightarrow> 'id node \<Rightarrow> write_out \<times> 'id node" where
  "writer_Write w tot p n =
     (if p = [] then (WriteDone tot, n)
      else if w_paused w \<and> \<not> w_closed w then (WritePaused tot p, n)
      else if w_closed w then (WriteErr tot ErrClosedPipe, n)
      else (case write_buf (w_buf w) p n of
              (OB_Closed, n') \<Rightarrow> (WriteErr tot ErrBufferClosed, n')
            | (OB_Empty ch, n') \<Rightarrow> (WriteWait tot p (w_buf w) ch, n')
            | (OB_Wrote k (Some e), n') \<Rightarrow> (WriteErr tot e, n')
            | (OB_Wrote k None, n') \<Rightarrow> writer_Write w (tot + k) (drop k p) n'))"
  by pat_completeness auto
termination
proof (relation "measure (\<lambda>(w, tot, p, n). length p)", goal_cases)
  case (2 w tot p n x n' k)
  then have "fst (write_buf (w_buf w) p n) = OB_Wrote k None"
    by (cases "write_buf (w_buf w) p n") simp
  with 2 show ?case
    using write_buf_shrinks [of "w_buf w" p n k None] by simp
qed simp

declare writer_Write.simps [simp del]

subsection \<open>The session\<close>

text \<open>\<open>astral.NewNonce\<close> is code of another library; its result is the argument \<open>fresh\<close>.\<close>

definition newSession ::
  "nonce \<Rightarrow> nonce \<Rightarrow> 'id option \<Rightarrow> 'id option \<Rightarrow> bytes \<Rightarrow> bool \<Rightarrow> int \<Rightarrow> 'id session" where
  "newSession fresh nonce rid sid queryStr outbound now =
     \<lparr>s_Nonce = (if nonce = 0 then fresh else nonce), s_RemoteIdentity = rid,
      s_SourceIdentity = sid, s_Outbound = outbound, s_Query = queryStr, s_createdAt = now,
      s_routingResult = [], s_paused = True, s_closed = False, s_state = stateRouting,
      s_bytes = 0, s_onClose = None, s_reader = None, s_writer = None\<rparr>"

definition count_bytes :: "nat \<Rightarrow> nat \<Rightarrow> 'id node \<Rightarrow> 'id node" where
  "count_bytes s k = upd_sess s (\<lambda>x. x\<lparr>s_bytes := s_bytes x + of_nat k\<rparr>)"

definition session_Read :: "nat \<Rightarrow> nat \<Rightarrow> 'id node \<Rightarrow> read_out \<times> 'id node" where
  "session_Read s k n =
     (let x = n_sess n s in
      if s_paused x \<and> \<not> s_closed x then (ReadPaused, n)
      else if s_reader x = None then (ReadEOF, n)
      else (let on = reader_Read s k n
            in (case fst on of
                  ReadData p \<Rightarrow> (ReadData p, count_bytes s (length p) (snd on))
                | _ \<Rightarrow> on)))"

definition session_Write :: "nat \<Rightarrow> bytes \<Rightarrow> 'id node \<Rightarrow> write_out \<times> 'id node" where
  "session_Write s p n =
     (let x = n_sess n s in
      if s_paused x \<and> \<not> s_closed x then (WritePaused 0 p, n)
      else if s_closed x then (WriteErr 0 ErrSessionClosed, n)
      else (let on = writer_Write (the (s_writer x)) 0 p n
            in (case fst on of
                  WriteDone k \<Rightarrow> (WriteDone k, count_bytes s k (snd on))
                | WriteErr k e \<Rightarrow> (WriteErr k e, count_bytes s k (snd on))
                | _ \<Rightarrow> on)))"

definition session_Setup ::
  "nat \<Rightarrow> muxSessionReader \<Rightarrow> muxSessionWriter \<Rightarrow> 'id node \<Rightarrow> nodes_err option \<times> 'id node" where
  "session_Setup s r w n =
     (if s_closed (n_sess n s) then (Some ErrSessionClosed, n)
      else (None, upd_sess s (\<lambda>x. x\<lparr>s_reader := Some r, s_writer := Some w\<rparr>) n))"

definition session_Open :: "nat \<Rightarrow> 'id node \<Rightarrow> 'id node" where
  "session_Open s = upd_sess s (\<lambda>x. x\<lparr>s_paused := False\<rparr>)"

definition session_Close :: "nat \<Rightarrow> 'id node \<Rightarrow> 'id node" where
  "session_Close s n =
     (if s_closed (n_sess n s) then n
      else (let n1 = upd_sess s (\<lambda>x. x\<lparr>s_state := stateClosed, s_closed := True\<rparr>) n;
                n2 = (case s_onClose (n_sess n s) of None \<Rightarrow> n1 | Some c \<Rightarrow> run_onClose c n1)
            in reader_Close s (writer_Close s n2)))"

definition setState :: "nat \<Rightarrow> session_state \<Rightarrow> 'id node \<Rightarrow> 'id node" where
  "setState s st = upd_sess s (\<lambda>x. x\<lparr>s_state := st\<rparr>)"

definition getState :: "nat \<Rightarrow> 'id node \<Rightarrow> session_state" where
  "getState s n = s_state (n_sess n s)"

definition swapState :: "nat \<Rightarrow> session_state \<Rightarrow> session_state \<Rightarrow> 'id node \<Rightarrow> bool \<times> 'id node" where
  "swapState s old new n =
     (if s_state (n_sess n s) = old then (True, setState s new n) else (False, n))"

definition IsOpen :: "nat \<Rightarrow> 'id node \<Rightarrow> bool" where
  "IsOpen s n \<longleftrightarrow> s_state (n_sess n s) = stateOpen"

subsection \<open>The sessions of a mux\<close>

text \<open>
  \<open>sig.Map.Set\<close> is code of another library: an argument, of which the source relies on the
  law that it inserts only an absent key, and answers the value now there and whether it
  inserted.
\<close>

type_synonym map_set = "(nonce \<rightharpoonup> nat) \<Rightarrow> nonce \<Rightarrow> nat \<Rightarrow> (nat \<times> bool) \<times> (nonce \<rightharpoonup> nat)"

definition set_law :: "map_set \<Rightarrow> bool" where
  "set_law sset \<longleftrightarrow>
     (\<forall>m k v. sset m k v =
        (case m k of Some x \<Rightarrow> ((x, False), m) | None \<Rightarrow> ((v, True), m(k \<mapsto> v))))"

definition set_if_absent :: map_set where
  "set_if_absent m k v = (case m k of Some x \<Rightarrow> ((x, False), m) | None \<Rightarrow> ((v, True), m(k \<mapsto> v)))"

definition removeSession :: "nat \<Rightarrow> nonce \<Rightarrow> 'id node \<Rightarrow> (nodes_err + nat) \<times> 'id node" where
  "removeSession l nonce n =
     (case mux_sessions n l nonce of
        None \<Rightarrow> (Inl ErrSessionNotFound, n)
      | Some s \<Rightarrow> (Inr s, upd_sessions l (\<lambda>m. m(nonce := None)) n))"

definition addSession :: "map_set \<Rightarrow> nat \<Rightarrow> nat \<Rightarrow> 'id node \<Rightarrow> nodes_err option \<times> 'id node" where
  "addSession sset l s n =
     (let nonce = s_Nonce (n_sess n s);
          (r, m) = sset (mux_sessions n l) nonce s;
          n1 = upd_sessions l (\<lambda>_. m) n
      in (if \<not> snd r then (Some ErrInvalidSessionState, n1)
          else (None, upd_sess s (\<lambda>x. x\<lparr>s_onClose := Some (l, nonce)\<rparr>) n1)))"

definition createSession ::
  "map_set \<Rightarrow> nonce \<Rightarrow> nat \<Rightarrow> nonce \<Rightarrow> 'id option \<Rightarrow> 'id option \<Rightarrow> bytes \<Rightarrow> bool \<Rightarrow> nat \<Rightarrow>
     'id node \<Rightarrow> nat option \<times> 'id node" where
  "createSession sset fresh l nonce rid sid queryStr outbound peerBuffer n =
     (let s = n_sessNext n;
          n0 = upd_sess s (\<lambda>_. newSession fresh nonce rid sid queryStr outbound (n_now n))
                 (n\<lparr>n_sessNext := Suc s\<rparr>);
          (r, m) = sset (mux_sessions n l) nonce s;
          n1 = upd_sessions l (\<lambda>_. m) n0
      in (if \<not> snd r then (None, n1)
          else (let s' = fst r;
                    n2 = upd_sess s' (\<lambda>x. x\<lparr>s_onClose := Some (l, nonce)\<rparr>) n1;
                    (ib, n3) = alloc_ib (NewInputBuffer (int defaultBufferSize) (Some (l, nonce))) n2;
                    (ob, n4) = alloc_ob (NewOutputBuffer (l, nonce)) n3;
                    w = newSessionWriter ob (Some (l, nonce));
                    (err, n5) = session_Setup s' (newSessionReader ib) w (writer_Grow w peerBuffer n4)
                in (if err \<noteq> None then (None, upd_sessions l (\<lambda>m. m(nonce := None)) n5)
                    else (Some s', n5)))))"

text \<open>The sessions in the order the clone of the map is ranged over, which Go leaves open.\<close>

definition closeAllSessions :: "nat list \<Rightarrow> 'id node \<Rightarrow> 'id node" where
  "closeAllSessions order n = fold session_Close order n"

lemmas store_defs [mux_defs] =
  upd_link_def upd_sess_def upd_ib_def upd_ob_def alloc_ib_def alloc_ob_def upd_reader_def
  upd_writer_def upd_sessions_def

end
