(* ===== verification/Session_Store.thy ===== *)
theory Session_Store
  imports Sessions
begin

section \<open>The invariant of the session store\<close>

text \<open>
  What holds of the store between any two operations: every buffer in use satisfies the
  invariant of its component, readers and writers point to allocated buffers, the verdict of
  a query is delivered at most once, a closed session has a closed writer, and a session that a
  mux has registered is set up, is not closed, and is registered there only, under its own
  nonce unless that key is zero.  Each operation of \<open>Sessions\<close> is shown to keep it.
\<close>

definition sess_ok :: "nat \<Rightarrow> nat \<Rightarrow> 'id session \<Rightarrow> bool" where
  "sess_ok ibs obs x \<longleftrightarrow>
     (\<forall>r. s_reader x = Some r \<longrightarrow> r_buf r < ibs \<and> (\<forall>b. r_nextBuffer r = Some b \<longrightarrow> b < ibs)) \<and>
     (\<forall>w. s_writer x = Some w \<longrightarrow> w_buf w < obs \<and> (s_closed x \<longrightarrow> w_closed w)) \<and>
     length (s_routingResult x) \<le> 1 \<and>
     (s_routingResult x \<noteq> [] \<longrightarrow> s_state x \<noteq> stateRouting)"

definition reg_ok :: "nat \<Rightarrow> nonce \<Rightarrow> 'id session \<Rightarrow> bool" where
  "reg_ok l nonce x \<longleftrightarrow>
     \<not> s_closed x \<and> s_reader x \<noteq> None \<and> s_writer x \<noteq> None \<and> s_onClose x = Some (l, nonce) \<and>
     (nonce \<noteq> 0 \<longrightarrow> s_Nonce x = nonce)"

definition node_inv :: "'id node \<Rightarrow> bool" where
  "node_inv n \<longleftrightarrow>
     (\<forall>a < n_ibNext n. ib_inv (n_ib n a)) \<and>
     (\<forall>a < n_obNext n. ob_inv (n_ob n a)) \<and>
     (\<forall>s < n_sessNext n. sess_ok (n_ibNext n) (n_obNext n) (n_sess n s)) \<and>
     (\<forall>l nonce s. mux_sessions n l nonce = Some s \<longrightarrow> s < n_sessNext n \<and> reg_ok l nonce (n_sess n s))"

definition node_start :: "'id node \<Rightarrow> bool" where
  "node_start n \<longleftrightarrow>
     n_ibNext n = 0 \<and> n_obNext n = 0 \<and> n_sessNext n = 0 \<and> (\<forall>l. mux_sessions n l = Map.empty)"

lemma node_inv_start: "node_start n \<Longrightarrow> node_inv n"
  by (simp add: node_start_def node_inv_def)

lemma node_invD:
  assumes "node_inv n"
  shows "a < n_ibNext n \<Longrightarrow> ib_inv (n_ib n a)"
    and "b < n_obNext n \<Longrightarrow> ob_inv (n_ob n b)"
    and "s < n_sessNext n \<Longrightarrow> sess_ok (n_ibNext n) (n_obNext n) (n_sess n s)"
    and "mux_sessions n l nonce = Some s \<Longrightarrow> s < n_sessNext n"
    and "mux_sessions n l nonce = Some s \<Longrightarrow> reg_ok l nonce (n_sess n s)"
  using assms by (auto simp: node_inv_def)

subsection \<open>The parts of the store are independent\<close>

lemma upd_link_frame [simp]:
  "n_sess (upd_link l f n) = n_sess n" "n_ib (upd_link l f n) = n_ib n"
  "n_ob (upd_link l f n) = n_ob n" "n_sessNext (upd_link l f n) = n_sessNext n"
  "n_ibNext (upd_link l f n) = n_ibNext n" "n_obNext (upd_link l f n) = n_obNext n"
  "n_pool (upd_link l f n) = n_pool n" "n_now (upd_link l f n) = n_now n"
  "n_links (upd_link l f n) = (n_links n)(l := f (n_links n l))"
  by (simp_all add: upd_link_def)

lemma upd_sess_frame [simp]:
  "n_links (upd_sess s f n) = n_links n" "n_ib (upd_sess s f n) = n_ib n"
  "n_ob (upd_sess s f n) = n_ob n" "n_sessNext (upd_sess s f n) = n_sessNext n"
  "n_ibNext (upd_sess s f n) = n_ibNext n" "n_obNext (upd_sess s f n) = n_obNext n"
  "n_pool (upd_sess s f n) = n_pool n" "n_now (upd_sess s f n) = n_now n"
  "n_sess (upd_sess s f n) = (n_sess n)(s := f (n_sess n s))"
  by (simp_all add: upd_sess_def)

lemma upd_ib_frame [simp]:
  "n_links (upd_ib a g n) = n_links n" "n_sess (upd_ib a g n) = n_sess n"
  "n_ob (upd_ib a g n) = n_ob n" "n_sessNext (upd_ib a g n) = n_sessNext n"
  "n_ibNext (upd_ib a g n) = n_ibNext n" "n_obNext (upd_ib a g n) = n_obNext n"
  "n_pool (upd_ib a g n) = n_pool n" "n_now (upd_ib a g n) = n_now n"
  "n_ib (upd_ib a g n) = (n_ib n)(a := g (n_ib n a))"
  by (simp_all add: upd_ib_def)

lemma upd_ob_frame [simp]:
  "n_links (upd_ob a h n) = n_links n" "n_sess (upd_ob a h n) = n_sess n"
  "n_ib (upd_ob a h n) = n_ib n" "n_sessNext (upd_ob a h n) = n_sessNext n"
  "n_ibNext (upd_ob a h n) = n_ibNext n" "n_obNext (upd_ob a h n) = n_obNext n"
  "n_pool (upd_ob a h n) = n_pool n" "n_now (upd_ob a h n) = n_now n"
  "n_ob (upd_ob a h n) = (n_ob n)(a := h (n_ob n a))"
  by (simp_all add: upd_ob_def)

lemma upd_sessions_frame [simp]:
  "n_sess (upd_sessions l g n) = n_sess n" "n_ib (upd_sessions l g n) = n_ib n"
  "n_ob (upd_sessions l g n) = n_ob n" "n_sessNext (upd_sessions l g n) = n_sessNext n"
  "n_ibNext (upd_sessions l g n) = n_ibNext n" "n_obNext (upd_sessions l g n) = n_obNext n"
  "n_pool (upd_sessions l g n) = n_pool n" "n_now (upd_sessions l g n) = n_now n"
  "mux_sessions (upd_sessions l g n) k =
     (if k = l then g (mux_sessions n l) else mux_sessions n k)"
  "lk_ch (n_links (upd_sessions l g n) k) = lk_ch (n_links n k)"
  "lk_id (n_links (upd_sessions l g n) k) = lk_id (n_links n k)"
  "remoteIdentity (lk_mux (n_links (upd_sessions l g n) k)) = remoteIdentity (lk_mux (n_links n k))"
  by (simp_all add: upd_sessions_def)

lemma upd_reader_frame [simp]:
  "n_links (upd_reader s f n) = n_links n" "n_ib (upd_reader s f n) = n_ib n"
  "n_ob (upd_reader s f n) = n_ob n" "n_sessNext (upd_reader s f n) = n_sessNext n"
  "n_ibNext (upd_reader s f n) = n_ibNext n" "n_obNext (upd_reader s f n) = n_obNext n"
  "n_pool (upd_reader s f n) = n_pool n" "n_now (upd_reader s f n) = n_now n"
  "n_sess (upd_reader s f n) =
     (n_sess n)(s := (n_sess n s)\<lparr>s_reader := map_option f (s_reader (n_sess n s))\<rparr>)"
  by (simp_all add: upd_reader_def)

lemma upd_writer_frame [simp]:
  "n_links (upd_writer s f n) = n_links n" "n_ib (upd_writer s f n) = n_ib n"
  "n_ob (upd_writer s f n) = n_ob n" "n_sessNext (upd_writer s f n) = n_sessNext n"
  "n_ibNext (upd_writer s f n) = n_ibNext n" "n_obNext (upd_writer s f n) = n_obNext n"
  "n_pool (upd_writer s f n) = n_pool n" "n_now (upd_writer s f n) = n_now n"
  "n_sess (upd_writer s f n) =
     (n_sess n)(s := (n_sess n s)\<lparr>s_writer := map_option f (s_writer (n_sess n s))\<rparr>)"
  by (simp_all add: upd_writer_def)

subsection \<open>Single updates\<close>

lemma inv_upd_ib:
  "node_inv n \<Longrightarrow> (\<And>b. ib_inv b \<Longrightarrow> ib_inv (g b)) \<Longrightarrow> node_inv (upd_ib a g n)"
  by (auto simp: node_inv_def)

lemma inv_upd_ob:
  "node_inv n \<Longrightarrow> (\<And>b. ob_inv b \<Longrightarrow> ob_inv (h b)) \<Longrightarrow> node_inv (upd_ob a h n)"
  by (auto simp: node_inv_def)

lemma inv_upd_link:
  "node_inv n \<Longrightarrow> sessions (lk_mux (f (n_links n l))) = sessions (lk_mux (n_links n l)) \<Longrightarrow>
   node_inv (upd_link l f n)"
  by (simp add: node_inv_def)

lemma inv_unregister: "node_inv n \<Longrightarrow> node_inv (upd_sessions l (\<lambda>m. m(nonce := None)) n)"
  by (auto simp: node_inv_def)

definition registered :: "'id node \<Rightarrow> nat \<Rightarrow> bool" where
  "registered n s \<longleftrightarrow> (\<exists>l nonce. mux_sessions n l nonce = Some s)"

lemma inv_upd_sess:
  assumes "node_inv n"
    and "s < n_sessNext n \<Longrightarrow> sess_ok (n_ibNext n) (n_obNext n) (n_sess n s) \<Longrightarrow>
           sess_ok (n_ibNext n) (n_obNext n) (f (n_sess n s))"
    and "\<And>l nonce. mux_sessions n l nonce = Some s \<Longrightarrow> reg_ok l nonce (n_sess n s) \<Longrightarrow>
           reg_ok l nonce (f (n_sess n s))"
  shows "node_inv (upd_sess s f n)"
  using assms by (auto simp: node_inv_def)

subsection \<open>Sending touches only the channel\<close>

definition same_store :: "'id node \<Rightarrow> 'id node \<Rightarrow> bool" where
  "same_store n m \<longleftrightarrow>
     n_sess m = n_sess n \<and> n_ib m = n_ib n \<and> n_ob m = n_ob n \<and> n_sessNext m = n_sessNext n \<and>
     n_ibNext m = n_ibNext n \<and> n_obNext m = n_obNext n \<and> n_pool m = n_pool n \<and> n_now m = n_now n \<and>
     (\<forall>l. lk_mux (n_links m l) = lk_mux (n_links n l) \<and> lk_id (n_links m l) = lk_id (n_links n l))"

lemma same_storeD [dest]:
  assumes "same_store n m"
  shows "n_sess m = n_sess n" "n_ib m = n_ib n" "n_ob m = n_ob n" "n_sessNext m = n_sessNext n"
    "n_ibNext m = n_ibNext n" "n_obNext m = n_obNext n" "n_pool m = n_pool n" "n_now m = n_now n"
    "lk_mux (n_links m l) = lk_mux (n_links n l)" "lk_id (n_links m l) = lk_id (n_links n l)"
  using assms by (simp_all add: same_store_def)

lemma same_store_refl [simp, intro]: "same_store n n"
  by (simp add: same_store_def)

lemma same_store_trans [trans]: "same_store n m \<Longrightarrow> same_store m k \<Longrightarrow> same_store n k"
  by (simp add: same_store_def)

lemma same_store_inv: "same_store n m \<Longrightarrow> node_inv m = node_inv n"
  by (simp add: same_store_def node_inv_def)

lemma mux_Send_store [intro]: "same_store n (snd (mux_Send l f n))"
  by (simp add: same_store_def mux_Send_def lk_Send_def Let_def)

lemma lk_onBytes_store [intro]: "same_store n (upd_link l (lk_onBytes k t) n)"
  by (simp add: same_store_def lk_onBytes_def)

lemma run_reset_store [intro]: "same_store n (run_reset c n)"
  by (auto simp: run_reset_def)

lemma run_onRead_store [intro]: "same_store n (run_onRead c k n)"
  by (auto simp: run_onRead_def)

lemma sessionOnWrite_rel:
  assumes refl: "\<And>s. R s s" and trans: "\<And>a b c. R a b \<Longrightarrow> R b c \<Longrightarrow> R a c"
    and send: "\<And>q s. length q \<le> maxPayloadSize \<Longrightarrow> R s (snd (send q s))" and tally: "\<And>k s. R s (tally k s)"
  shows "R s (snd (sessionOnWrite send tally p s))"
proof (induction "length p" arbitrary: p s rule: less_induct)
  case less
  let ?k = "if length p < maxPayloadSize then length p else maxPayloadSize"
  show ?case
  proof (cases "p = [] \<or> fst (send (take ?k p) s) \<noteq> None")
    case True
    then show ?thesis
      using refl send by (subst sessionOnWrite.simps) (auto simp: Let_def split: option.splits)
  next
    case False
    then have "length (drop ?k p) < length p" by (simp add: maxPayloadSize_def)
    then have "R (tally ?k (snd (send (take ?k p) s)))
        (snd (sessionOnWrite send tally (drop ?k p) (tally ?k (snd (send (take ?k p) s)))))"
      by (rule less)
    moreover have "R s (tally ?k (snd (send (take ?k p) s)))"
      by (rule trans [OF send tally]) simp
    ultimately show ?thesis
      using False by (subst sessionOnWrite.simps) (auto simp: Let_def intro: trans)
  qed
qed

lemma run_onWrite_store [intro]: "same_store n (snd (run_onWrite c p n))"
  unfolding run_onWrite_def
  by (rule sessionOnWrite_rel [where R = same_store])
    (auto intro: same_store_trans)

lemma run_onClose_eq: "run_onClose c n = upd_sessions (fst c) (\<lambda>m. m(snd c := None)) n"
  by (simp add: run_onClose_def)

subsection \<open>The reader and the writer keep the invariant\<close>

lemma inv_run_reset: "node_inv n \<Longrightarrow> node_inv (run_reset c n)"
  using same_store_inv [OF run_reset_store] by blast

lemma inv_mux_Send: "node_inv n \<Longrightarrow> node_inv (snd (mux_Send l f n))"
  using same_store_inv [OF mux_Send_store] by blast

lemma inv_upd_reader:
  assumes "node_inv n"
    and "\<And>r. s_reader (n_sess n s) = Some r \<Longrightarrow> s < n_sessNext n \<Longrightarrow>
           r_buf (f r) < n_ibNext n \<and> (\<forall>b. r_nextBuffer (f r) = Some b \<longrightarrow> b < n_ibNext n)"
  shows "node_inv (upd_reader s f n)"
  unfolding upd_reader_def using assms
  by (intro inv_upd_sess) (auto simp: sess_ok_def reg_ok_def)

lemma inv_upd_writer:
  assumes "node_inv n"
    and "\<And>w. s_writer (n_sess n s) = Some w \<Longrightarrow> s < n_sessNext n \<Longrightarrow>
           w_buf (f w) < n_obNext n \<and> (w_closed w \<longrightarrow> w_closed (f w))"
  shows "node_inv (upd_writer s f n)"
  unfolding upd_writer_def using assms
  by (intro inv_upd_sess) (auto simp: sess_ok_def reg_ok_def)

lemma inv_reader_bufs:
  assumes "node_inv n" and "s < n_sessNext n" and "s_reader (n_sess n s) = Some r"
  shows "r_buf r < n_ibNext n" and "r_nextBuffer r = Some b \<Longrightarrow> b < n_ibNext n"
  using node_invD(3) [OF assms(1,2)] assms(3) by (auto simp: sess_ok_def)

lemma inv_writer_buf:
  assumes "node_inv n" and "s < n_sessNext n" and "s_writer (n_sess n s) = Some w"
  shows "w_buf w < n_obNext n"
  using node_invD(3) [OF assms(1,2)] assms(3) by (auto simp: sess_ok_def)

lemma inv_reader_Close: "node_inv n \<Longrightarrow> node_inv (reader_Close s n)"
  unfolding reader_Close_def Let_def
  by (auto split: option.split intro!: inv_upd_ib inv_upd_reader ib_inv_Close
      dest: inv_reader_bufs)

lemma inv_push_to: "node_inv n \<Longrightarrow> node_inv (snd (push_to a p n))"
  unfolding push_to_def by (auto intro: inv_upd_ib ib_inv_Push)

lemma inv_reader_Push: "node_inv n \<Longrightarrow> node_inv (snd (reader_Push r p n))"
  unfolding reader_Push_def Let_def by (auto split: option.split intro!: inv_push_to)

lemma inv_promote:
  "node_inv n \<Longrightarrow> s < n_sessNext n \<Longrightarrow> s_reader (n_sess n s) = Some r \<Longrightarrow> r_nextBuffer r = Some b \<Longrightarrow>
   node_inv (promote s b n)"
  unfolding promote_def by (intro inv_upd_reader) (auto dest: inv_reader_bufs)

lemma inv_reader_Advance:
  "node_inv n \<Longrightarrow> s < n_sessNext n \<Longrightarrow> s_reader (n_sess n s) = Some r \<Longrightarrow>
   node_inv (reader_Advance s r n)"
  unfolding reader_Advance_def Let_def
  by (auto split: option.split intro!: inv_promote inv_upd_ib ib_inv_Close)

lemma ib_Read_store: "same_store n (snd (snd (ib_Read run_onRead k b n)))"
  using ib_Read_credit [of run_onRead k b n] by (auto split: list.splits option.splits)

lemma ib_Read_sess [simp]:
  "n_sess (snd (snd (ib_Read run_onRead k b n))) = n_sess n"
  "n_sessNext (snd (snd (ib_Read run_onRead k b n))) = n_sessNext n"
  "n_ib (snd (snd (ib_Read run_onRead k b n))) = n_ib n"
  using ib_Read_store [of n k b] by auto

lemma reader_turn_eq:
  "reader_turn s r k n =
     (if r_paused r then (ReadPaused, n)
      else (let o3 = ib_Read run_onRead k (n_ib n (r_buf r)) n;
                n'' = upd_ib (r_buf r) (\<lambda>_. fst (snd o3)) (snd (snd o3))
            in (case fst o3 of
                  IB_Data p \<Rightarrow> (ReadData p, n'')
                | IB_EOF \<Rightarrow>
                    (case r_nextBuffer r of
                       Some b \<Rightarrow> (ReadAgain, promote s b n'')
                     | None \<Rightarrow> (ReadEOF, n''))
                | IB_Empty ch \<Rightarrow> (ReadWait (r_buf r) ch, n''))))"
  by (simp add: reader_turn_def Let_def case_prod_beta)

lemma inv_reader_turn:
  assumes "node_inv n" and "s < n_sessNext n" and "s_reader (n_sess n s) = Some r"
  shows "node_inv (snd (reader_turn s r k n))"
proof -
  let ?o = "ib_Read run_onRead k (n_ib n (r_buf r)) n"
  have "ib_inv (fst (snd ?o))"
    by (intro ib_inv_Read node_invD(1) [OF assms(1)] inv_reader_bufs(1) [OF assms])
  then have "node_inv (upd_ib (r_buf r) (\<lambda>_. fst (snd ?o)) (snd (snd ?o)))"
    using assms(1) same_store_inv [OF ib_Read_store] by (intro inv_upd_ib) auto
  then show ?thesis
    using assms
    by (auto simp: reader_turn_eq Let_def split: ib_result.split option.split intro: inv_promote)
qed

lemma reader_turn_sess:
  "n_sessNext (snd (reader_turn s r k n)) = n_sessNext n"
  "s_reader (n_sess n s) \<noteq> None \<Longrightarrow> s_reader (n_sess (snd (reader_turn s r k n)) s) \<noteq> None"
  by (auto simp: reader_turn_eq Let_def promote_def split: ib_result.split option.split)

lemma inv_reader_Read:
  assumes "node_inv n" and "s < n_sessNext n"
  shows "node_inv (snd (reader_Read s k n))"
proof (cases "s_reader (n_sess n s)")
  case (Some r)
  have inv: "node_inv (snd (reader_turn s r k n))" by (rule inv_reader_turn [OF assms Some])
  have "node_inv (snd (reader_turn s r' k (snd (reader_turn s r k n))))"
    if "s_reader (n_sess (snd (reader_turn s r k n)) s) = Some r'" for r'
    using inv_reader_turn [OF inv _ that] assms(2) by (simp add: reader_turn_sess)
  with inv show ?thesis
    using Some reader_turn_sess(2) [of n s r k] by (auto simp: reader_Read_def Let_def)
qed (simp add: reader_Read_def assms)

lemma inv_writer_Close: "node_inv n \<Longrightarrow> node_inv (writer_Close s n)"
  unfolding writer_Close_def Let_def
  by (auto split: option.split intro!: inv_upd_ob inv_run_reset inv_upd_writer ob_inv_Close
      dest: inv_writer_buf)

lemma inv_writer_PeerClose: "node_inv n \<Longrightarrow> node_inv (writer_PeerClose s n)"
  unfolding writer_PeerClose_def
  by (auto split: option.split intro!: inv_upd_ob inv_upd_writer ob_inv_Close dest: inv_writer_buf)

lemma inv_writer_Grow: "node_inv n \<Longrightarrow> node_inv (writer_Grow w k n)"
  unfolding writer_Grow_def by (intro inv_upd_ob ob_inv_Grow)

lemma inv_writer_Pause: "node_inv n \<Longrightarrow> node_inv (writer_Pause s n)"
  unfolding writer_Pause_def by (intro inv_upd_writer) (auto dest: inv_writer_buf)

lemma inv_writer_Resume: "node_inv n \<Longrightarrow> node_inv (writer_Resume s n)"
  unfolding writer_Resume_def by (intro inv_upd_writer) (auto dest: inv_writer_buf)

lemma inv_writer_SwapBuf:
  "node_inv n \<Longrightarrow> b < n_obNext n \<Longrightarrow> node_inv (writer_SwapBuf s w b c n)"
  unfolding writer_SwapBuf_def by (intro inv_upd_ob inv_upd_writer ob_inv_Close) auto

lemma inv_reader_SetNextBuffer:
  "node_inv n \<Longrightarrow> b < n_ibNext n \<Longrightarrow> node_inv (reader_SetNextBuffer s b n)"
  unfolding reader_SetNextBuffer_def by (intro inv_upd_reader) (auto dest: inv_reader_bufs)

lemma ob_Write_store: "same_store n (snd (snd (ob_Write run_onWrite p b n)))"
  by (auto simp: ob_Write_def Let_def)

lemma inv_write_buf:
  assumes "node_inv n" and "a < n_obNext n"
  shows "node_inv (snd (write_buf a p n))"
proof -
  let ?o = "ob_Write run_onWrite p (n_ob n a) n"
  have "ob_inv (fst (snd ?o))" by (intro ob_inv_Write node_invD(2) [OF assms])
  then have "node_inv (upd_ob a (\<lambda>_. fst (snd ?o)) (snd (snd ?o)))"
    using assms(1) same_store_inv [OF ob_Write_store] by (intro inv_upd_ob) auto
  then show ?thesis by (simp add: write_buf_def case_prod_beta)
qed

lemma write_buf_sess:
  "n_sess (snd (write_buf a p n)) = n_sess n" "n_sessNext (snd (write_buf a p n)) = n_sessNext n"
  "n_obNext (snd (write_buf a p n)) = n_obNext n"
  using ob_Write_store [of n p "n_ob n a"] by (auto simp: write_buf_def case_prod_beta)

lemma inv_writer_Write:
  "node_inv n \<Longrightarrow> w_buf w < n_obNext n \<Longrightarrow>
   node_inv (snd (writer_Write w t p n)) \<and>
   n_sess (snd (writer_Write w t p n)) = n_sess n \<and>
   n_sessNext (snd (writer_Write w t p n)) = n_sessNext n"
proof (induction w t p n rule: writer_Write.induct)
  case (1 w t p n)
  obtain res n' where e: "write_buf (w_buf w) p n = (res, n')" by fastforce
  have inv: "node_inv n'" "n_sess n' = n_sess n" "n_sessNext n' = n_sessNext n"
    "n_obNext n' = n_obNext n"
    using inv_write_buf [OF 1(2,3), of p] write_buf_sess [of "w_buf w" p n] e by simp_all
  have rec: "node_inv (snd (writer_Write w (t + k) (drop k p) n')) \<and>
      n_sess (snd (writer_Write w (t + k) (drop k p) n')) = n_sess n \<and>
      n_sessNext (snd (writer_Write w (t + k) (drop k p) n')) = n_sessNext n"
    if "res = OB_Wrote k None" "p \<noteq> []" "\<not> w_paused w" "\<not> w_closed w" for k
    using "1.IH" [of res n' k None] that e inv 1(3) by simp
  show ?case
    using 1(2) inv rec
    by (subst (1 2 3) writer_Write.simps)
      (auto simp: e split: ob_result.split option.split)
qed

subsection \<open>Sessions keep the invariant\<close>

lemma inv_count_bytes: "node_inv n \<Longrightarrow> node_inv (count_bytes s k n)"
  unfolding count_bytes_def by (intro inv_upd_sess) (auto simp: sess_ok_def reg_ok_def)

lemma inv_session_Read:
  "node_inv n \<Longrightarrow> s < n_sessNext n \<Longrightarrow> node_inv (snd (session_Read s k n))"
  unfolding session_Read_def Let_def
  by (auto split: read_out.split intro!: inv_count_bytes inv_reader_Read)

lemma inv_session_Write:
  assumes "node_inv n" and "s < n_sessNext n" and "s_writer (n_sess n s) \<noteq> None"
  shows "node_inv (snd (session_Write s p n))"
proof -
  from assms(3) obtain w where w: "s_writer (n_sess n s) = Some w" by blast
  have "node_inv (snd (writer_Write w 0 p n))"
    using inv_writer_Write [OF assms(1) inv_writer_buf [OF assms(1,2) w]] by blast
  with assms(1) show ?thesis
    by (auto simp: session_Write_def Let_def w split: write_out.split intro: inv_count_bytes)
qed

lemma inv_session_Open: "node_inv n \<Longrightarrow> node_inv (session_Open s n)"
  unfolding session_Open_def by (intro inv_upd_sess) (auto simp: sess_ok_def reg_ok_def)

lemma inv_setState:
  "node_inv n \<Longrightarrow> st \<noteq> stateRouting \<Longrightarrow> node_inv (setState s st n)"
  unfolding setState_def by (intro inv_upd_sess) (auto simp: sess_ok_def reg_ok_def)

lemma upd_sess_sessions:
  "upd_sess s f (upd_sessions l g n) = upd_sessions l g (upd_sess s f n)"
  by (simp add: upd_sess_def upd_sessions_def upd_link_def)

lemma reader_Close_sess [simp]:
  "n_sess (reader_Close s n) =
     (n_sess n)(s := (n_sess n s)\<lparr>s_reader :=
        map_option (\<lambda>r. r\<lparr>r_nextBuffer := None, r_paused := False\<rparr>) (s_reader (n_sess n s))\<rparr>)"
  by (auto simp: reader_Close_def Let_def split: option.split)

text \<open>
  Closing marks the session closed while it is still registered.  The closure that
  unregisters it names the only entry it has, so the invariant holds again at the end.
\<close>

lemma close_mark_inv:
  assumes "node_inv n" and "\<not> s_closed (n_sess n s)"
  shows "node_inv (writer_Close s
           (case s_onClose (n_sess n s) of
              None \<Rightarrow> upd_sess s (\<lambda>x. x\<lparr>s_state := stateClosed, s_closed := True\<rparr>) n
            | Some c \<Rightarrow> run_onClose c (upd_sess s (\<lambda>x. x\<lparr>s_state := stateClosed, s_closed := True\<rparr>) n)))"
    (is "node_inv (writer_Close s ?n2)")
proof -
  define n1 where "n1 = (case s_onClose (n_sess n s) of None \<Rightarrow> n | Some c \<Rightarrow> run_onClose c n)"
  have n2: "?n2 = upd_sess s (\<lambda>x. x\<lparr>s_state := stateClosed, s_closed := True\<rparr>) n1"
    by (simp add: n1_def run_onClose_def upd_sess_sessions split: option.split)
  have inv1: "node_inv n1"
    using assms(1) by (auto simp: n1_def run_onClose_def intro: inv_unregister split: option.split)
  have unreg: "mux_sessions n1 l nonce \<noteq> Some s" for l nonce
    using node_invD(5) [OF assms(1), of l nonce s]
    by (auto simp: n1_def run_onClose_def reg_ok_def split: option.splits if_splits)
  have same: "n_sess n1 = n_sess n"
    by (simp add: n1_def run_onClose_def split: option.split)
  let ?close = "\<lambda>x. x\<lparr>s_state := stateClosed, s_closed := True,
                      s_writer := map_option (\<lambda>w. w\<lparr>w_closed := True\<rparr>) (s_writer x)\<rparr>"
  have inv2: "node_inv (upd_sess s ?close n1)"
    using inv1 unreg by (intro inv_upd_sess) (auto simp: sess_ok_def)
  show ?thesis
  proof (cases "s_writer (n_sess n s)")
    case None
    then have "writer_Close s ?n2 = upd_sess s ?close n1"
      unfolding n2 by (cases "n_sess n s") (simp add: writer_Close_def same upd_sess_def)
    then show ?thesis using inv2 by simp
  next
    case (Some w)
    show ?thesis
    proof (cases "w_closed w")
      case True
      then have "w\<lparr>w_closed := True\<rparr> = w" by simp
      with Some True have "writer_Close s ?n2 = upd_sess s ?close n1"
        unfolding n2
        by (cases "n_sess n s"; cases w) (simp add: writer_Close_def same upd_sess_def)
      then show ?thesis using inv2 by simp
    next
      case False
      with Some have "writer_Close s ?n2 =
          upd_ob (w_buf w) ob_Close (case w_reset w of None \<Rightarrow> upd_sess s ?close n1
                                     | Some c \<Rightarrow> run_reset c (upd_sess s ?close n1))"
        unfolding n2
        by (simp add: writer_Close_def same upd_sess_def upd_writer_def Let_def split: option.split)
      then show ?thesis
        using inv2 by (auto split: option.split intro!: inv_upd_ob inv_run_reset ob_inv_Close)
    qed
  qed
qed

lemma inv_session_Close: "node_inv n \<Longrightarrow> node_inv (session_Close s n)"
  unfolding session_Close_def Let_def
  by (auto intro!: inv_reader_Close close_mark_inv)

lemma inv_closeAllSessions: "node_inv n \<Longrightarrow> node_inv (closeAllSessions order n)"
  unfolding closeAllSessions_def by (induction order arbitrary: n) (auto intro: inv_session_Close)

lemma inv_removeSession: "node_inv n \<Longrightarrow> node_inv (snd (removeSession l nonce n))"
  by (auto simp: removeSession_def split: option.split intro: inv_unregister)

lemma sset_law:
  "set_law sset \<Longrightarrow>
   sset m k v = (case m k of Some x \<Rightarrow> ((x, False), m) | None \<Rightarrow> ((v, True), m(k \<mapsto> v)))"
  by (simp add: set_law_def)

lemma set_law_if_absent: "set_law set_if_absent"
  by (simp add: set_law_def set_if_absent_def)

lemma upd_sessions_id: "upd_sessions l (\<lambda>_. mux_sessions n l) n = n"
  by (simp add: upd_sessions_def upd_link_def)

lemma addSession_eq:
  assumes "set_law sset"
  shows "addSession sset l s n =
     (case mux_sessions n l (s_Nonce (n_sess n s)) of
        Some _ \<Rightarrow> (Some ErrInvalidSessionState, n)
      | None \<Rightarrow>
          (None, upd_sess s (\<lambda>x. x\<lparr>s_onClose := Some (l, s_Nonce x)\<rparr>)
                   (upd_sessions l (\<lambda>m. m(s_Nonce (n_sess n s) \<mapsto> s)) n)))"
  by (auto simp: addSession_def sset_law [OF assms] Let_def upd_sessions_id upd_sess_def
      upd_sessions_def upd_link_def split: option.split)

text \<open>Registering keeps the invariant for a session that is set up, open and registered nowhere.\<close>

lemma inv_addSession:
  assumes "node_inv n" and "set_law sset" and "s < n_sessNext n" and "\<not> s_closed (n_sess n s)"
    and "s_reader (n_sess n s) \<noteq> None" and "s_writer (n_sess n s) \<noteq> None"
    and "\<not> registered n s"
  shows "node_inv (snd (addSession sset l s n))"
proof (cases "mux_sessions n l (s_Nonce (n_sess n s))")
  case None
  define n' where "n' = upd_sess s (\<lambda>x. x\<lparr>s_onClose := Some (l, s_Nonce x)\<rparr>) n"
  have "node_inv n'"
    unfolding n'_def using assms(1,7)
    by (intro inv_upd_sess) (auto simp: sess_ok_def registered_def)
  moreover have "snd (addSession sset l s n) = upd_sessions l (\<lambda>m. m(s_Nonce (n_sess n s) \<mapsto> s)) n'"
    using None by (simp add: addSession_eq [OF assms(2)] n'_def upd_sess_sessions)
  moreover have "reg_ok l (s_Nonce (n_sess n s)) (n_sess n' s)" "s < n_sessNext n'"
    using assms by (auto simp: reg_ok_def n'_def)
  ultimately show ?thesis by (auto simp: node_inv_def)
qed (simp add: addSession_eq [OF assms(2)] assms(1))

lemma createSession_exists:
  assumes "set_law sset" and "mux_sessions n l nonce = Some x"
  shows "createSession sset fresh l nonce rid sid q out pb n =
     (None, upd_sess (n_sessNext n) (\<lambda>_. newSession fresh nonce rid sid q out (n_now n))
              (n\<lparr>n_sessNext := Suc (n_sessNext n)\<rparr>))"
  using assms(2)
  by (simp add: createSession_def sset_law [OF assms(1)] Let_def upd_sessions_def upd_link_def
      upd_sess_def)

definition created_session ::
  "nonce \<Rightarrow> nat \<Rightarrow> nonce \<Rightarrow> 'id option \<Rightarrow> 'id option \<Rightarrow> bytes \<Rightarrow> bool \<Rightarrow> 'id node \<Rightarrow> 'id session" where
  "created_session fresh l nonce rid sid q out n =
     (newSession fresh nonce rid sid q out (n_now n))
       \<lparr>s_onClose := Some (l, nonce), s_reader := Some (newSessionReader (n_ibNext n)),
        s_writer := Some (newSessionWriter (n_obNext n) (Some (l, nonce)))\<rparr>"

lemma createSession_new:
  assumes "set_law sset" and "mux_sessions n l nonce = None"
  shows "createSession sset fresh l nonce rid sid q out pb n =
     (Some (n_sessNext n),
      upd_sessions l (\<lambda>m. m(nonce \<mapsto> n_sessNext n))
        (n\<lparr>n_sessNext := Suc (n_sessNext n), n_ibNext := Suc (n_ibNext n),
           n_obNext := Suc (n_obNext n),
           n_ib := (n_ib n)(n_ibNext n :=
                      NewInputBuffer (int defaultBufferSize) (Some (l, nonce))),
           n_ob := (n_ob n)(n_obNext n := ob_Grow pb (NewOutputBuffer (l, nonce))),
           n_sess := (n_sess n)(n_sessNext n := created_session fresh l nonce rid sid q out n)\<rparr>))"
  using assms(2)
  by (simp add: createSession_def sset_law [OF assms(1)] Let_def upd_sessions_def upd_link_def
      upd_sess_def upd_ob_def alloc_ib_def alloc_ob_def session_Setup_def newSession_def
      writer_Grow_def newSessionWriter_def created_session_def)

lemma sess_ok_Suc: "sess_ok a b x \<Longrightarrow> sess_ok (Suc a) (Suc b) x"
  by (auto simp: sess_ok_def less_Suc_eq)

lemma sess_ok_created: "sess_ok (Suc (n_ibNext n)) (Suc (n_obNext n)) (created_session fresh l nonce rid sid q out n)"
  by (simp add: sess_ok_def created_session_def newSession_def newSessionReader_def newSessionWriter_def)

lemma reg_ok_created: "reg_ok l nonce (created_session fresh l nonce rid sid q out n)"
  by (simp add: reg_ok_def created_session_def newSession_def)

lemma next_unregistered: "node_inv n \<Longrightarrow> mux_sessions n l k \<noteq> Some (n_sessNext n)"
  using node_invD(4) [of n l k "n_sessNext n"] by blast

lemma inv_createSession:
  assumes "node_inv n" and "set_law sset"
  shows "node_inv (snd (createSession sset fresh l nonce rid sid q out pb n))"
proof (cases "mux_sessions n l nonce")
  case None
  show ?thesis
    unfolding createSession_new [OF assms(2) None] node_inv_def
    using node_invD [OF assms(1)] next_unregistered [OF assms(1)]
    by (auto simp: less_Suc_eq ib_inv_New ob_inv_New ob_inv_Grow sess_ok_created reg_ok_created
        intro!: sess_ok_Suc split: if_splits)
next
  case (Some x)
  have "sess_ok (n_ibNext n) (n_obNext n) (newSession fresh nonce rid sid q out (n_now n))"
    by (simp add: sess_ok_def newSession_def)
  then show ?thesis
    unfolding createSession_exists [OF assms(2) Some] node_inv_def
    using node_invD [OF assms(1)] next_unregistered [OF assms(1)] by (auto simp: less_Suc_eq)
qed

end
