(* ===== verification/Muxing.thy ===== *)
theory Muxing
  imports Session_Store
begin

section \<open>The mux of a link (\<open>mux.go\<close>)\<close>

text \<open>
  The frame handlers and the two directions of a query.  A handler that runs on the read loop
  is one function on the store.  \<open>RouteQuery\<close> and \<open>handleInboundQuery\<close> wait in the middle,
  and are split there: at the \<open>select\<close> for the peer's verdict, and at the call of the local
  router, whose answer is an argument.  Whether \<open>Auth\<close> admits a relay is an argument too.
\<close>

subsection \<open>Outbound queries\<close>

record 'id query =
  q_Nonce :: nonce
  q_Caller :: "'id option"
  q_Target :: "'id option"
  q_QueryString :: bytes

datatype reject_code = CodeInvalidQuery | Code "8 word"

datatype route_out =
    Rejected reject_code
  | RouteNotFound
  | RouteErr nodes_err
  | RouteWaiting nat
  | RouteOpen nat

definition query_frame_of :: "'id option \<Rightarrow> 'id query \<Rightarrow> 'id frame" where
  "query_frame_of ctxIdentity q =
     (let f = \<lparr>query_Nonce = q_Nonce q, query_Buffer = of_nat defaultBufferSize,
               query_Query = q_QueryString q\<rparr>
      in (if q_Caller q = ctxIdentity then Query f
          else RelayQuery \<lparr>relay_CallerID = q_Caller q, relay_TargetID = q_Target q,
                           relay_Query = f\<rparr>))"

definition RouteQuery_start ::
  "map_set \<Rightarrow> nonce \<Rightarrow> 'id option \<Rightarrow> nat \<Rightarrow> 'id query \<Rightarrow> 'id node \<Rightarrow> route_out \<times> 'id node" where
  "RouteQuery_start sset fresh ctxIdentity l q n =
     (let sourceID = (if q_Caller q = ctxIdentity then None
                      else Some (remoteIdentity (lk_mux (n_links n l))))
      in (if length (q_QueryString q) > 65535 then (Rejected CodeInvalidQuery, n)
          else (let (conn, n1) = createSession sset fresh l (q_Nonce q) (q_Target q) sourceID
                                   (q_QueryString q) True 0 n
                in (case conn of
                      None \<Rightarrow> (RouteNotFound, n1)
                    | Some s \<Rightarrow>
                        (let (err, n2) = mux_Send l (query_frame_of ctxIdentity q) n1
                         in (case err of
                               Some e \<Rightarrow> (RouteErr e, session_Close s n2)
                             | None \<Rightarrow> (RouteWaiting s, n2)))))))"

text \<open>The \<open>select\<close>: the verdict has come (the case is ready only then), or the context ended.\<close>

definition RouteQuery_verdict :: "nat \<Rightarrow> 'id node \<Rightarrow> (route_out \<times> 'id node) option" where
  "RouteQuery_verdict s n =
     (case s_routingResult (n_sess n s) of
        [] \<Rightarrow> None
      | errCode # rest \<Rightarrow>
          (let n1 = upd_sess s (\<lambda>x. x\<lparr>s_routingResult := rest\<rparr>) n
           in Some (if errCode \<noteq> 0
                    then (Rejected (Code errCode), session_Close s (writer_PeerClose s n1))
                    else (RouteOpen s, n1))))"

definition RouteQuery_cancel :: "nat \<Rightarrow> 'id node \<Rightarrow> route_out \<times> 'id node" where
  "RouteQuery_cancel s n = (RouteNotFound, session_Close s n)"

subsection \<open>Inbound queries\<close>

datatype verdict = Routed | RouteError "8 word option" | NoRouter

text \<open>Up to the call of the router; \<open>None\<close> when the nonce is taken.\<close>

definition inbound_begin ::
  "map_set \<Rightarrow> nonce \<Rightarrow> nat \<Rightarrow> nonce \<Rightarrow> 'id option \<Rightarrow> 'id option \<Rightarrow> bytes \<Rightarrow> nat \<Rightarrow>
     'id node \<Rightarrow> nat option \<times> 'id node" where
  "inbound_begin sset fresh l linkNonce caller relayID queryStr initBuffer n =
     createSession sset fresh l linkNonce caller relayID queryStr False initBuffer n"

definition response :: "nonce \<Rightarrow> 8 word \<Rightarrow> 32 word \<Rightarrow> 'id frame" where
  "response nonce code buffer =
     Response \<lparr>response_Nonce = nonce, response_ErrCode = code, response_Buffer = buffer\<rparr>"

fun inbound_finish :: "nat \<Rightarrow> nonce \<Rightarrow> nat \<Rightarrow> verdict \<Rightarrow> 'id node \<Rightarrow> 'id node" where
  "inbound_finish l linkNonce s NoRouter n =
     session_Close s (snd (mux_Send l (response linkNonce CodeRejected 0) n))"
| "inbound_finish l linkNonce s (RouteError reject) n =
     (let code = (case reject of None \<Rightarrow> CodeRejected | Some c \<Rightarrow> c)
      in session_Close s (snd (mux_Send l (response linkNonce code 0) n)))"
| "inbound_finish l linkNonce s Routed n =
     session_Open s
       (snd (mux_Send l (response linkNonce CodeAccepted (of_nat defaultBufferSize))
          (setState s stateOpen n)))"

definition handleInboundQuery ::
  "map_set \<Rightarrow> nonce \<Rightarrow> (nat \<Rightarrow> 'id node \<Rightarrow> verdict) \<Rightarrow> nat \<Rightarrow> nonce \<Rightarrow> 'id option \<Rightarrow> 'id option \<Rightarrow>
     bytes \<Rightarrow> nat \<Rightarrow> 'id node \<Rightarrow> 'id node" where
  "handleInboundQuery sset fresh router l linkNonce caller relayID queryStr initBuffer n =
     (case inbound_begin sset fresh l linkNonce caller relayID queryStr initBuffer n of
        (None, n1) \<Rightarrow> n1
      | (Some s, n1) \<Rightarrow> inbound_finish l linkNonce s (router s n1) n1)"

definition handleQuery ::
  "map_set \<Rightarrow> nonce \<Rightarrow> (nat \<Rightarrow> 'id node \<Rightarrow> verdict) \<Rightarrow> nat \<Rightarrow> query_frame \<Rightarrow> 'id node \<Rightarrow> 'id node" where
  "handleQuery sset fresh router l f n =
     handleInboundQuery sset fresh router l (query_Nonce f)
       (Some (remoteIdentity (lk_mux (n_links n l)))) None (query_Query f) (unat (query_Buffer f)) n"

definition relay_admitted :: "('id option \<Rightarrow> bool) \<Rightarrow> nat \<Rightarrow> 'id relay_frame \<Rightarrow> 'id node \<Rightarrow> bool" where
  "relay_admitted authorize l f n \<longleftrightarrow>
     relay_CallerID f = Some (remoteIdentity (lk_mux (n_links n l))) \<or> authorize (relay_CallerID f)"

definition handleRelayQuery ::
  "map_set \<Rightarrow> nonce \<Rightarrow> ('id option \<Rightarrow> bool) \<Rightarrow> (nat \<Rightarrow> 'id node \<Rightarrow> verdict) \<Rightarrow> nat \<Rightarrow> 'id relay_frame \<Rightarrow>
     'id node \<Rightarrow> 'id node" where
  "handleRelayQuery sset fresh authorize router l f n =
     (if \<not> relay_admitted authorize l f n
      then snd (mux_Send l (response (query_Nonce (relay_Query f)) CodeRejected 0) n)
      else handleInboundQuery sset fresh router l (query_Nonce (relay_Query f)) (relay_CallerID f)
             (Some (remoteIdentity (lk_mux (n_links n l)))) (query_Query (relay_Query f))
             (unat (query_Buffer (relay_Query f))) n)"

subsection \<open>The handlers of the read loop\<close>

definition handleResponse :: "nat \<Rightarrow> response_frame \<Rightarrow> 'id node \<Rightarrow> 'id node" where
  "handleResponse l f n =
     (case mux_sessions n l (response_Nonce f) of
        None \<Rightarrow> n
      | Some s \<Rightarrow>
          (let x = n_sess n s; remote = remoteIdentity (lk_mux (n_links n l)) in
           if s_SourceIdentity x \<noteq> None \<and> s_SourceIdentity x \<noteq> Some remote then n
           else if s_SourceIdentity x = None \<and> s_RemoteIdentity x \<noteq> Some remote then n
           else if response_ErrCode f \<noteq> 0
             then (let (ok, n1) = swapState s stateRouting stateClosed n
                   in (if \<not> ok then n1
                       else upd_sess s (\<lambda>x. x\<lparr>s_routingResult :=
                              s_routingResult x @ [response_ErrCode f]\<rparr>) n1))
           else (let (ok, n1) = swapState s stateRouting stateOpen n
                 in (if \<not> ok then n1
                     else (let n2 = (case s_writer x of
                                       None \<Rightarrow> n1
                                     | Some w \<Rightarrow> writer_Grow w (unat (response_Buffer f)) n1)
                           in upd_sess s (\<lambda>x. x\<lparr>s_routingResult := s_routingResult x @ [0]\<rparr>)
                                (session_Open s n2))))))"

definition handleData :: "nat \<Rightarrow> data_frame \<Rightarrow> 'id node \<Rightarrow> 'id node" where
  "handleData l f n =
     (case mux_sessions n l (data_Nonce f) of
        None \<Rightarrow> snd (mux_Send l (Reset \<lparr>reset_Nonce = data_Nonce f\<rparr>) n)
      | Some s \<Rightarrow>
          (if getState s n \<notin> {stateOpen, stateMigrating}
           then snd (mux_Send l (Reset \<lparr>reset_Nonce = data_Nonce f\<rparr>) n)
           else (let n1 = upd_link l (lk_onBytes (length (data_Payload f)) (n_now n)) n
                 in (case s_reader (n_sess n s) of
                       None \<Rightarrow> n1
                     | Some r \<Rightarrow>
                         (let (err, n2) = reader_Push r (data_Payload f) n1
                          in (if err \<noteq> None then session_Close s n2 else n2))))))"

definition handleRead :: "nat \<Rightarrow> read_frame \<Rightarrow> 'id node \<Rightarrow> 'id node" where
  "handleRead l f n =
     (case mux_sessions n l (read_Nonce f) of
        None \<Rightarrow> snd (mux_Send l (Reset \<lparr>reset_Nonce = read_Nonce f\<rparr>) n)
      | Some s \<Rightarrow>
          (case s_writer (n_sess n s) of
             None \<Rightarrow> n
           | Some w \<Rightarrow> writer_Grow w (unat (read_Len f)) n))"

definition handleReset :: "nat \<Rightarrow> reset_frame \<Rightarrow> 'id node \<Rightarrow> 'id node" where
  "handleReset l f n =
     (case mux_sessions n l (reset_Nonce f) of
        None \<Rightarrow> n
      | Some s \<Rightarrow> session_Close s (writer_PeerClose s n))"

definition handlePing :: "nat \<Rightarrow> ping_frame \<Rightarrow> 'id node \<Rightarrow> 'id node" where
  "handlePing l f n =
     (if ping_Pong f then upd_link l (\<lambda>k. snd (pong (ping_Nonce f) (n_now n) k)) n
      else snd (mux_Send l (Ping \<lparr>ping_Nonce = ping_Nonce f, ping_Pong = True\<rparr>) n))"

definition handleMigrate :: "nat \<Rightarrow> migrate_frame \<Rightarrow> 'id node \<Rightarrow> 'id node" where
  "handleMigrate l f n =
     (case mux_sessions n l (migrate_Nonce f) of
        None \<Rightarrow> n
      | Some s \<Rightarrow>
          (if getState s n \<noteq> stateMigrating then n
           else (case s_reader (n_sess n s) of
                   None \<Rightarrow> n
                 | Some r \<Rightarrow> reader_Advance s r n)))"

text \<open>
  The dispatch.  A received object is a frame or something else; query frames are left to a
  goroutine of their own, which the result names.
\<close>

datatype 'id spawned = NoSpawn | SpawnQuery query_frame | SpawnRelay "'id relay_frame"

fun Handle :: "nat \<Rightarrow> 'id frame option \<Rightarrow> 'id node \<Rightarrow> nodes_err option \<times> 'id spawned \<times> 'id node" where
  "Handle l None n = (Some (ErrMsg ''unknown object type''), NoSpawn, n)"
| "Handle l (Some (Query f)) n = (None, SpawnQuery f, n)"
| "Handle l (Some (RelayQuery f)) n = (None, SpawnRelay f, n)"
| "Handle l (Some (Response f)) n = (None, NoSpawn, handleResponse l f n)"
| "Handle l (Some (Ping f)) n = (None, NoSpawn, handlePing l f n)"
| "Handle l (Some (Data f)) n = (None, NoSpawn, handleData l f n)"
| "Handle l (Some (Reset f)) n = (None, NoSpawn, handleReset l f n)"
| "Handle l (Some (Read f)) n = (None, NoSpawn, handleRead l f n)"
| "Handle l (Some (Migrate f)) n = (None, NoSpawn, handleMigrate l f n)"

definition SetRouter :: "nat \<Rightarrow> 'id node \<Rightarrow> 'id node" where
  "SetRouter l n =
     (if routerOnce (lk_mux (n_links n l)) then n
      else upd_link l (\<lambda>k. k\<lparr>lk_mux := (lk_mux k)\<lparr>routerOnce := True\<rparr>\<rparr>) n)"

text \<open>\<open>waitRouter\<close> returns the router once it is set; until then it waits.\<close>

definition waitRouter :: "nat \<Rightarrow> 'id node \<Rightarrow> bool" where
  "waitRouter l n = routerOnce (lk_mux (n_links n l))"

subsection \<open>The handlers keep the invariant\<close>

lemma inv_swapState: "node_inv n \<Longrightarrow> new \<noteq> stateRouting \<Longrightarrow> node_inv (snd (swapState s old new n))"
  by (simp add: swapState_def inv_setState)

text \<open>A verdict is delivered in a state other than routing, to a channel that is empty.\<close>

lemma inv_deliver:
  assumes "node_inv n" and "s_routingResult (n_sess n s) = []" and "s_state (n_sess n s) \<noteq> stateRouting"
  shows "node_inv (upd_sess s (\<lambda>x. x\<lparr>s_routingResult := s_routingResult x @ [c]\<rparr>) n)"
  using assms by (intro inv_upd_sess) (auto simp: sess_ok_def reg_ok_def)

lemma inv_routing_empty:
  assumes "node_inv n" and "s < n_sessNext n" and "s_state (n_sess n s) = stateRouting"
  shows "s_routingResult (n_sess n s) = []"
  using node_invD(3) [OF assms(1,2)] assms(3) by (auto simp: sess_ok_def)

lemma inv_handleResponse:
  assumes "node_inv n"
  shows "node_inv (handleResponse l f n)"
proof (cases "mux_sessions n l (response_Nonce f)")
  case (Some s)
  have "s_routingResult (n_sess n s) = []" if "s_state (n_sess n s) = stateRouting"
    using inv_routing_empty [OF assms node_invD(4) [OF assms Some] that] .
  then have "node_inv (upd_sess s (\<lambda>x. x\<lparr>s_routingResult := s_routingResult x @ [c]\<rparr>)
       (setState s stateClosed n))"
    and "node_inv (upd_sess s (\<lambda>x. x\<lparr>s_routingResult := s_routingResult x @ [c]\<rparr>)
       (session_Open s (setState s stateOpen n)))"
    and "node_inv (upd_sess s (\<lambda>x. x\<lparr>s_routingResult := s_routingResult x @ [c]\<rparr>)
       (session_Open s (writer_Grow w k (setState s stateOpen n))))"
    if "s_state (n_sess n s) = stateRouting" for c w k
    using assms that
    by (intro inv_deliver inv_session_Open inv_writer_Grow inv_setState;
        simp add: setState_def session_Open_def writer_Grow_def)+
  then show ?thesis
    using assms
    by (auto simp: handleResponse_def Some Let_def swapState_def split: option.split)
qed (simp add: handleResponse_def assms)

lemma inv_upd_onBytes: "node_inv n \<Longrightarrow> node_inv (upd_link l (lk_onBytes k t) n)"
  using same_store_inv [OF lk_onBytes_store] by blast

lemma inv_handleData: "node_inv n \<Longrightarrow> node_inv (handleData l f n)"
  by (auto simp: handleData_def Let_def case_prod_beta split: option.split
      intro!: inv_mux_Send inv_session_Close inv_reader_Push inv_upd_onBytes)

lemma inv_handleRead: "node_inv n \<Longrightarrow> node_inv (handleRead l f n)"
  by (auto simp: handleRead_def split: option.split intro!: inv_mux_Send inv_writer_Grow)

lemma inv_handleReset: "node_inv n \<Longrightarrow> node_inv (handleReset l f n)"
  by (auto simp: handleReset_def split: option.split intro!: inv_session_Close inv_writer_PeerClose)

lemma pong_mux [simp]: "lk_mux (snd (pong nonce t k)) = lk_mux k"
  by (simp add: pong_def Let_def split: option.split)

lemma inv_handlePing: "node_inv n \<Longrightarrow> node_inv (handlePing l f n)"
  by (auto simp: handlePing_def intro!: inv_mux_Send inv_upd_link)

lemma inv_handleMigrate: "node_inv n \<Longrightarrow> node_inv (handleMigrate l f n)"
  by (auto simp: handleMigrate_def split: option.split intro!: inv_reader_Advance
      dest: node_invD(4))

lemma inv_Handle: "node_inv n \<Longrightarrow> node_inv (snd (snd (Handle l f n)))"
  by (cases "(l, f, n)" rule: Handle.cases)
    (auto intro: inv_handleResponse inv_handlePing inv_handleData inv_handleReset inv_handleRead
      inv_handleMigrate)

lemma inv_RouteQuery_start:
  "node_inv n \<Longrightarrow> set_law sset \<Longrightarrow> node_inv (snd (RouteQuery_start sset fresh ctx l q n))"
  by (auto simp: RouteQuery_start_def Let_def case_prod_beta split: option.split
      intro!: inv_session_Close inv_mux_Send inv_createSession)

lemma inv_RouteQuery_verdict:
  assumes "node_inv n" and "RouteQuery_verdict s n = Some r"
  shows "node_inv (snd r)"
proof -
  have "node_inv (upd_sess s (\<lambda>x. x\<lparr>s_routingResult := rest\<rparr>) n)"
    if "s_routingResult (n_sess n s) = c # rest" for c rest
    using assms(1) that by (intro inv_upd_sess) (auto simp: sess_ok_def reg_ok_def)
  then show ?thesis
    using assms
    by (auto simp: RouteQuery_verdict_def Let_def split: list.splits
        intro!: inv_session_Close inv_writer_PeerClose)
qed

lemma inv_inbound_begin:
  "node_inv n \<Longrightarrow> set_law sset \<Longrightarrow> node_inv (snd (inbound_begin sset fresh l nonce caller relay q b n))"
  unfolding inbound_begin_def by (rule inv_createSession)

lemma inv_inbound_finish: "node_inv n \<Longrightarrow> node_inv (inbound_finish l nonce s v n)"
  by (cases v) (auto simp: Let_def intro!: inv_session_Close inv_mux_Send inv_session_Open inv_setState)

lemma inv_SetRouter: "node_inv n \<Longrightarrow> node_inv (SetRouter l n)"
  by (auto simp: SetRouter_def intro: inv_upd_link)

subsection \<open>The frames an operation sends\<close>

definition frames_sent :: "'id node \<Rightarrow> nat \<Rightarrow> 'id frame list" where
  "frames_sent n l = map fst (ch_log (lk_ch (n_links n l)))"

lemma frames_sent_upd [simp]:
  "frames_sent (upd_sess s f n) k = frames_sent n k"
  "frames_sent (upd_ib a g n) k = frames_sent n k"
  "frames_sent (upd_ob b h n) k = frames_sent n k"
  "frames_sent (upd_reader s f' n) k = frames_sent n k"
  "frames_sent (upd_writer s f'' n) k = frames_sent n k"
  "frames_sent (upd_sessions l g' n) k = frames_sent n k"
  "frames_sent (upd_link l (lk_onBytes j t) n) k = frames_sent n k"
  "frames_sent (n\<lparr>n_now := v1\<rparr>) k = frames_sent n k"
  "frames_sent (n\<lparr>n_pool := v2\<rparr>) k = frames_sent n k"
  by (simp_all add: frames_sent_def lk_onBytes_def)

lemma frames_sent_Send [simp]:
  "frames_sent (snd (mux_Send l f n)) k = frames_sent n k @ (if k = l then [f] else [])"
  by (simp add: frames_sent_def mux_Send_def lk_Send_def ch_Send_def Let_def)

lemma frames_sent_reset [simp]:
  "frames_sent (run_reset c n) k =
     frames_sent n k @ (if k = fst c then [Reset \<lparr>reset_Nonce = snd c\<rparr>] else [])"
  by (simp add: run_reset_def)

lemma frames_sent_quiet [simp]:
  "frames_sent (reader_Close s n) k = frames_sent n k"
  "frames_sent (writer_PeerClose s n) k = frames_sent n k"
  "frames_sent (writer_Grow w j n) k = frames_sent n k"
  "frames_sent (run_onClose c n) k = frames_sent n k"
  "frames_sent (setState s st n) k = frames_sent n k"
  "frames_sent (session_Open s n) k = frames_sent n k"
  "frames_sent (snd (push_to a p n)) k = frames_sent n k"
  "frames_sent (snd (reader_Push r p n)) k = frames_sent n k"
  "frames_sent (reader_Advance s r n) k = frames_sent n k"
  by (simp_all add: reader_Close_def writer_PeerClose_def writer_Grow_def run_onClose_def
      setState_def session_Open_def push_to_def reader_Push_def reader_Advance_def promote_def
      Let_def split: option.split)

text \<open>The \<open>Reset\<close> that closing a writer owes its peer, on the link \<open>k\<close>.\<close>

definition reset_of :: "'id session \<Rightarrow> nat \<Rightarrow> 'id frame list" where
  "reset_of x k =
     (case s_writer x of
        None \<Rightarrow> []
      | Some w \<Rightarrow>
          (if w_closed w then []
           else (case w_reset w of
                   None \<Rightarrow> []
                 | Some c \<Rightarrow> (if k = fst c then [Reset \<lparr>reset_Nonce = snd c\<rparr>] else []))))"

lemma frames_sent_writer_Close:
  "frames_sent (writer_Close s n) k = frames_sent n k @ reset_of (n_sess n s) k"
  by (simp add: writer_Close_def reset_of_def Let_def split: option.split)

lemma frames_sent_Close:
  "frames_sent (session_Close s n) k =
     frames_sent n k @ (if s_closed (n_sess n s) then [] else reset_of (n_sess n s) k)"
  by (auto simp: session_Close_def Let_def frames_sent_writer_Close reset_of_def run_onClose_def
      split: option.split)

lemma frames_sent_create [simp]:
  "set_law sset \<Longrightarrow>
   frames_sent (snd (createSession sset fresh l nonce rid sid q out pb n)) k = frames_sent n k"
  by (cases "mux_sessions n l nonce")
    (simp_all add: createSession_new createSession_exists frames_sent_def)

end
