(* ===== verification/Migration.thy ===== *)
theory Migration
  imports Muxing
begin

section \<open>Moving a session to another link (\<open>session_migrator.go\<close>, \<open>migrate_session.go\<close>, \<open>op_migrate_session.go\<close>)\<close>

text \<open>
  The migrator, the two sides of the signal exchange, and the checks of the operation that
  starts it.  The channel the signals travel on is a query session of its own; what its
  calls answer are arguments.  Each side is split at its waits, so that frames may be handled
  in between.
\<close>

subsection \<open>Finding sessions and links (\<open>module.go\<close>)\<close>

definition getLinkByID :: "nonce \<Rightarrow> 'id node \<Rightarrow> nat option" where
  "getLinkByID i n = find (\<lambda>l. lk_id (n_links n l) = i) (n_pool n)"

definition getSessionLink :: "nonce \<Rightarrow> 'id node \<Rightarrow> nat option" where
  "getSessionLink nonce n = find (\<lambda>l. mux_sessions n l nonce \<noteq> None) (n_pool n)"

definition getSession :: "nonce \<Rightarrow> 'id node \<Rightarrow> nat option" where
  "getSession nonce n =
     (case find (\<lambda>l. mux_sessions n l nonce \<noteq> None) (n_pool n) of
        None \<Rightarrow> None
      | Some l \<Rightarrow> mux_sessions n l nonce)"

subsection \<open>The migrator\<close>

record migrator =
  m_session :: nat
  m_peerBuffer :: nat
  m_oldLink :: "nat option"
  m_newLink :: "nat option"
  m_oldInputBuffer :: "nat option"

definition newSessionMigrator :: "nat \<Rightarrow> 'id node \<Rightarrow> nodes_err + migrator" where
  "newSessionMigrator s n =
     (if s_reader (n_sess n s) = None then Inl ErrMigrationNotSupported
      else if s_writer (n_sess n s) = None then Inl ErrMigrationNotSupported
      else Inr \<lparr>m_session = s, m_peerBuffer = 0, m_oldLink = None, m_newLink = None,
                m_oldInputBuffer = None\<rparr>)"

text \<open>
  \<open>Begin\<close>.  Its last statement reads \<open>m.oldLink.id\<close>, which panics when the session is on no
  link of the pool.
\<close>

datatype begin_out = BeginErr nodes_err | BeginOk migrator | BeginPanic

definition Begin :: "nat \<Rightarrow> migrator \<Rightarrow> 'id node \<Rightarrow> begin_out \<times> 'id node" where
  "Begin target m n =
     (let s = m_session m;
          (ok, n1) = swapState s stateOpen stateMigrating n
      in (if \<not> ok then (BeginErr ErrInvalidSessionState, n1)
          else (let x = n_sess n1 s;
                    nonce = s_Nonce x;
                    old = getSessionLink nonce n1;
                    n2 = writer_Pause s n1;
                    oldIB = map_option r_buf (s_reader x);
                    (ib, n3) = alloc_ib (NewInputBuffer (int defaultBufferSize) (Some (target, nonce))) n2;
                    (ob, n4) = alloc_ob (NewOutputBuffer (target, nonce)) n3;
                    n5 = (case s_writer (n_sess n4 s) of
                            None \<Rightarrow> n4
                          | Some w \<Rightarrow> writer_SwapBuf s w ob (Some (target, nonce)) n4);
                    n6 = reader_SetNextBuffer s ib n5;
                    m' = m\<lparr>m_oldLink := old, m_newLink := Some target, m_oldInputBuffer := oldIB\<rparr>
                in (if old = None then (BeginPanic, n6) else (BeginOk m', n6)))))"

definition SendMigrateFrame :: "nat \<Rightarrow> nonce \<Rightarrow> 'id node \<Rightarrow> nodes_err option \<times> 'id node" where
  "SendMigrateFrame l nonce n = mux_Send l (Migrate \<lparr>migrate_Nonce = nonce\<rparr>) n"

definition m_SendMigrateFrame :: "migrator \<Rightarrow> 'id node \<Rightarrow> nodes_err option \<times> 'id node" where
  "m_SendMigrateFrame m n =
     SendMigrateFrame (the (m_oldLink m)) (s_Nonce (n_sess n (m_session m))) n"

text \<open>\<open>WaitClosed\<close> returns once the old input buffer is shut, or with the context's error.\<close>

definition WaitClosed_ready :: "migrator \<Rightarrow> 'id node \<Rightarrow> bool" where
  "WaitClosed_ready m n = ib_shut (n_ib n (the (m_oldInputBuffer m)))"

definition SetPeerBuffer :: "nat \<Rightarrow> migrator \<Rightarrow> migrator" where
  "SetPeerBuffer k m = m\<lparr>m_peerBuffer := k\<rparr>"

definition reattach :: "map_set \<Rightarrow> migrator \<Rightarrow> 'id node \<Rightarrow> nodes_err option \<times> 'id node" where
  "reattach sset m n =
     (case (m_oldLink m, m_newLink m) of
        (Some old, Some new) \<Rightarrow>
          (if old = new then (None, n)
           else (case removeSession old (s_Nonce (n_sess n (m_session m))) n of
                   (Inl e, n1) \<Rightarrow> (Some e, n1)
                 | (Inr sess, n1) \<Rightarrow> addSession sset new sess n1))
      | _ \<Rightarrow> (None, n))"

definition Complete :: "map_set \<Rightarrow> migrator \<Rightarrow> 'id node \<Rightarrow> nodes_err option \<times> 'id node" where
  "Complete sset m n =
     (let (err, n1) = reattach sset m n; s = m_session m
      in (if err \<noteq> None then (err, n1)
          else (let n2 = setState s stateOpen n1;
                    n3 = (case s_writer (n_sess n2 s) of
                            None \<Rightarrow> n2
                          | Some w \<Rightarrow> writer_Grow w (m_peerBuffer m) n2)
                in (None, writer_Resume s n3))))"

subsection \<open>The initiator\<close>

datatype mig_out = MigErr nodes_err | MigPanic | MigNext migrator | MigDone

text \<open>The deferred close on an error.\<close>

definition mig_fail :: "nat \<Rightarrow> nodes_err \<Rightarrow> 'id node \<Rightarrow> mig_out \<times> 'id node" where
  "mig_fail s e n = (MigErr e, session_Close s n)"

text \<open>Up to the wait for the peer's \<open>switched\<close>; \<open>sendErr\<close> is the error of sending \<open>ready\<close>.\<close>

definition initiate_begin ::
  "nat \<Rightarrow> nat \<Rightarrow> nodes_err option \<Rightarrow> 'id node \<Rightarrow> mig_out \<times> 'id node" where
  "initiate_begin s target sendErr n =
     (case newSessionMigrator s n of
        Inl e \<Rightarrow> (MigErr e, n)
      | Inr m \<Rightarrow>
          (case Begin target m n of
             (BeginErr e, n1) \<Rightarrow> (MigErr e, n1)
           | (BeginPanic, n1) \<Rightarrow> (MigPanic, n1)
           | (BeginOk m', n1) \<Rightarrow>
               (case sendErr of Some e \<Rightarrow> mig_fail s e n1 | None \<Rightarrow> (MigNext m', n1))))"

definition initiate_switched ::
  "nodes_err + 32 word \<Rightarrow> migrator \<Rightarrow> 'id node \<Rightarrow> mig_out \<times> 'id node" where
  "initiate_switched recv m n =
     (case recv of
        Inl e \<Rightarrow> mig_fail (m_session m) e n
      | Inr peerBuffer \<Rightarrow>
          (let m' = SetPeerBuffer (unat peerBuffer) m;
               (err, n1) = m_SendMigrateFrame m' n
           in (case err of Some e \<Rightarrow> mig_fail (m_session m) e n1 | None \<Rightarrow> (MigNext m', n1))))"

definition initiate_closed ::
  "nodes_err option \<Rightarrow> nodes_err option \<Rightarrow> migrator \<Rightarrow> 'id node \<Rightarrow> mig_out \<times> 'id node" where
  "initiate_closed wait sendErr m n =
     (case wait of
        Some e \<Rightarrow> mig_fail (m_session m) e n
      | None \<Rightarrow> (case sendErr of Some e \<Rightarrow> mig_fail (m_session m) e n | None \<Rightarrow> (MigNext m, n)))"

definition initiate_done ::
  "map_set \<Rightarrow> nodes_err option \<Rightarrow> migrator \<Rightarrow> 'id node \<Rightarrow> mig_out \<times> 'id node" where
  "initiate_done sset recv m n =
     (case recv of
        Some e \<Rightarrow> mig_fail (m_session m) e n
      | None \<Rightarrow>
          (let (err, n1) = Complete sset m n
           in (case err of Some e \<Rightarrow> mig_fail (m_session m) e n1 | None \<Rightarrow> (MigDone, n1))))"

subsection \<open>The responder\<close>

text \<open>Up to the wait for the old buffer: \<open>recv\<close> is the peer's \<open>ready\<close>, \<open>sendErr\<close> the error of sending \<open>switched\<close>.\<close>

definition accept_begin ::
  "nat \<Rightarrow> nat \<Rightarrow> nodes_err + 32 word \<Rightarrow> nodes_err option \<Rightarrow> 'id node \<Rightarrow> mig_out \<times> 'id node" where
  "accept_begin s target recv sendErr n =
     (case newSessionMigrator s n of
        Inl e \<Rightarrow> (MigErr e, n)
      | Inr m \<Rightarrow>
          (case recv of
             Inl e \<Rightarrow> (MigErr e, n)
           | Inr peerBuffer \<Rightarrow>
               (case Begin target (SetPeerBuffer (unat peerBuffer) m) n of
                  (BeginErr e, n1) \<Rightarrow> (MigErr e, n1)
                | (BeginPanic, n1) \<Rightarrow> (MigPanic, n1)
                | (BeginOk m', n1) \<Rightarrow>
                    (let (err, n2) = m_SendMigrateFrame m' n1
                     in (case err of
                           Some e \<Rightarrow> mig_fail s e n2
                         | None \<Rightarrow>
                             (case sendErr of Some e \<Rightarrow> mig_fail s e n2 | None \<Rightarrow> (MigNext m', n2)))))))"

definition respond_closed :: "nodes_err option \<Rightarrow> migrator \<Rightarrow> 'id node \<Rightarrow> mig_out \<times> 'id node" where
  "respond_closed wait m n =
     (case wait of Some e \<Rightarrow> mig_fail (m_session m) e n | None \<Rightarrow> (MigNext m, n))"

definition respond_resume ::
  "map_set \<Rightarrow> nodes_err option \<Rightarrow> nodes_err option \<Rightarrow> migrator \<Rightarrow> 'id node \<Rightarrow> mig_out \<times> 'id node" where
  "respond_resume sset recv sendErr m n =
     (case recv of
        Some e \<Rightarrow> mig_fail (m_session m) e n
      | None \<Rightarrow>
          (let (err, n1) = Complete sset m n
           in (case err of
                 Some e \<Rightarrow> mig_fail (m_session m) e n1
               | None \<Rightarrow>
                   (case sendErr of Some e \<Rightarrow> mig_fail (m_session m) e n1 | None \<Rightarrow> (MigDone, n1)))))"

subsection \<open>The operation's checks\<close>

definition ErrNotPermitted :: nodes_err where "ErrNotPermitted = ErrMsg ''not permitted''"

definition OpMigrateSession_check ::
  "bool \<Rightarrow> bool \<Rightarrow> 'id \<Rightarrow> nonce \<Rightarrow> nonce \<Rightarrow> 'id node \<Rightarrow> nodes_err + nat \<times> nat" where
  "OpMigrateSession_check authorized start caller sessionID linkID n =
     (if \<not> authorized then Inl ErrNotPermitted
      else (case getSession sessionID n of
        None \<Rightarrow> Inl ErrSessionNotFound
      | Some s \<Rightarrow>
          (case getSessionLink (s_Nonce (n_sess n s)) n of
             None \<Rightarrow> Inl ErrLinkNotFound
           | Some l \<Rightarrow>
               (if \<not> start \<and> caller \<noteq> remoteIdentity (lk_mux (n_links n l)) then Inl ErrNotPermitted
                else if \<not> IsOpen s n then Inl ErrInvalidSessionState
                else (case getLinkByID linkID n of
                        None \<Rightarrow> Inl ErrLinkNotFound
                      | Some t \<Rightarrow>
                          (if lk_id (n_links n l) = lk_id (n_links n t) then Inl ErrSessionAlreadyOnLink
                           else Inr (s, t)))))))"

subsection \<open>Automatic migration (\<open>connectivity_upgrade.go\<close>)\<close>

definition minSessionAge :: int where "minSessionAge = 30 * 1000000000"

definition minSessionBytes :: "64 word" where "minSessionBytes = 1 * 1024 * 1024"

definition canAutoMigrate :: "int \<Rightarrow> 'id session \<Rightarrow> bool" where
  "canAutoMigrate now x \<longleftrightarrow> now - s_createdAt x \<ge> minSessionAge \<or> s_bytes x \<ge> minSessionBytes"

text \<open>The sessions to move off a link: the entries of its mux, in the order given, that qualify.\<close>

definition migratable :: "nonce list \<Rightarrow> nat \<Rightarrow> 'id node \<Rightarrow> nat list" where
  "migratable keys l n =
     filter (\<lambda>s. IsOpen s n \<and> canAutoMigrate (n_now n) (n_sess n s))
       (List.map_filter (mux_sessions n l) keys)"

subsection \<open>Migration keeps the invariant of the store\<close>

definition mig_ok :: "migrator \<Rightarrow> 'id node \<Rightarrow> bool" where
  "mig_ok m n \<longleftrightarrow> m_session m < n_sessNext n"

lemma inv_alloc_ib: "node_inv n \<Longrightarrow> ib_inv b \<Longrightarrow> node_inv (snd (alloc_ib b n))"
  by (auto simp: node_inv_def alloc_ib_def less_Suc_eq sess_ok_def)

lemma inv_alloc_ob: "node_inv n \<Longrightarrow> ob_inv b \<Longrightarrow> node_inv (snd (alloc_ob b n))"
  by (auto simp: node_inv_def alloc_ob_def less_Suc_eq sess_ok_def)

lemma alloc_frame [simp]:
  "fst (alloc_ib b n) = n_ibNext n" "n_ibNext (snd (alloc_ib b n)) = Suc (n_ibNext n)"
  "n_obNext (snd (alloc_ib b n)) = n_obNext n" "n_sess (snd (alloc_ib b n)) = n_sess n"
  "n_ib (snd (alloc_ib b n)) = (n_ib n)(n_ibNext n := b)" "n_ob (snd (alloc_ib b n)) = n_ob n"
  "n_links (snd (alloc_ib b n)) = n_links n" "n_pool (snd (alloc_ib b n)) = n_pool n"
  "fst (alloc_ob c n) = n_obNext n" "n_obNext (snd (alloc_ob c n)) = Suc (n_obNext n)"
  "n_ibNext (snd (alloc_ob c n)) = n_ibNext n" "n_sess (snd (alloc_ob c n)) = n_sess n"
  "n_ob (snd (alloc_ob c n)) = (n_ob n)(n_obNext n := c)" "n_ib (snd (alloc_ob c n)) = n_ib n"
  "n_links (snd (alloc_ob c n)) = n_links n" "n_pool (snd (alloc_ob c n)) = n_pool n"
  "n_sessNext (snd (alloc_ib b n)) = n_sessNext n" "n_sessNext (snd (alloc_ob c n)) = n_sessNext n"
  by (simp_all add: alloc_ib_def alloc_ob_def)

lemma inv_Begin: "node_inv n \<Longrightarrow> node_inv (snd (Begin target m n))"
  unfolding Begin_def Let_def case_prod_beta
  by (auto split: option.split simp: writer_SwapBuf_def
      intro!: inv_reader_SetNextBuffer inv_upd_ob inv_upd_writer inv_alloc_ob inv_alloc_ib
        inv_writer_Pause inv_swapState ob_inv_New ob_inv_Close ib_inv_New)

lemma inv_SendMigrateFrame: "node_inv n \<Longrightarrow> node_inv (snd (m_SendMigrateFrame m n))"
  by (simp add: m_SendMigrateFrame_def SendMigrateFrame_def inv_mux_Send)

text \<open>What \<open>removeSession\<close> takes out is registered nowhere else.\<close>

lemma removed_unregistered:
  assumes "node_inv n" and "removeSession l nonce n = (Inr s, n')"
  shows "\<not> registered n' s" and "s < n_sessNext n'" and "\<not> s_closed (n_sess n' s)"
    and "s_reader (n_sess n' s) \<noteq> None" and "s_writer (n_sess n' s) \<noteq> None"
    and "n_sess n' = n_sess n" and "mux_sessions n l nonce = Some s"
proof -
  from assms(2) have s: "mux_sessions n l nonce = Some s"
    and n': "n' = upd_sessions l (\<lambda>m. m(nonce := None)) n"
    by (auto simp: removeSession_def split: option.splits)
  have ok: "reg_ok l nonce (n_sess n s)" by (rule node_invD(5) [OF assms(1) s])
  have "(k, c) = (l, nonce)" if "mux_sessions n k c = Some s" for k c
    using node_invD(5) [OF assms(1) that] ok by (simp add: reg_ok_def)
  then show "\<not> registered n' s" by (auto simp: registered_def n' split: if_splits)
  show "s < n_sessNext n'" using node_invD(4) [OF assms(1) s] by (simp add: n')
  show "\<not> s_closed (n_sess n' s)" "s_reader (n_sess n' s) \<noteq> None" "s_writer (n_sess n' s) \<noteq> None"
    "n_sess n' = n_sess n" "mux_sessions n l nonce = Some s"
    using ok s by (simp_all add: reg_ok_def n')
qed

lemma inv_reattach:
  assumes "node_inv n" and "set_law sset"
  shows "node_inv (snd (reattach sset m n))"
proof -
  have "node_inv (snd (addSession sset new s n'))"
    if "removeSession old nonce n = (Inr s, n')" for old new nonce s n'
    using removed_unregistered [OF assms(1) that] inv_removeSession [OF assms(1), of old nonce] that
      assms(2) by (intro inv_addSession) simp_all
  moreover have "node_inv n'" if "removeSession old nonce n = (e, n')" for old nonce e n'
    using inv_removeSession [OF assms(1), of old nonce] that by simp
  ultimately show ?thesis
    using assms(1) by (auto simp: reattach_def split: option.split sum.split prod.split)
qed

lemma inv_Complete: "node_inv n \<Longrightarrow> set_law sset \<Longrightarrow> node_inv (snd (Complete sset m n))"
  unfolding Complete_def Let_def case_prod_beta
  by (auto split: option.split intro!: inv_reattach inv_writer_Resume inv_writer_Grow inv_setState)

lemma inv_mig_fail: "node_inv n \<Longrightarrow> node_inv (snd (mig_fail s e n))"
  by (simp add: mig_fail_def inv_session_Close)

lemmas mig_defs = initiate_begin_def initiate_switched_def initiate_closed_def initiate_done_def
  accept_begin_def respond_closed_def respond_resume_def

lemma inv_initiate:
  "node_inv n \<Longrightarrow> node_inv (snd (initiate_begin s target e n))"
  "node_inv n \<Longrightarrow> node_inv (snd (initiate_switched r m n))"
  "node_inv n \<Longrightarrow> node_inv (snd (initiate_closed e e' m n))"
  "node_inv n \<Longrightarrow> set_law sset \<Longrightarrow> node_inv (snd (initiate_done sset e m n))"
  using inv_Begin [of n target] inv_SendMigrateFrame [of n] inv_Complete [of n sset m]
  by (auto simp: mig_defs Let_def intro!: inv_mig_fail
      split: sum.split option.split prod.split begin_out.split)
    (metis inv_Begin inv_SendMigrateFrame inv_Complete snd_conv)+

lemma inv_respond:
  "node_inv n \<Longrightarrow> node_inv (snd (accept_begin s target r e n))"
  "node_inv n \<Longrightarrow> node_inv (snd (respond_closed e m n))"
  "node_inv n \<Longrightarrow> set_law sset \<Longrightarrow> node_inv (snd (respond_resume sset e e' m n))"
  by (auto simp: mig_defs Let_def intro!: inv_mig_fail
      split: sum.split option.split prod.split begin_out.split)
    (metis inv_Begin inv_SendMigrateFrame inv_Complete snd_conv)+

end
