(* ===== verification/Node_Runs.thy ===== *)
theory Node_Runs
  imports Migration
begin

section \<open>Runs of a node\<close>

text \<open>
  The operations of the mux, of sessions and of migration as the steps of one node, in any
  interleaving: the frames of the peers arrive in any order, queries of either direction start
  and end, the applications read, write and close, migrations go through their phases, links
  come and go.  The steps are the definitions of \<open>Sessions\<close>, \<open>Muxing\<close> and \<open>Migration\<close>; the
  invariant of the store and the bound on the frames hold in every state reached.
\<close>

inductive node_step :: "map_set \<Rightarrow> 'id node \<Rightarrow> 'id node \<Rightarrow> bool" for sset where
  ns_handle: "node_step sset n (snd (snd (Handle l f n)))"
| ns_inbound: "node_step sset n (snd (inbound_begin sset fresh l nonce caller relay q b n))"
| ns_answer: "node_step sset n (inbound_finish l nonce s v n)"
| ns_refuse: "node_step sset n (snd (mux_Send l (response nonce c b) n))"
| ns_route: "node_step sset n (snd (RouteQuery_start sset fresh ctx l q n))"
| ns_verdict: "RouteQuery_verdict s n = Some r \<Longrightarrow> node_step sset n (snd r)"
| ns_cancel: "node_step sset n (snd (RouteQuery_cancel s n))"
| ns_read: "s < n_sessNext n \<Longrightarrow> node_step sset n (snd (session_Read s k n))"
| ns_write: "s < n_sessNext n \<Longrightarrow> s_writer (n_sess n s) \<noteq> None \<Longrightarrow>
     node_step sset n (snd (session_Write s p n))"
| ns_close: "node_step sset n (session_Close s n)"
| ns_close_all: "node_step sset n (closeAllSessions order n)"
| ns_initiate_begin: "node_step sset n (snd (initiate_begin s target e n))"
| ns_initiate_switched: "node_step sset n (snd (initiate_switched r m n))"
| ns_initiate_closed: "node_step sset n (snd (initiate_closed e e' m n))"
| ns_initiate_done: "node_step sset n (snd (initiate_done sset e m n))"
| ns_accept_begin: "node_step sset n (snd (accept_begin s target r e n))"
| ns_respond_closed: "node_step sset n (snd (respond_closed e m n))"
| ns_respond_resume: "node_step sset n (snd (respond_resume sset e e' m n))"
| ns_router: "node_step sset n (SetRouter l n)"
| ns_clock: "node_step sset n (n\<lparr>n_now := t\<rparr>)"
| ns_pool: "node_step sset n (n\<lparr>n_pool := p\<rparr>)"

lemma inv_clock_pool [simp]:
  "node_inv (n\<lparr>n_now := t\<rparr>) = node_inv n" "node_inv (n\<lparr>n_pool := p\<rparr>) = node_inv n"
  by (simp_all add: node_inv_def)

lemma node_inv_step:
  assumes "set_law sset" and "node_step sset n n'" and "node_inv n"
  shows "node_inv n'"
  using assms(2,1,3)
  by cases
    (auto simp: RouteQuery_cancel_def
      intro: inv_Handle inv_inbound_begin inv_inbound_finish inv_mux_Send inv_RouteQuery_start
        inv_RouteQuery_verdict inv_session_Close inv_session_Read inv_session_Write
        inv_closeAllSessions inv_initiate inv_respond inv_SetRouter)

text \<open>The starting states, and the law of the library as a guard of the step.\<close>

definition lawful_step :: "map_set \<Rightarrow> 'id node \<Rightarrow> 'id node \<Rightarrow> bool" where
  "lawful_step sset n n' \<longleftrightarrow> set_law sset \<and> node_step sset n n'"

interpretation store: safety node_start "lawful_step sset" node_inv
proof
  show "node_inv n" if "node_start n" for n :: "'a node"
    using that by (rule node_inv_start)
  show "node_inv n'" if "node_inv n" "lawful_step sset n n'" for n n' :: "'a node"
    using that node_inv_step by (auto simp: lawful_step_def)
qed

subsection \<open>What goes on the wire\<close>

definition all_sendable :: "'id node \<Rightarrow> bool" where
  "all_sendable n \<longleftrightarrow> (\<forall>l. \<forall>f \<in> set (frames_sent n l). sendable f)"

lemma all_sendable_same:
  "(\<And>l. frames_sent n' l = frames_sent n l) \<Longrightarrow> all_sendable n' = all_sendable n"
  by (simp add: all_sendable_def)

lemma sendable_Send: "all_sendable n \<Longrightarrow> sendable f \<Longrightarrow> all_sendable (snd (mux_Send l f n))"
  by (auto simp: all_sendable_def)

lemma sendable_Close: "all_sendable n \<Longrightarrow> all_sendable (session_Close s n)"
  by (auto simp: all_sendable_def frames_sent_Close reset_of_def split: option.splits if_splits)

lemma sendable_quiet [simp]:
  "all_sendable (upd_sess s f n) = all_sendable n"
  "all_sendable (upd_ib a g n) = all_sendable n"
  "all_sendable (upd_ob b h n) = all_sendable n"
  "all_sendable (upd_reader s fr n) = all_sendable n"
  "all_sendable (upd_writer s fw n) = all_sendable n"
  "all_sendable (upd_sessions l gs n) = all_sendable n"
  "all_sendable (upd_link l (lk_onBytes j t) n) = all_sendable n"
  "all_sendable (writer_PeerClose s n) = all_sendable n"
  "all_sendable (writer_Grow w k n) = all_sendable n"
  "all_sendable (setState s st n) = all_sendable n"
  "all_sendable (session_Open s n) = all_sendable n"
  "all_sendable (snd (reader_Push r p n)) = all_sendable n"
  "all_sendable (reader_Advance s r n) = all_sendable n"
  "all_sendable (n\<lparr>n_now := t\<rparr>) = all_sendable n"
  "all_sendable (n\<lparr>n_pool := ps\<rparr>) = all_sendable n"
  by (rule all_sendable_same; simp)+

lemma sendable_onWrite: "all_sendable n \<Longrightarrow> all_sendable (snd (run_onWrite c p n))"
  unfolding run_onWrite_def
  by (rule mp, rule sessionOnWrite_rel [where R = "\<lambda>a b. all_sendable a \<longrightarrow> all_sendable b"])
    (auto intro: sendable_Send simp: maxPayloadSize_def)

lemma sendable_write_buf: "all_sendable n \<Longrightarrow> all_sendable (snd (write_buf a p n))"
  by (auto simp: write_buf_def ob_Write_def Let_def intro: sendable_onWrite)

lemma sendable_writer_Write: "all_sendable n \<Longrightarrow> all_sendable (snd (writer_Write w t p n))"
proof (induction w t p n rule: writer_Write.induct)
  case (1 w t p n)
  obtain res n' where e: "write_buf (w_buf w) p n = (res, n')" by fastforce
  with sendable_write_buf [OF 1(2), of "w_buf w" p] have "all_sendable n'" by simp
  with 1 e show ?case
    by (subst writer_Write.simps) (auto split: ob_result.split option.split)
qed

lemma sendable_ib_Read: "all_sendable n \<Longrightarrow> all_sendable (snd (snd (ib_Read run_onRead k b n)))"
  by (auto simp: ib_Read_credit run_onRead_def split: list.split option.split intro: sendable_Send)

lemma sendable_reader_turn: "all_sendable n \<Longrightarrow> all_sendable (snd (reader_turn s r k n))"
  by (auto simp: reader_turn_eq Let_def promote_def split: ib_result.split option.split
      intro: sendable_ib_Read)

lemma sendable_session_Read: "all_sendable n \<Longrightarrow> all_sendable (snd (session_Read s k n))"
  by (auto simp: session_Read_def reader_Read_def Let_def count_bytes_def
      split: read_out.split option.split intro: sendable_reader_turn)

lemma sendable_session_Write: "all_sendable n \<Longrightarrow> all_sendable (snd (session_Write s p n))"
  by (auto simp: session_Write_def Let_def count_bytes_def
      split: write_out.split intro: sendable_writer_Write)

lemma sendable_response [simp]: "sendable (response nonce c b)"
  by (simp add: response_def)

lemma sendable_create:
  "set_law sset \<Longrightarrow> all_sendable n \<Longrightarrow>
   all_sendable (snd (createSession sset fresh l nonce rid sid q out pb n))"
  by (simp add: all_sendable_def)

lemma sendable_Handle: "all_sendable n \<Longrightarrow> all_sendable (snd (snd (Handle l f n)))"
proof (cases "(l, f, n)" rule: Handle.cases)
  case (5 l' g n')
  then show "all_sendable n \<Longrightarrow> all_sendable (snd (snd (Handle l f n)))"
    by (auto simp: handlePing_def intro: sendable_Send)
      (auto simp: all_sendable_def frames_sent_def pong_def Let_def split: option.splits)
qed (auto simp: handleResponse_def handleData_def handleReset_def handleRead_def handleMigrate_def
      Let_def swapState_def case_prod_beta split: option.split
      intro!: sendable_Send sendable_Close)

lemma sendable_RouteQuery_start:
  "set_law sset \<Longrightarrow> all_sendable n \<Longrightarrow> all_sendable (snd (RouteQuery_start sset fresh ctx l q n))"
  by (auto simp: RouteQuery_start_def Let_def case_prod_beta query_frame_of_def split: option.split
      intro!: sendable_Close sendable_Send sendable_create)

lemma sendable_RouteQuery_verdict:
  "RouteQuery_verdict s n = Some r \<Longrightarrow> all_sendable n \<Longrightarrow> all_sendable (snd r)"
  by (auto simp: RouteQuery_verdict_def Let_def split: list.splits intro!: sendable_Close)

lemma sendable_inbound_finish: "all_sendable n \<Longrightarrow> all_sendable (inbound_finish l nonce s v n)"
  by (cases v) (auto simp: Let_def intro!: sendable_Close sendable_Send)

lemma sendable_closeAll: "all_sendable n \<Longrightarrow> all_sendable (closeAllSessions order n)"
  unfolding closeAllSessions_def by (induction order arbitrary: n) (auto intro: sendable_Close)

lemma sendable_Begin: "all_sendable (snd (Begin target m n)) = all_sendable n"
  by (rule all_sendable_same)
    (simp add: Begin_def Let_def case_prod_beta writer_Pause_def reader_SetNextBuffer_def
      writer_SwapBuf_def swapState_def alloc_ib_def alloc_ob_def frames_sent_def setState_def
      split: option.split)

lemma sendable_Complete: "all_sendable (snd (Complete sset m n)) = all_sendable n"
  by (rule all_sendable_same)
    (simp add: Complete_def Let_def case_prod_beta writer_Resume_def reattach_def removeSession_def
      addSession_def split: option.split sum.split)

lemma sendable_MigrateFrame: "all_sendable n \<Longrightarrow> all_sendable (snd (m_SendMigrateFrame m n))"
  by (simp add: m_SendMigrateFrame_def SendMigrateFrame_def sendable_Send)

lemma sendable_mig:
  assumes "all_sendable n"
  shows "all_sendable (snd (initiate_begin s target e n))"
    and "all_sendable (snd (initiate_switched r m n))"
    and "all_sendable (snd (initiate_closed e e' m n))"
    and "all_sendable (snd (initiate_done sset e m n))"
    and "all_sendable (snd (accept_begin s target r e n))"
    and "all_sendable (snd (respond_closed e m n))"
    and "all_sendable (snd (respond_resume sset e e' m n))"
  using assms
  by (auto simp: mig_defs Let_def mig_fail_def intro!: sendable_Close
      split: sum.split option.split prod.split begin_out.split)
    (metis sendable_Begin sendable_MigrateFrame sendable_Complete snd_conv)+

lemma sendable_SetRouter: "all_sendable (SetRouter l n) = all_sendable n"
  by (rule all_sendable_same) (simp add: SetRouter_def frames_sent_def)

lemma sendable_step:
  assumes "lawful_step sset n n'" and "all_sendable n"
  shows "all_sendable n'"
proof -
  from assms(1) have law: "set_law sset" and "node_step sset n n'" by (simp_all add: lawful_step_def)
  from this(2) show ?thesis
    using assms(2) law
    by cases
      (auto simp: RouteQuery_cancel_def inbound_begin_def sendable_SetRouter
        intro: sendable_Handle sendable_inbound_finish sendable_create sendable_Send
          sendable_RouteQuery_start sendable_RouteQuery_verdict sendable_Close
          sendable_session_Read sendable_session_Write sendable_closeAll sendable_mig)
qed

definition quiet_start :: "'id node \<Rightarrow> bool" where
  "quiet_start n \<longleftrightarrow> node_start n \<and> (\<forall>l. ch_log (lk_ch (n_links n l)) = [])"

interpretation onwire: safety quiet_start "lawful_step sset" all_sendable
proof
  show "all_sendable n" if "quiet_start n" for n :: "'a node"
    using that by (simp add: quiet_start_def all_sendable_def frames_sent_def)
  show "all_sendable n'" if "all_sendable n" "lawful_step sset n n'" for n n' :: "'a node"
    using that sendable_step by blast
qed

subsection \<open>A run for the witnesses\<close>

text \<open>
  A node 1 with links to the node 2; it receives a query with nonce 5 and 10 bytes of credit,
  and accepts it.
\<close>

definition demo0 :: "nat node" where
  "demo0 =
     \<lparr>n_links = (\<lambda>l. newLink \<lparr>ch_log = [], ch_send = (\<lambda>_ _. None), ch_closed = False\<rparr>
                  1 2 (of_nat l) True 0),
      n_pool = [0, 1], n_sess = (\<lambda>_. newSession 0 0 None None [] False 0), n_sessNext = 0,
      n_ib = (\<lambda>_. NewInputBuffer 0 None), n_ibNext = 0, n_ob = (\<lambda>_. NewOutputBuffer (0, 0)),
      n_obNext = 0, n_now = 0\<rparr>"

definition demo1 :: "nat node" where
  "demo1 = snd (inbound_begin set_if_absent 9 0 5 (Some 2) None [] 10 demo0)"

definition demo2 :: "nat node" where
  "demo2 = inbound_finish 0 5 0 Routed demo1"

lemma demo0_start: "node_start demo0" "quiet_start demo0"
  by (simp_all add: quiet_start_def node_start_def demo0_def newLink_def newMux_def)

lemma demo0_sessions [simp]: "mux_sessions demo0 l = Map.empty"
  by (simp add: demo0_def newLink_def newMux_def)

lemma demo0_next [simp]: "n_sessNext demo0 = 0" "n_ibNext demo0 = 0" "n_obNext demo0 = 0"
  by (simp_all add: demo0_def)

lemma demo1_reach:
  assumes "init demo0"
  shows "reach init (lawful_step set_if_absent) demo1"
proof (rule reach_step)
  show "reach init (lawful_step set_if_absent) demo0" using assms by (rule reach_init)
  show "lawful_step set_if_absent demo0 demo1"
    unfolding lawful_step_def demo1_def by (simp add: set_law_if_absent ns_inbound)
qed

lemma demo2_reach:
  assumes "init demo0"
  shows "reach init (lawful_step set_if_absent) demo2"
proof (rule reach_step)
  show "reach init (lawful_step set_if_absent) demo1" using assms by (rule demo1_reach)
  show "lawful_step set_if_absent demo1 demo2"
    unfolding lawful_step_def demo2_def by (intro conjI set_law_if_absent ns_answer)
qed

lemma demo1_eq:
  "demo1 = upd_sessions 0 (\<lambda>m. m(5 \<mapsto> 0))
     (demo0\<lparr>n_sessNext := 1, n_ibNext := 1, n_obNext := 1,
        n_ib := (n_ib demo0)(0 := NewInputBuffer (int defaultBufferSize) (Some (0, 5))),
        n_ob := (n_ob demo0)(0 := ob_Grow 10 (NewOutputBuffer (0, 5))),
        n_sess := (n_sess demo0)(0 := created_session 9 0 5 (Some 2) None [] False demo0)\<rparr>)"
  unfolding demo1_def inbound_begin_def
  by (subst createSession_new [OF set_law_if_absent]) simp_all

lemma demo1_simps [simp]:
  "mux_sessions demo1 l = (if l = 0 then [5 \<mapsto> 0] else Map.empty)"
  "n_sess demo1 0 = created_session 9 0 5 (Some 2) None [] False demo0" "n_sessNext demo1 = 1"
  "frames_sent demo1 l = []"
  by (auto simp: demo1_eq) (simp add: frames_sent_def demo0_def newLink_def)

lemma demo2_sess:
  "n_sess demo2 0 =
     (created_session 9 0 5 (Some 2) None [] False demo0)\<lparr>s_state := stateOpen, s_paused := False\<rparr>"
  "mux_sessions demo2 l = (if l = 0 then [5 \<mapsto> 0] else Map.empty)"
  "n_sessNext demo2 = 1"
  using mux_Send_store [of "setState 0 stateOpen demo1" 0 "response 5 CodeAccepted (of_nat defaultBufferSize)"]
  by (simp_all add: demo2_def session_Open_def same_store_def setState_def)

subsection \<open>Properties\<close>



text \<open>
  The buffers of a node, in every run: no channel of an input buffer is closed twice (on
  which Go panics), and a buffer counts exactly the bytes it holds and never holds more than
  its size.
\<close>

lemma buffers_safe:
  assumes "reach node_start (lawful_step sset) n" and "a < n_ibNext n"
  shows "\<not> ib_panicked (n_ib n a) \<and> ib_used (n_ib n a) = int (length (content (n_ib n a))) \<and>
         ib_used (n_ib n a) \<le> ib_size (n_ib n a)"
  using node_invD(1) [OF store.reach_inv [OF assms(1)] assms(2)] by (simp add: ib_inv_def)

lemma buffers_safe_witness: "\<not> ib_panicked (n_ib demo1 0)"
proof -
  have "0 < n_ibNext demo1" by (simp add: demo1_eq)
  then show ?thesis
    using buffers_safe [OF demo1_reach [of node_start, OF demo0_start(1)], of 0] by blast
qed

text \<open>
  C24.  The verdict of a query is delivered once and never blocks the read loop: in every run,
  while a session still routes its verdict channel, of capacity one, is empty, and it never
  holds more than one verdict.
\<close>

theorem verdict_never_blocks:
  assumes "reach node_start (lawful_step sset) n" and "s < n_sessNext n"
  shows "length (s_routingResult (n_sess n s)) \<le> 1 \<and>
         (s_state (n_sess n s) = stateRouting \<longrightarrow> s_routingResult (n_sess n s) = [])"
  using node_invD(3) [OF store.reach_inv [OF assms(1)] assms(2)] by (auto simp: sess_ok_def)

theorem verdict_never_blocks_witness: "s_routingResult (n_sess demo1 0) = []"
  using verdict_never_blocks [OF demo1_reach [of node_start, OF demo0_start(1)], of 0]
  by (simp add: created_session_def newSession_def)

end
