(* ===== verification/Mux_Properties.thy ===== *)
theory Mux_Properties
  imports Node_Runs
begin

section \<open>What the handlers of the mux do\<close>

text \<open>
  The effects of the operations of \<open>Muxing\<close>, branch by branch: which frames they send and in
  which order, and what they leave registered.
\<close>

subsection \<open>Closing\<close>

lemma writer_Close_sess:
  "n_sess (writer_Close s n) =
     (n_sess n)(s := (n_sess n s)\<lparr>s_writer :=
        map_option (\<lambda>w. w\<lparr>w_closed := True\<rparr>) (s_writer (n_sess n s))\<rparr>)"
proof (cases "s_writer (n_sess n s)")
  case None
  then show ?thesis by (cases "n_sess n s") (auto simp: writer_Close_def)
next
  case (Some w)
  have "n_sess (run_reset c m) = n_sess m" for c and m :: "'a node"
    using run_reset_store [of m c] by auto
  then show ?thesis
    using Some
    by (cases "n_sess n s"; cases w) (auto simp: writer_Close_def Let_def split: option.split)
qed

lemma run_reset_mux [simp]: "lk_mux (n_links (run_reset c n) l) = lk_mux (n_links n l)"
  using run_reset_store [of n c] by (simp add: same_store_def)

lemma close_mux [simp]:
  "lk_mux (n_links (writer_Close s n) l) = lk_mux (n_links n l)"
  "lk_mux (n_links (writer_PeerClose s n) l) = lk_mux (n_links n l)"
  "lk_mux (n_links (reader_Close s n) l) = lk_mux (n_links n l)"
  by (auto simp: writer_Close_def writer_PeerClose_def reader_Close_def Let_def split: option.split)

text \<open>What a close leaves in the maps: all but the entry its closure names.\<close>

lemma session_Close_sessions:
  "mux_sessions (session_Close s n) l =
     (case (s_closed (n_sess n s), s_onClose (n_sess n s)) of
        (False, Some c) \<Rightarrow>
          (if l = fst c then (mux_sessions n l)(snd c := None) else mux_sessions n l)
      | _ \<Rightarrow> mux_sessions n l)"
  by (auto simp: session_Close_def Let_def run_onClose_def split: option.split bool.split)

lemma session_Close_sess:
  assumes "\<not> s_closed (n_sess n s)"
  shows "s_closed (n_sess (session_Close s n) s)"
    and "s_state (n_sess (session_Close s n) s) = stateClosed"
    and "s' \<noteq> s \<Longrightarrow> n_sess (session_Close s n) s' = n_sess n s'"
  using assms
  by (auto simp: session_Close_def Let_def writer_Close_sess run_onClose_def split: option.split)

lemma session_Close_closed: "s_closed (n_sess (session_Close s n) s)"
  using session_Close_sess(1) [of n s] by (cases "s_closed (n_sess n s)") (auto simp: session_Close_def)

lemma session_Close_idem: "session_Close s (session_Close s n) = session_Close s n"
  using session_Close_closed [of s n] by (simp add: session_Close_def [of s "session_Close s n"])

lemma closed_unregistered: "node_inv n \<Longrightarrow> s_closed (n_sess n s) \<Longrightarrow> \<not> registered n s"
  using node_invD(5) [of n _ _ s] by (auto simp: registered_def reg_ok_def)

lemma Close_unregisters: "node_inv n \<Longrightarrow> \<not> registered (session_Close s n) s"
  by (rule closed_unregistered [OF inv_session_Close session_Close_closed])



subsection \<open>Frames for unknown or finished sessions\<close>

lemma writer_PeerClose_sess:
  "n_sess (writer_PeerClose s n) =
     (n_sess n)(s := (n_sess n s)\<lparr>s_writer :=
        map_option (\<lambda>w. w\<lparr>w_closed := True\<rparr>) (s_writer (n_sess n s))\<rparr>)"
proof (cases "s_writer (n_sess n s)")
  case (Some w)
  then show ?thesis by (cases "n_sess n s"; cases w) (auto simp: writer_PeerClose_def)
qed (cases "n_sess n s"; auto simp: writer_PeerClose_def)

lemma PeerClose_no_reset: "reset_of (n_sess (writer_PeerClose s n) s) k = []"
  by (auto simp: reset_of_def writer_PeerClose_sess split: option.splits)

text \<open>
  A \<open>Reset\<close> from the peer ends its session without an answer: no frame is sent on any link,
  so the two ends never exchange resets, and the session is closed and unregistered.
\<close>

lemma reset_not_answered:
  assumes "reach node_start (lawful_step sset) n"
  shows "frames_sent (handleReset l f n) k = frames_sent n k \<and>
         mux_sessions (handleReset l f n) l (reset_Nonce f) = None"
proof (cases "mux_sessions n l (reset_Nonce f)")
  case (Some s)
  have inv: "node_inv n" by (rule store.reach_inv [OF assms])
  let ?n' = "session_Close s (writer_PeerClose s n)"
  have "\<not> registered ?n' s" by (rule Close_unregisters [OF inv_writer_PeerClose [OF inv]])
  moreover have "mux_sessions ?n' l (reset_Nonce f) \<in> {None, Some s}"
    using Some by (auto simp: session_Close_sessions split: option.split bool.split)
  ultimately show ?thesis
    using Some PeerClose_no_reset [of s n k]
    by (auto simp: handleReset_def frames_sent_Close registered_def)
qed (simp add: handleReset_def)

lemma reset_not_answered_witness:
  "frames_sent (handleReset 0 \<lparr>reset_Nonce = 5\<rparr> demo1) 0 = [] \<and>
   mux_sessions (handleReset 0 \<lparr>reset_Nonce = 5\<rparr> demo1) 0 5 = None"
  using reset_not_answered [OF demo1_reach [of node_start, OF demo0_start(1)], of 0 "\<lparr>reset_Nonce = 5\<rparr>" 0]
  by simp

text \<open>
  A data frame for a session the mux does not have, or one that is neither open nor
  migrating, is answered with a \<open>Reset\<close> on the same link and changes nothing else: no session,
  no buffer, no entry of a mux.
\<close>

lemma data_refused:
  assumes "\<And>s. mux_sessions n l (data_Nonce f) = Some s \<Longrightarrow>
             s_state (n_sess n s) \<noteq> stateOpen \<and> s_state (n_sess n s) \<noteq> stateMigrating"
  shows "same_store n (handleData l f n) \<and>
         frames_sent (handleData l f n) k =
           frames_sent n k @ (if k = l then [Reset \<lparr>reset_Nonce = data_Nonce f\<rparr>] else [])"
  using assms by (auto simp: handleData_def getState_def split: option.split)

lemma data_refused_witness:
  "frames_sent (handleData 0 \<lparr>data_Nonce = 5, data_Payload = [1]\<rparr> demo1) 0 =
     [Reset \<lparr>reset_Nonce = 5\<rparr>]"
  using data_refused [of demo1 0 "\<lparr>data_Nonce = 5, data_Payload = [1]\<rparr>" 0]
  by (simp add: created_session_def newSession_def)

text \<open>
  A response counts only from the right peer: one that arrives over a link to a node which
  is neither the relay the query went through nor, without a relay, the target of the query,
  changes nothing.
\<close>

lemma response_from_stranger:
  assumes "mux_sessions n l (response_Nonce f) = Some s"
    and "(case s_SourceIdentity (n_sess n s) of
            Some src \<Rightarrow> src \<noteq> remoteIdentity (lk_mux (n_links n l))
          | None \<Rightarrow> s_RemoteIdentity (n_sess n s) \<noteq> Some (remoteIdentity (lk_mux (n_links n l))))"
  shows "handleResponse l f n = n"
  using assms by (simp add: handleResponse_def Let_def split: option.splits)

definition demo_relay :: "nat node" where
  "demo_relay = snd (createSession set_if_absent 9 0 6 (Some 8) (Some 7) [] True 0 demo0)"

lemma response_from_stranger_witness:
  "handleResponse 0 \<lparr>response_Nonce = 6, response_ErrCode = 0, response_Buffer = 1\<rparr> demo_relay =
     demo_relay"
proof -
  have r: "demo_relay = upd_sessions 0 (\<lambda>m. m(6 \<mapsto> 0))
     (demo0\<lparr>n_sessNext := 1, n_ibNext := 1, n_obNext := 1,
        n_ib := (n_ib demo0)(0 := NewInputBuffer (int defaultBufferSize) (Some (0, 6))),
        n_ob := (n_ob demo0)(0 := ob_Grow 0 (NewOutputBuffer (0, 6))),
        n_sess := (n_sess demo0)(0 := created_session 9 0 6 (Some 8) (Some 7) [] True demo0)\<rparr>)"
    unfolding demo_relay_def by (subst createSession_new [OF set_law_if_absent]) simp_all
  have "mux_sessions demo_relay 0 6 = Some 0" by (simp add: r)
  moreover have "s_SourceIdentity (n_sess demo_relay 0) = Some 7"
    by (simp add: r created_session_def newSession_def)
  moreover have "remoteIdentity (lk_mux (n_links demo_relay 0)) = 2"
    by (simp add: r demo0_def newLink_def newMux_def)
  ultimately show ?thesis
    using response_from_stranger [of demo_relay 0 "\<lparr>response_Nonce = 6, response_ErrCode = 0, response_Buffer = 1\<rparr>" 0]
    by simp
qed

subsection \<open>Inbound queries\<close>

lemma created_reset_of [simp]:
  "reset_of (created_session fresh l nonce rid sid q out n) k =
     (if k = l then [Reset \<lparr>reset_Nonce = nonce\<rparr>] else [])"
  "s_closed (created_session fresh l nonce rid sid q out n) = False"
  "s_onClose (created_session fresh l nonce rid sid q out n) = Some (l, nonce)"
  by (simp_all add: reset_of_def created_session_def newSession_def newSessionWriter_def)

text \<open>
  C22.  A refused query is answered in the order the peer needs: on the link it came from, first
  the response with the router's code, then the \<open>Reset\<close> of the session, and nothing on any
  other link; no session stays behind.
\<close>

theorem refusal_before_reset:
  assumes "set_law sset" and "mux_sessions n l nonce = None"
    and "\<And>s m. router s m = RouteError (Some code)"
  shows "frames_sent (handleInboundQuery sset fresh router l nonce caller relay q b n) k =
           frames_sent n k @
             (if k = l then [response nonce code 0, Reset \<lparr>reset_Nonce = nonce\<rparr>] else []) \<and>
         mux_sessions (handleInboundQuery sset fresh router l nonce caller relay q b n) =
           mux_sessions n"
proof -
  let ?c = "createSession sset fresh l nonce caller relay q False b n"
  let ?n1 = "snd ?c"
  let ?n2 = "snd (mux_Send l (response nonce code 0) ?n1)"
  have c: "fst ?c = Some (n_sessNext n)"
    and s: "n_sess ?n1 (n_sessNext n) = created_session fresh l nonce caller relay q False n"
    and m: "mux_sessions ?n1 k = (if k = l then (mux_sessions n l)(nonce \<mapsto> n_sessNext n) else mux_sessions n k)"
    for k
    by (simp_all add: createSession_new [OF assms(1,2)])
  have s2: "n_sess ?n2 = n_sess ?n1" "lk_mux (n_links ?n2 k) = lk_mux (n_links ?n1 k)" for k
    using mux_Send_store [of ?n1 l "response nonce code 0"] by (auto simp: same_store_def)
  have eq: "handleInboundQuery sset fresh router l nonce caller relay q b n =
      session_Close (n_sessNext n) ?n2"
    using c by (cases ?c) (simp add: handleInboundQuery_def inbound_begin_def assms(3))
  have "(mux_sessions n l)(nonce := None) = mux_sessions n l"
    using assms(2) by (simp add: fun_upd_idem)
  then have "mux_sessions (session_Close (n_sessNext n) ?n2) = mux_sessions n"
    by (intro ext) (simp add: session_Close_sessions s2 s m)
  moreover have "frames_sent (session_Close (n_sessNext n) ?n2) k =
           frames_sent n k @
             (if k = l then [response nonce code 0, Reset \<lparr>reset_Nonce = nonce\<rparr>] else [])"
    by (simp add: frames_sent_Close s2 s assms(1))
  ultimately show ?thesis unfolding eq by blast
qed

theorem refusal_before_reset_witness:
  "frames_sent (handleInboundQuery set_if_absent 9 (\<lambda>_ _. RouteError (Some 3)) 0 5 (Some 2) None [] 10
     demo0) 0 = [response 5 3 0, Reset \<lparr>reset_Nonce = 5\<rparr>]"
  using refusal_before_reset [OF set_law_if_absent, of demo0 0 5 "\<lambda>_ _. RouteError (Some 3)" 3 9 "Some 2" None
      "[]" 10 0]
  by (simp add: frames_sent_def) (simp add: demo0_def newLink_def)

text \<open>
  An accepted query is answered with one response that grants the default buffer, and
  nothing else is sent; its session is registered, open for reading and writing, and may send
  as many bytes as the query granted.
\<close>

lemma accept_opens_session:
  assumes "set_law sset" and "mux_sessions n l nonce = None" and "\<And>s m. router s m = Routed"
    and "n' = handleInboundQuery sset fresh router l nonce caller relay q b n"
  shows "frames_sent n' k = frames_sent n k @
           (if k = l then [response nonce CodeAccepted (of_nat defaultBufferSize)] else []) \<and>
         mux_sessions n' l nonce = Some (n_sessNext n) \<and>
         s_state (n_sess n' (n_sessNext n)) = stateOpen \<and> \<not> s_paused (n_sess n' (n_sessNext n)) \<and>
         (\<exists>w. s_writer (n_sess n' (n_sessNext n)) = Some w \<and> \<not> w_closed w \<and>
              ob_wsize (n_ob n' (w_buf w)) = b)"
proof -
  let ?c = "createSession sset fresh l nonce caller relay q False b n"
  let ?n1 = "setState (n_sessNext n) stateOpen (snd ?c)"
  let ?f = "response nonce CodeAccepted (of_nat defaultBufferSize) :: 'a frame"
  let ?n2 = "snd (mux_Send l ?f ?n1)"
  have ss: "same_store ?n1 ?n2" by (rule mux_Send_store)
  have c: "?c = (Some (n_sessNext n), snd ?c)"
    by (simp add: createSession_new [OF assms(1,2)])
  have eq: "n' = session_Open (n_sessNext n) ?n2"
    unfolding assms(4) handleInboundQuery_def inbound_begin_def
    by (subst c) (simp add: assms(3))
  have "n_sess ?n2 = n_sess ?n1" "n_ob ?n2 = n_ob ?n1" "mux_sessions ?n2 l = mux_sessions ?n1 l"
    using ss by (auto simp: same_store_def)
  then show ?thesis
    unfolding eq
    by (simp add: session_Open_def setState_def createSession_new [OF assms(1,2)] created_session_def
        newSessionWriter_def)
      (simp add: frames_sent_def NewOutputBuffer_def)
qed

lemma accept_opens_session_witness:
  "frames_sent (handleInboundQuery set_if_absent 9 (\<lambda>_ _. Routed) 0 5 (Some 2) None [] 10 demo0) 0 =
     [response 5 CodeAccepted (of_nat defaultBufferSize)]"
  using accept_opens_session [OF set_law_if_absent, of demo0 0 5 "\<lambda>_ _. Routed" _ 9 "Some 2" None "[]" 10 0]
  by (simp add: frames_sent_def) (simp add: demo0_def newLink_def)



text \<open>
  A relayed query of a caller the peer may not relay for is refused and leaves no trace:
  one response goes back, and no session, buffer or registration changes.
\<close>

lemma relay_not_admitted:
  assumes "relay_CallerID f \<noteq> Some (remoteIdentity (lk_mux (n_links n l)))"
    and "\<not> authorize (relay_CallerID f)"
  shows "same_store n (handleRelayQuery sset fresh authorize router l f n) \<and>
         frames_sent (handleRelayQuery sset fresh authorize router l f n) k = frames_sent n k @
           (if k = l then [response (query_Nonce (relay_Query f)) CodeRejected 0] else [])"
  using assms by (auto simp: handleRelayQuery_def relay_admitted_def)

lemma relay_not_admitted_witness:
  "same_store demo0 (handleRelayQuery set_if_absent 9 (\<lambda>_. False) (\<lambda>_ _. Routed) 0
     \<lparr>relay_CallerID = Some 7, relay_TargetID = Some 1,
      relay_Query = \<lparr>query_Nonce = 4, query_Buffer = 0, query_Query = []\<rparr>\<rparr> demo0)"
  using relay_not_admitted [of "\<lparr>relay_CallerID = Some 7, relay_TargetID = Some 1,
      relay_Query = \<lparr>query_Nonce = 4, query_Buffer = 0, query_Query = []\<rparr>\<rparr>" demo0 0 "\<lambda>_. False"]
  by (simp add: demo0_def newLink_def newMux_def)

end
