(* ===== verification/Session_Streams.thy ===== *)
theory Session_Streams
  imports Mux_Properties
begin

section \<open>The bytes of a session\<close>

text \<open>
  What a session's reader delivers and what its writer sends.  The reader is refined to a
  queue of bytes: whatever is pushed into it, on whichever link, comes out complete and in
  order, also while a migration swaps the buffer behind it.  The writer sends, in data frames
  of the link its buffer belongs to, as much as the peer has granted.
\<close>

subsection \<open>The input buffer\<close>

text \<open>The input buffer alone is a queue of bytes; closing it loses nothing.\<close>

definition ib_put :: "bytes \<Rightarrow> 'cb ibuf \<Rightarrow> bool \<times> 'cb ibuf" where
  "ib_put p b = (fst (ib_Push p b) = None, snd (ib_Push p b))"

definition ib_get :: "nat \<Rightarrow> 'cb ibuf \<Rightarrow> bytes \<times> 'cb ibuf" where
  "ib_get k b =
     (let r = ib_Read (\<lambda>_ _ _. ()) k b () in (ib_result_bytes (fst r), fst (snd r)))"

interpretation ib_fifo: fifo "\<lambda>_. True" content ib_put ib_get "\<lambda>b b'. b' = ib_Close b"
proof
  show "True \<and> content b' = content b @ (if ok then p else [])"
    if "ib_put p b = (ok, b')" for p b ok b'
    using that by (cases rule: ib_Push_cases [of b p]) (auto simp: ib_put_def ib_Push_accepts(2))
  show "True \<and> content b = p @ content b'" if "ib_get k b = (p, b')" for k b p b'
    using that ib_Read_content [of b "\<lambda>_ _ _. ()" k "()"] by (auto simp: ib_get_def Let_def)
qed (simp_all add: ib_Close_frame)

subsection \<open>Reading across a migration\<close>

definition reader_stream :: "muxSessionReader \<Rightarrow> 'id node \<Rightarrow> bytes" where
  "reader_stream r n =
     content (n_ib n (r_buf r)) @
       (case r_nextBuffer r of None \<Rightarrow> [] | Some b \<Rightarrow> content (n_ib n b))"

text \<open>
  A queued buffer is another one than the current, and holds nothing as long as the current
  one still takes bytes.
\<close>

definition reader_ok :: "muxSessionReader \<Rightarrow> 'id node \<Rightarrow> bool" where
  "reader_ok r n \<longleftrightarrow>
     r_buf r < n_ibNext n \<and> ib_inv (n_ib n (r_buf r)) \<and>
     (\<forall>b. r_nextBuffer r = Some b \<longrightarrow>
        b < n_ibNext n \<and> b \<noteq> r_buf r \<and> ib_inv (n_ib n b) \<and>
        (\<not> ib_closed (n_ib n (r_buf r)) \<longrightarrow> content (n_ib n b) = []))"

lemma push_outcome:
  "fst (ib_Push p b) = None \<Longrightarrow> \<not> ib_closed b \<and> content (snd (ib_Push p b)) = content b @ p"
  "fst (ib_Push p b) \<noteq> None \<Longrightarrow> snd (ib_Push p b) = b"
  "ib_closed b \<Longrightarrow> ib_Push p b = (Some ErrBufferClosed, b)"
  "\<not> ib_closed b \<Longrightarrow> fst (ib_Push p b) \<noteq> Some ErrBufferClosed"
  "ib_closed (snd (ib_Push p b)) = ib_closed b"
  by (auto simp: ib_Push_def content_def ib_signal_def split: if_splits)

lemma upd_ib_id: "g (n_ib n a) = n_ib n a \<Longrightarrow> upd_ib a g n = n"
  by (simp add: upd_ib_def)

lemma reader_Push_stream:
  assumes "reader_ok r n" and "reader_Push r p n = (e, n')"
  shows "reader_ok r n'" and "reader_stream r n' = reader_stream r n @ (if e = None then p else [])"
    and "n_sess n' = n_sess n"
proof -
  have "reader_ok r n' \<and> reader_stream r n' = reader_stream r n @ (if e = None then p else []) \<and>
      n_sess n' = n_sess n"
  proof (cases "ib_closed (n_ib n (r_buf r))")
    case False
    have "fst (ib_Push p (n_ib n (r_buf r))) \<noteq> Some ErrBufferClosed"
      by (rule push_outcome(4) [OF False])
    then have "e = fst (ib_Push p (n_ib n (r_buf r)))"
      and "n' = upd_ib (r_buf r) (\<lambda>b. snd (ib_Push p b)) n"
      using assms(2) by (auto simp: reader_Push_def push_to_def Let_def split: option.splits)
    then show ?thesis
      using assms(1) False push_outcome(1,2) [of p "n_ib n (r_buf r)"]
      by (cases "e = None")
        (auto simp: reader_ok_def reader_stream_def push_outcome(5) ib_inv_Push split: option.split)
  next
    case True
    have same: "push_to (r_buf r) p n = (Some ErrBufferClosed, n)"
      using push_outcome(3) [OF True] by (simp add: push_to_def upd_ib_id)
    show ?thesis
    proof (cases "r_nextBuffer r")
      case None
      then show ?thesis using assms same by (auto simp: reader_Push_def)
    next
      case (Some b)
      then have "e = fst (ib_Push p (n_ib n b))" "n' = upd_ib b (\<lambda>b. snd (ib_Push p b)) n"
        using assms(2) same by (auto simp: reader_Push_def push_to_def Let_def)
      then show ?thesis
        using assms(1) True Some push_outcome(1,2) [of p "n_ib n b"]
        by (cases "e = None") (auto simp: reader_ok_def reader_stream_def ib_inv_Push)
    qed
  qed
  then show "reader_ok r n'" "reader_stream r n' = reader_stream r n @ (if e = None then p else [])"
    "n_sess n' = n_sess n" by blast+
qed

lemma reader_Advance_stream:
  assumes "reader_ok r n" and "s_reader (n_sess n s) = Some r"
  shows "\<exists>r'. s_reader (n_sess (reader_Advance s r n) s) = Some r' \<and>
           reader_ok r' (reader_Advance s r n) \<and>
           reader_stream r' (reader_Advance s r n) = reader_stream r n"
proof (cases "r_nextBuffer r")
  case (Some b)
  have empty: "content (n_ib n (r_buf r)) = []" if "ib_IsEmpty (ib_Close (n_ib n (r_buf r)))"
    using that assms(1) by (simp add: ib_IsEmpty_def ib_Close_frame reader_ok_def ib_inv_def)
  show ?thesis
    using assms Some empty
    by (auto simp: reader_Advance_def Let_def promote_def reader_ok_def reader_stream_def
        ib_Close_frame ib_inv_Close)
qed (use assms in \<open>auto simp: reader_Advance_def\<close>)

fun read_bytes :: "read_out \<Rightarrow> bytes" where
  "read_bytes (ReadData p) = p"
| "read_bytes _ = []"

lemma IB_EOF_content: "fst (ib_Read run k b s) = IB_EOF \<Longrightarrow> content b = [] \<and> ib_closed b"
  by (cases "ib_buf b") (auto simp: ib_Read_def content_def Let_def split: if_splits)

lemma reader_turn_stream:
  assumes "reader_ok r n" and "s_reader (n_sess n s) = Some r" and "reader_turn s r k n = (out, n')"
  shows "\<exists>r'. s_reader (n_sess n' s) = Some r' \<and> reader_ok r' n' \<and>
           reader_stream r n = read_bytes out @ reader_stream r' n' \<and>
           (out = ReadAgain \<longrightarrow> r_nextBuffer r' = None)"
proof (cases "r_paused r")
  case False
  let ?o = "ib_Read run_onRead k (n_ib n (r_buf r)) n"
  let ?n = "upd_ib (r_buf r) (\<lambda>_. fst (snd ?o)) (snd (snd ?o))"
  have inv: "ib_inv (fst (snd ?o))" "n_ibNext (snd (snd ?o)) = n_ibNext n"
    using assms(1) ib_Read_store [of n k "n_ib n (r_buf r)"]
    by (auto simp: reader_ok_def intro: ib_inv_Read)
  have ok: "reader_ok r ?n"
    using assms(1) inv by (auto simp: reader_ok_def ib_Read_frame)
  have str: "reader_stream r n = ib_result_bytes (fst ?o) @ reader_stream r ?n"
    using assms(1) ib_Read_content [of "n_ib n (r_buf r)" run_onRead k n]
    by (auto simp: reader_stream_def reader_ok_def split: option.split)
  have eof: "content (fst (snd ?o)) = []" "ib_closed (n_ib n (r_buf r))" if "fst ?o = IB_EOF"
    using IB_EOF_content [OF that] ib_Read_content [of "n_ib n (r_buf r)" run_onRead k n] by auto
  show ?thesis
  proof (cases "fst ?o")
    case IB_EOF
    then show ?thesis
      using assms ok str eof False
      by (cases "r_nextBuffer r")
        (auto simp: reader_turn_eq Let_def promote_def reader_ok_def reader_stream_def)
  qed (use assms ok str False in \<open>auto simp: reader_turn_eq Let_def\<close>)
qed (use assms in \<open>auto simp: reader_turn_def\<close>)

text \<open>A second turn never goes round again.\<close>

lemma reader_turn_once:
  "r_nextBuffer r = None \<Longrightarrow> fst (reader_turn s r k n) \<noteq> ReadAgain"
  by (auto simp: reader_turn_eq Let_def split: ib_result.split)

lemma reader_Read_stream:
  assumes "reader_ok r n" and "s_reader (n_sess n s) = Some r" and "reader_Read s k n = (out, n')"
  shows "\<exists>r'. s_reader (n_sess n' s) = Some r' \<and> reader_ok r' n' \<and>
           reader_stream r n = read_bytes out @ reader_stream r' n' \<and> out \<noteq> ReadAgain"
proof -
  obtain o1 n1 where t: "reader_turn s r k n = (o1, n1)" by fastforce
  obtain r1 where r1: "s_reader (n_sess n1 s) = Some r1" "reader_ok r1 n1"
    "reader_stream r n = read_bytes o1 @ reader_stream r1 n1" "o1 = ReadAgain \<longrightarrow> r_nextBuffer r1 = None"
    using reader_turn_stream [OF assms(1,2) t] by blast
  show ?thesis
  proof (cases "o1 = ReadAgain")
    case True
    obtain o2 n2 where t2: "reader_turn s r1 k n1 = (o2, n2)" by fastforce
    have "o2 \<noteq> ReadAgain" using reader_turn_once [of r1 s k n1] r1(4) True t2 by simp
    then show ?thesis
      using reader_turn_stream [OF r1(2,1) t2] assms(2,3) t t2 True r1
      by (auto simp: reader_Read_def Let_def)
  qed (use assms(2,3) t r1 in \<open>auto simp: reader_Read_def Let_def\<close>)
qed

text \<open>
  The reader of session \<open>s\<close> as a queue.  Besides taking and giving bytes it advances, and a
  migration that begins queues a new buffer, if none is queued.
\<close>

definition sess_put :: "nat \<Rightarrow> bytes \<Rightarrow> 'id node \<Rightarrow> bool \<times> 'id node" where
  "sess_put s p n =
     (let r = reader_Push (the (s_reader (n_sess n s))) p n in (fst r = None, snd r))"

definition sess_get :: "nat \<Rightarrow> nat \<Rightarrow> 'id node \<Rightarrow> bytes \<times> 'id node" where
  "sess_get s k n = (let r = reader_Read s k n in (read_bytes (fst r), snd r))"

definition queue_buffer :: "nat \<Rightarrow> closure \<Rightarrow> 'id node \<Rightarrow> 'id node" where
  "queue_buffer s c n =
     (let (b, n1) = alloc_ib (NewInputBuffer (int defaultBufferSize) (Some c)) n
      in reader_SetNextBuffer s b n1)"

inductive sess_tau :: "nat \<Rightarrow> 'id node \<Rightarrow> 'id node \<Rightarrow> bool" for s where
  st_advance: "s_reader (n_sess n s) = Some r \<Longrightarrow> sess_tau s n (reader_Advance s r n)"
| st_queue: "s_reader (n_sess n s) = Some r \<Longrightarrow> r_nextBuffer r = None \<Longrightarrow>
     sess_tau s n (queue_buffer s c n)"

definition sess_view :: "nat \<Rightarrow> 'id node \<Rightarrow> bytes" where
  "sess_view s n = reader_stream (the (s_reader (n_sess n s))) n"

definition sess_reader_ok :: "nat \<Rightarrow> 'id node \<Rightarrow> bool" where
  "sess_reader_ok s n \<longleftrightarrow> (\<exists>r. s_reader (n_sess n s) = Some r \<and> reader_ok r n)"

lemma queue_buffer_stream:
  assumes "reader_ok r n" and "s_reader (n_sess n s) = Some r" and "r_nextBuffer r = None"
  shows "sess_reader_ok s (queue_buffer s c n) \<and> sess_view s (queue_buffer s c n) = sess_view s n"
  using assms
  by (auto simp: queue_buffer_def sess_reader_ok_def sess_view_def reader_stream_def reader_ok_def
      reader_SetNextBuffer_def case_prod_beta ib_inv_New less_Suc_eq)

interpretation sess_fifo: fifo "sess_reader_ok s" "sess_view s" "sess_put s" "sess_get s" "sess_tau s"
proof
  fix n n' :: "'a node"
  assume "sess_reader_ok s n"
  then obtain r where r: "s_reader (n_sess n s) = Some r" "reader_ok r n"
    by (auto simp: sess_reader_ok_def)
  show "sess_reader_ok s n' \<and> sess_view s n' = sess_view s n @ (if b then p else [])"
    if "sess_put s p n = (b, n')" for p b
    using that r reader_Push_stream [OF r(2), of p "fst (reader_Push r p n)" n']
    by (cases "reader_Push r p n") (auto simp: sess_put_def sess_reader_ok_def sess_view_def Let_def)
  show "sess_reader_ok s n' \<and> sess_view s n = p @ sess_view s n'" if "sess_get s k n = (p, n')" for k p
    using that r reader_Read_stream [OF r(2,1), of k "fst (reader_Read s k n)" n']
    by (cases "reader_Read s k n") (auto simp: sess_get_def sess_reader_ok_def sess_view_def Let_def)
  show "sess_reader_ok s n' \<and> sess_view s n' = sess_view s n" if "sess_tau s n n'"
    using that
  proof cases
    case (st_advance r')
    then show ?thesis
      using r reader_Advance_stream [OF r(2,1)] by (auto simp: sess_reader_ok_def sess_view_def)
  next
    case (st_queue r' c)
    then show ?thesis using r queue_buffer_stream [OF r(2,1)] by auto
  qed
qed

subsection \<open>Properties\<close>

lemma created_reader_ok:
  assumes "set_law sset" and "mux_sessions n l nonce = None"
  shows "sess_reader_ok (n_sessNext n) (snd (createSession sset fresh l nonce rid sid q out pb n))"
    and "sess_view (n_sessNext n) (snd (createSession sset fresh l nonce rid sid q out pb n)) = []"
proof -
  show "sess_reader_ok (n_sessNext n) (snd (createSession sset fresh l nonce rid sid q out pb n))"
    by (simp add: createSession_new [OF assms] sess_reader_ok_def reader_ok_def created_session_def
        newSessionReader_def ib_inv_New)
  show "sess_view (n_sessNext n) (snd (createSession sset fresh l nonce rid sid q out pb n)) = []"
    by (simp add: createSession_new [OF assms] sess_view_def reader_stream_def created_session_def
        newSessionReader_def)
qed


definition demo_session :: "nat node" where
  "demo_session = snd (createSession set_if_absent 9 0 5 (Some 2) None [] False 10 demo0)"


subsection \<open>Writing\<close>

text \<open>A channel that never fails, and what a write makes it send.\<close>

definition reliable :: "nat \<Rightarrow> 'id node \<Rightarrow> bool" where
  "reliable l n \<longleftrightarrow> (\<forall>log f. ch_send (lk_ch (n_links n l)) log f = None)"

lemma reliable_Send: "reliable l n \<Longrightarrow> fst (mux_Send l f n) = None \<and> reliable l (snd (mux_Send l f n))"
  by (simp add: reliable_def mux_Send_def lk_Send_def ch_Send_def Let_def)

lemma reliable_onBytes: "reliable l n \<Longrightarrow> reliable l (upd_link l (lk_onBytes k t) n)"
  by (simp add: reliable_def lk_onBytes_def)

lemma run_onWrite_chunks:
  assumes "reliable l n"
  shows "fst (run_onWrite (l, nonce) p n) = None \<and>
         frames_sent (snd (run_onWrite (l, nonce) p n)) k = frames_sent n k @
           (if k = l then map (\<lambda>c. Data \<lparr>data_Nonce = nonce, data_Payload = c\<rparr>) (chunks p) else [])"
  using assms
proof (induction p arbitrary: n rule: chunks.induct)
  case (1 p)
  let ?send = "\<lambda>q. mux_Send l (Data \<lparr>data_Nonce = nonce, data_Payload = q\<rparr>)"
  let ?tally = "\<lambda>k m. upd_link l (lk_onBytes k (n_now m)) m"
  let ?k = "if length p < maxPayloadSize then length p else maxPayloadSize"
  let ?n1 = "?tally ?k (snd (?send (take maxPayloadSize p) n))"
  have take: "take ?k p = take maxPayloadSize p" "drop ?k p = drop maxPayloadSize p" by auto
  show ?case
  proof (cases "p = []")
    case True
    then show ?thesis by (simp add: run_onWrite_def sessionOnWrite.simps)
  next
    case False
    have ok: "fst (?send (take maxPayloadSize p) n) = None"
      and rel: "reliable l ?n1"
      using reliable_Send [OF 1(2)] reliable_onBytes by blast+
    have "run_onWrite (l, nonce) p n = run_onWrite (l, nonce) (drop maxPayloadSize p) ?n1"
      using False ok
      by (subst run_onWrite_def, subst sessionOnWrite.simps)
        (simp add: Let_def take run_onWrite_def)
    then show ?thesis
      using "1.IH" [OF False rel] False by (simp add: chunks.simps [of p])
  qed
qed

lemma write_buf_grants:
  assumes "reliable l n" and "\<not> ob_closed (n_ob n a)" and "ob_write (n_ob n a) = (l, nonce)"
    and "0 < ob_wsize (n_ob n a)"
  shows "\<exists>n'. write_buf a p n = (OB_Wrote (min (ob_wsize (n_ob n a)) (length p)) None, n') \<and>
           n_ob n' a = (n_ob n a)\<lparr>ob_wsize := ob_wsize (n_ob n a) - length p\<rparr> \<and>
           frames_sent n' k = frames_sent n k @
             (if k = l then map (\<lambda>c. Data \<lparr>data_Nonce = nonce, data_Payload = c\<rparr>)
                              (chunks (take (ob_wsize (n_ob n a)) p)) else [])"
proof -
  let ?q = "take (min (ob_wsize (n_ob n a)) (length p)) p"
  have q: "?q = take (ob_wsize (n_ob n a)) p" by (auto simp: min_def)
  have "write_buf a p n =
      (OB_Wrote (min (ob_wsize (n_ob n a)) (length p)) None,
       upd_ob a (\<lambda>_. (n_ob n a)\<lparr>ob_wsize := ob_wsize (n_ob n a) - length p\<rparr>)
         (snd (run_onWrite (l, nonce) ?q n)))"
    using assms(2-4) run_onWrite_chunks [OF assms(1), of nonce ?q]
    by (simp add: write_buf_def ob_Write_def Let_def min_def)
  then show ?thesis
    using run_onWrite_chunks [OF assms(1), of nonce ?q k] by (simp add: q)
qed

lemma write_buf_empty:
  assumes "\<not> ob_closed (n_ob n a)" and "ob_wsize (n_ob n a) = 0"
  shows "\<exists>ch n'. write_buf a p n = (OB_Empty ch, n') \<and> ob_wsize (n_ob n' a) = 0 \<and>
           (\<forall>k. frames_sent n' k = frames_sent n k)"
  using assms by (simp add: write_buf_def ob_Write_def Let_def)

text \<open>
  C20.  A write sends as much as was granted, no more, and waits for the rest.  On a link that
  takes the frames, the bytes sent are the first \<open>c\<close> of those written, \<open>c\<close> being the credit,
  cut into data frames of the session in order; the credit is used up by as much; and the
  write returns when all was covered, and otherwise waits with exactly the rest.
\<close>

theorem write_uses_credit:
  assumes "\<not> w_paused w" and "\<not> w_closed w" and "\<not> ob_closed (n_ob n (w_buf w))"
    and "ob_write (n_ob n (w_buf w)) = (l, nonce)" and "reliable l n"
    and "c = ob_wsize (n_ob n (w_buf w))"
  shows "\<exists>ch n'. writer_Write w 0 p n =
             ((if length p \<le> c then WriteDone (length p) else WriteWait c (drop c p) (w_buf w) ch), n') \<and>
           ob_wsize (n_ob n' (w_buf w)) = c - length p \<and>
           (\<forall>k. frames_sent n' k = frames_sent n k @
             (if k = l then map (\<lambda>d. Data \<lparr>data_Nonce = nonce, data_Payload = d\<rparr>) (chunks (take c p))
              else []))"
proof (cases "p = [] \<or> c = 0")
  case True
  then show ?thesis
    using write_buf_empty [of n "w_buf w" p] assms
    by (subst writer_Write.simps) auto
next
  case False
  obtain n1 where n1: "write_buf (w_buf w) p n = (OB_Wrote (min c (length p)) None, n1)"
    "n_ob n1 (w_buf w) = (n_ob n (w_buf w))\<lparr>ob_wsize := c - length p\<rparr>"
    using write_buf_grants [OF assms(5,3,4), of p] False assms(6) by auto
  have fr: "frames_sent n1 k = frames_sent n k @
      (if k = l then map (\<lambda>d. Data \<lparr>data_Nonce = nonce, data_Payload = d\<rparr>) (chunks (take c p)) else [])" for k
    using write_buf_grants [OF assms(5,3,4), of p k] False assms(6) n1(1) by auto
  have step: "writer_Write w 0 p n = writer_Write w (min c (length p)) (drop (min c (length p)) p) n1"
    using False assms(1,2) n1(1) by (subst writer_Write.simps) simp
  show ?thesis
  proof (cases "length p \<le> c")
    case True
    then have "writer_Write w 0 p n = (WriteDone (length p), n1)"
      by (subst step, subst writer_Write.simps) (simp add: min_def)
    with True fr n1(2) show ?thesis by auto
  next
    case long: False
    then have "ob_wsize (n_ob n1 (w_buf w)) = 0" "\<not> ob_closed (n_ob n1 (w_buf w))"
      using n1(2) assms(3) by simp_all
    from write_buf_empty [OF this(2,1), of "drop c p"] obtain ch n2 where
      "write_buf (w_buf w) (drop c p) n1 = (OB_Empty ch, n2)" "ob_wsize (n_ob n2 (w_buf w)) = 0"
      "\<forall>k. frames_sent n2 k = frames_sent n1 k" by blast
    then have "writer_Write w 0 p n = (WriteWait c (drop c p) (w_buf w) ch, n2)"
      using long assms(1,2) by (subst step, subst writer_Write.simps) (simp add: min_def)
    then show ?thesis
      using long fr \<open>\<forall>k. frames_sent n2 k = frames_sent n1 k\<close> \<open>ob_wsize (n_ob n2 (w_buf w)) = 0\<close>
      by auto
  qed
qed

theorem write_uses_credit_witness:
  "\<exists>ch n'. writer_Write (newSessionWriter 0 (Some (0, 5))) 0 [1, 2, 3, 4, 5, 6, 7, 8, 9, 10, 11, 12] demo1 =
     (WriteWait 10 [11, 12] 0 ch, n')"
proof -
  let ?w = "newSessionWriter 0 (Some (0, 5))"
  have ob: "n_ob demo1 0 = ob_Grow 10 (NewOutputBuffer (0, 5))" by (simp add: demo1_eq)
  have rel: "reliable 0 demo1" by (simp add: reliable_def demo1_eq) (simp add: demo0_def newLink_def)
  let ?p = "[1, 2, 3, 4, 5, 6, 7, 8, 9, 10, 11, 12] :: bytes"
  have "\<not> w_paused ?w" "\<not> w_closed ?w" "w_buf ?w = 0" by (simp_all add: newSessionWriter_def)
  note w = this
  have "\<not> ob_closed (n_ob demo1 (w_buf ?w))" "ob_write (n_ob demo1 (w_buf ?w)) = (0, 5)"
    "10 = ob_wsize (n_ob demo1 (w_buf ?w))"
    by (simp_all add: w(3) ob NewOutputBuffer_def)
  from write_uses_credit [OF w(1,2) this(1,2) rel this(3), of ?p] obtain ch n' where
    "writer_Write ?w 0 ?p demo1 =
       ((if length ?p \<le> 10 then WriteDone (length ?p) else WriteWait 10 (drop 10 ?p) (w_buf ?w) ch), n')"
    by blast
  then have "writer_Write ?w 0 ?p demo1 = (WriteWait 10 [11, 12] 0 ch, n')"
    by (simp add: newSessionWriter_def)
  then show ?thesis by blast
qed

end
