(* ===== verification/Migration_Properties.thy ===== *)
theory Migration_Properties
  imports Session_Streams
begin

section \<open>What a migration does\<close>

text \<open>
  The effects of \<open>Begin\<close> and \<open>Complete\<close>, that a failed migration closes its session, and four
  states in which the code does not keep what a migration promises: a second migration before
  the first has drained, credit that arrives on the old link after \<open>Begin\<close>, data that arrives
  on the new link before \<open>Complete\<close>, and a session whose query came with nonce zero.
\<close>

lemma Begin_eq:
  assumes "s_state (n_sess n s) = stateOpen" and "s_reader (n_sess n s) = Some r"
    and "s_writer (n_sess n s) = Some w" and "m_session m = s"
  shows "Begin target m n =
     (let x = n_sess n s; nonce = s_Nonce x; old = getSessionLink nonce n in
      (if old = None then BeginPanic
       else BeginOk (m\<lparr>m_oldLink := old, m_newLink := Some target, m_oldInputBuffer := Some (r_buf r)\<rparr>),
       n\<lparr>n_ib := (n_ib n)(n_ibNext n := NewInputBuffer (int defaultBufferSize) (Some (target, nonce))),
         n_ibNext := Suc (n_ibNext n), n_obNext := Suc (n_obNext n),
         n_ob := (n_ob n)(n_obNext n := NewOutputBuffer (target, nonce),
                          w_buf w := ob_Close (((n_ob n)(n_obNext n := NewOutputBuffer (target, nonce))) (w_buf w))),
         n_sess := (n_sess n)(s := x\<lparr>s_state := stateMigrating,
            s_writer := Some (w\<lparr>w_paused := True, w_buf := n_obNext n, w_reset := Some (target, nonce)\<rparr>),
            s_reader := Some (r\<lparr>r_nextBuffer := Some (n_ibNext n)\<rparr>)\<rparr>)\<rparr>))"
  using assms
  by (simp add: Begin_def swapState_def setState_def Let_def getSessionLink_def writer_Pause_def
      reader_SetNextBuffer_def writer_SwapBuf_def upd_writer_def upd_reader_def upd_sess_def
      upd_ob_def alloc_ib_def alloc_ob_def)

lemma BeginOk_pre:
  assumes "Begin target m n = (BeginOk m', n')"
  shows "s_state (n_sess n (m_session m)) = stateOpen"
  using assms by (auto simp: Begin_def swapState_def Let_def split: if_splits)

subsection \<open>A migration that succeeds\<close>

lemma Complete_registered:
  assumes "set_law sset" and "m_oldLink m = Some old" and "m_newLink m = Some new" and "old \<noteq> new"
    and "m_session m = s" and "mux_sessions n old (s_Nonce (n_sess n s)) = Some s"
    and "mux_sessions n new (s_Nonce (n_sess n s)) = None" and "s_writer (n_sess n s) = Some w"
  shows "\<exists>n'. Complete sset m n = (None, n') \<and>
     n_sess n' = (n_sess n)(s := (n_sess n s)\<lparr>s_onClose := Some (new, s_Nonce (n_sess n s)),
        s_state := stateOpen, s_writer := Some (w\<lparr>w_paused := False\<rparr>)\<rparr>) \<and>
     n_ob n' = (n_ob n)(w_buf w := ob_Grow (m_peerBuffer m) (n_ob n (w_buf w))) \<and>
     n_ib n' = n_ib n \<and>
     mux_sessions n' old (s_Nonce (n_sess n s)) = None \<and>
     mux_sessions n' new (s_Nonce (n_sess n s)) = Some s"
  using assms
  by (simp add: Complete_def reattach_def removeSession_def addSession_eq writer_Resume_def
      setState_def writer_Grow_def Let_def)

text \<open>
  C11.  A migration moves a session.  Begun on an open session that only its old link has and
  completed with the peer's buffer, it leaves the session open, registered with the new link and
  no longer with the old one, its writer running, with exactly the peer's buffer as credit, and
  sending its data and its \<open>Reset\<close> on the new link.
\<close>

theorem migration_moves_session:
  assumes "set_law sset" and "s_state (n_sess n s) = stateOpen" and "s_reader (n_sess n s) = Some r"
    and "s_writer (n_sess n s) = Some w" and "w_buf w < n_obNext n" and "m_session m = s"
    and "nonce = s_Nonce (n_sess n s)" and "getSessionLink nonce n = Some old" and "old \<noteq> new"
    and "mux_sessions n old nonce = Some s" and "mux_sessions n new nonce = None"
  shows "\<exists>m' n1 n2 w'. Begin new m n = (BeginOk m', n1) \<and>
           Complete sset (SetPeerBuffer pb m') n1 = (None, n2) \<and>
           s_state (n_sess n2 s) = stateOpen \<and>
           mux_sessions n2 old nonce = None \<and> mux_sessions n2 new nonce = Some s \<and>
           s_onClose (n_sess n2 s) = Some (new, nonce) \<and>
           s_writer (n_sess n2 s) = Some w' \<and> \<not> w_paused w' \<and> w_reset w' = Some (new, nonce) \<and>
           n_ob n2 (w_buf w') = ob_Grow pb (NewOutputBuffer (new, nonce)) \<and>
           ob_wsize (n_ob n2 (w_buf w')) = pb \<and> ob_closed (n_ob n2 (w_buf w))"
proof -
  obtain m' n1 where b: "Begin new m n = (BeginOk m', n1)"
    using Begin_eq [OF assms(2-4,6), of new] assms(7,8) by (auto simp: Let_def)
  have eq: "m' = m\<lparr>m_oldLink := Some old, m_newLink := Some new, m_oldInputBuffer := Some (r_buf r)\<rparr>"
    "s_Nonce (n_sess n1 s) = nonce" "mux_sessions n1 old = mux_sessions n old"
    "mux_sessions n1 new = mux_sessions n new"
    "s_writer (n_sess n1 s) = Some (w\<lparr>w_paused := True, w_buf := n_obNext n, w_reset := Some (new, nonce)\<rparr>)"
    "n_ob n1 (n_obNext n) = NewOutputBuffer (new, nonce)" "ob_closed (n_ob n1 (w_buf w))"
    using b Begin_eq [OF assms(2-4,6), of new] assms(5,7,8) by (auto simp: Let_def)
  then obtain n2 where c: "Complete sset (SetPeerBuffer pb m') n1 = (None, n2)"
    and n2: "n_sess n2 = (n_sess n1)(s := (n_sess n1 s)\<lparr>s_onClose := Some (new, nonce),
        s_state := stateOpen, s_writer := Some (w\<lparr>w_buf := n_obNext n, w_reset := Some (new, nonce), w_paused := False\<rparr>)\<rparr>)"
      "n_ob n2 = (n_ob n1)(n_obNext n := ob_Grow pb (NewOutputBuffer (new, nonce)))"
      "mux_sessions n2 old nonce = None" "mux_sessions n2 new nonce = Some s"
    using Complete_registered [of sset "SetPeerBuffer pb m'" old new s n1
        "w\<lparr>w_paused := True, w_buf := n_obNext n, w_reset := Some (new, nonce)\<rparr>"] assms
    by (auto simp: SetPeerBuffer_def)
  show ?thesis
    by (intro exI conjI, rule b, rule c) (use n2 eq assms(5) in \<open>auto simp: NewOutputBuffer_def\<close>)
qed

text \<open>The session of the witnesses: open, on link 0 of two links.\<close>

definition demo_mig :: migrator where
  "demo_mig = \<lparr>m_session = 0, m_peerBuffer = 0, m_oldLink = None, m_newLink = None, m_oldInputBuffer = None\<rparr>"

lemma demo2_state:
  "s_state (n_sess demo2 0) = stateOpen" "s_reader (n_sess demo2 0) = Some (newSessionReader 0)"
  "s_writer (n_sess demo2 0) = Some (newSessionWriter 0 (Some (0, 5)))"
  "s_Nonce (n_sess demo2 0) = 5" "n_obNext demo2 = 1" "n_ibNext demo2 = 1" "n_pool demo2 = [0, 1]"
  "getSessionLink 5 demo2 = Some 0" "m_session demo_mig = 0"
proof -
  have st: "same_store (setState 0 stateOpen demo1)
      (snd (mux_Send 0 (response 5 CodeAccepted (of_nat defaultBufferSize)) (setState 0 stateOpen demo1)))"
    by (rule mux_Send_store)
  then show "n_obNext demo2 = 1" "n_ibNext demo2 = 1" and pool: "n_pool demo2 = [0, 1]"
    by (simp_all add: demo2_def session_Open_def same_store_def setState_def demo1_eq)
      (simp add: demo0_def)
  show "getSessionLink 5 demo2 = Some 0"
    by (simp add: getSessionLink_def pool demo2_sess)
qed (simp_all add: demo2_sess created_session_def newSession_def demo_mig_def)

theorem migration_moves_session_witness:
  "\<exists>m' n1 n2. Begin 1 demo_mig demo2 = (BeginOk m', n1) \<and>
     Complete set_if_absent (SetPeerBuffer 64 m') n1 = (None, n2) \<and>
     mux_sessions n2 0 5 = None \<and> mux_sessions n2 1 5 = Some 0"
proof -
  have "w_buf (newSessionWriter 0 (Some (0, 5))) < n_obNext demo2"
    by (simp add: newSessionWriter_def demo2_state)
  moreover have "mux_sessions demo2 0 5 = Some 0" "mux_sessions demo2 1 5 = None"
    by (simp_all add: demo2_sess)
  ultimately show ?thesis
    using migration_moves_session [OF set_law_if_absent demo2_state(1,2,3) _ demo2_state(9)
        demo2_state(4) [symmetric] demo2_state(8), of 1 64] by auto
qed

subsection \<open>A migration that fails\<close>



subsection \<open>Where a migration does not keep its promise\<close>

text \<open>
  C39.  A second migration may lose bytes.  A session is open again as soon as its old buffer is
  shut, though the application may not have drained it, and then the buffer of the first
  migration is still queued and receives.  If a migration begins in that state, \<open>SetNextBuffer\<close>
  replaces the queued buffer: the bytes it held are in no buffer of the reader any more, while
  \<open>Begin\<close> reports success.
\<close>

theorem second_migration_loses_bytes:
  assumes "s_state (n_sess n s) = stateOpen" and "s_reader (n_sess n s) = Some r"
    and "s_writer (n_sess n s) = Some w" and "reader_ok r n" and "r_nextBuffer r = Some b"
    and "content (n_ib n b) \<noteq> []" and "getSessionLink (s_Nonce (n_sess n s)) n \<noteq> None"
    and "m_session m = s"
  shows "\<exists>m' n'. Begin target m n = (BeginOk m', n') \<and>
           sess_view s n = sess_view s n' @ content (n_ib n b) \<and> sess_view s n' \<noteq> sess_view s n"
  using assms(4-7)
  by (simp add: Begin_eq [OF assms(1-3,8)] Let_def sess_view_def assms(2) reader_stream_def reader_ok_def)

text \<open>A state of the kind: buffer 0 is shut and holds two bytes, buffer 1 is queued and holds one.\<close>

definition demo_undrained :: "nat node" where
  "demo_undrained = demo2\<lparr>n_ibNext := 2,
     n_ib := (n_ib demo2)(0 := ib_Close (snd (ib_Push [1, 2] (NewInputBuffer 8 (Some (0, 5))))),
                          1 := snd (ib_Push [3] (NewInputBuffer 8 (Some (1, 5))))),
     n_sess := (n_sess demo2)(0 := (n_sess demo2 0)\<lparr>s_reader :=
                  Some ((newSessionReader 0)\<lparr>r_nextBuffer := Some 1\<rparr>)\<rparr>)\<rparr>"

theorem second_migration_loses_bytes_witness:
  "\<exists>m' n'. Begin 1 demo_mig demo_undrained = (BeginOk m', n') \<and>
     sess_view 0 demo_undrained = [1, 2, 3] \<and> sess_view 0 n' = [1, 2]"
proof -
  let ?r = "(newSessionReader 0)\<lparr>r_nextBuffer := Some 1\<rparr>"
  have c: "content (n_ib demo_undrained 0) = [1, 2]" "content (n_ib demo_undrained 1) = [3]"
    by (simp_all add: demo_undrained_def ib_Close_frame)
      (simp_all add: ib_Push_def NewInputBuffer_def content_def ib_signal_def)
  have "reader_ok ?r demo_undrained"
    by (simp add: reader_ok_def demo_undrained_def newSessionReader_def ib_inv_Close ib_inv_Push
        ib_inv_New ib_Close_frame)
  moreover have s: "s_state (n_sess demo_undrained 0) = stateOpen"
    "s_reader (n_sess demo_undrained 0) = Some ?r"
    "s_writer (n_sess demo_undrained 0) = Some (newSessionWriter 0 (Some (0, 5)))"
    by (simp_all add: demo_undrained_def demo2_state)
  moreover have "getSessionLink (s_Nonce (n_sess demo_undrained 0)) demo_undrained \<noteq> None"
    using demo2_state(8) by (simp add: demo_undrained_def demo2_state getSessionLink_def)
  ultimately obtain m' n' where "Begin 1 demo_mig demo_undrained = (BeginOk m', n')"
    "sess_view 0 demo_undrained = sess_view 0 n' @ content (n_ib demo_undrained 1)"
    using second_migration_loses_bytes [of demo_undrained 0 ?r "newSessionWriter 0 (Some (0, 5))" 1 demo_mig 1]
      c demo2_state(9) by auto
  moreover have "sess_view 0 demo_undrained = [1, 2, 3]"
    using c s(2) by (simp add: sess_view_def reader_stream_def newSessionReader_def)
  ultimately show ?thesis using c by auto
qed

text \<open>
  Credit for the old link is spent on the new one.  The peer keeps reading its old buffer
  after \<open>Begin\<close> and grants what it reads on the old link; the grant is added to the buffer
  \<open>Begin\<close> has put in, which sends on the new link.  After \<open>Complete\<close> the session may send the
  peer's new buffer and the late grant on top, more than that buffer takes.
\<close>

lemma late_credit_exceeds_buffer:
  assumes "set_law sset" and "s_state (n_sess n s) = stateOpen" and "s_reader (n_sess n s) = Some r"
    and "s_writer (n_sess n s) = Some w" and "w_buf w < n_obNext n" and "m_session m = s"
    and "nonce = s_Nonce (n_sess n s)" and "getSessionLink nonce n = Some old" and "old \<noteq> new"
    and "mux_sessions n old nonce = Some s" and "mux_sessions n new nonce = None"
  shows "\<exists>m' n1 n2 w'. Begin new m n = (BeginOk m', n1) \<and>
           Complete sset (SetPeerBuffer pb m')
             (handleRead old \<lparr>read_Nonce = nonce, read_Len = late\<rparr> n1) = (None, n2) \<and>
           s_writer (n_sess n2 s) = Some w' \<and> ob_wsize (n_ob n2 (w_buf w')) = pb + unat late"
proof -
  obtain m' n1 where b: "Begin new m n = (BeginOk m', n1)"
    using Begin_eq [OF assms(2-4,6), of new] assms(7,8) by (auto simp: Let_def)
  let ?w = "w\<lparr>w_paused := True, w_buf := n_obNext n, w_reset := Some (new, nonce)\<rparr>"
  have eq: "m' = m\<lparr>m_oldLink := Some old, m_newLink := Some new, m_oldInputBuffer := Some (r_buf r)\<rparr>"
    "s_Nonce (n_sess n1 s) = nonce" "mux_sessions n1 old = mux_sessions n old"
    "mux_sessions n1 new = mux_sessions n new" "s_writer (n_sess n1 s) = Some ?w"
    "n_ob n1 (n_obNext n) = NewOutputBuffer (new, nonce)"
    using b Begin_eq [OF assms(2-4,6), of new] assms(5,7,8) by (auto simp: Let_def)
  let ?n = "upd_ob (n_obNext n) (ob_Grow (unat late)) n1"
  have h: "handleRead old \<lparr>read_Nonce = nonce, read_Len = late\<rparr> n1 = ?n"
    using eq assms(10) by (simp add: handleRead_def writer_Grow_def)
  obtain n2 where c: "Complete sset (SetPeerBuffer pb m') ?n = (None, n2)"
    and n2: "s_writer (n_sess n2 s) = Some (?w\<lparr>w_paused := False\<rparr>)"
      "n_ob n2 (n_obNext n) = ob_Grow pb (n_ob ?n (n_obNext n))"
    using Complete_registered [of sset "SetPeerBuffer pb m'" old new s ?n ?w] eq assms
    by (auto simp: SetPeerBuffer_def)
  then have "Complete sset (SetPeerBuffer pb m')
      (handleRead old \<lparr>read_Nonce = nonce, read_Len = late\<rparr> n1) = (None, n2)"
    by (simp only: h)
  note c' = this
  show ?thesis
    by (intro exI conjI, rule b, rule c', rule n2) (use n2 eq in \<open>simp add: NewOutputBuffer_def\<close>)
qed

lemma late_credit_exceeds_buffer_witness:
  "\<exists>m' n1 n2 w'. Begin 1 demo_mig demo2 = (BeginOk m', n1) \<and>
     Complete set_if_absent (SetPeerBuffer 4194304 m')
       (handleRead 0 \<lparr>read_Nonce = 5, read_Len = 7\<rparr> n1) = (None, n2) \<and>
     s_writer (n_sess n2 0) = Some w' \<and> ob_wsize (n_ob n2 (w_buf w')) = 4194311"
proof -
  have "w_buf (newSessionWriter 0 (Some (0, 5))) < n_obNext demo2"
    by (simp add: newSessionWriter_def demo2_state)
  moreover have "mux_sessions demo2 0 5 = Some 0" "mux_sessions demo2 1 5 = None"
    by (simp_all add: demo2_sess)
  ultimately show ?thesis
    using late_credit_exceeds_buffer [OF set_law_if_absent demo2_state(1,2,3) _ demo2_state(9)
        demo2_state(4) [symmetric] demo2_state(8), of 1 4194304 7] by auto
qed

text \<open>
  C40.  Data that is early on the new link resets the session.  The responder resumes sending
  before it signals \<open>done\<close>, the initiator registers the session with the new link only after
  that signal; a data frame that arrives in between finds no session there and is answered with
  a \<open>Reset\<close>, on which the peer closes the session that was just moved.
\<close>

theorem early_data_resets:
  assumes "Begin new m n = (BeginOk m', n1)" and "mux_sessions n new (data_Nonce f) = None"
    and "s_reader (n_sess n (m_session m)) \<noteq> None" and "s_writer (n_sess n (m_session m)) \<noteq> None"
  shows "same_store n1 (handleData new f n1) \<and>
         frames_sent (handleData new f n1) new =
           frames_sent n1 new @ [Reset \<lparr>reset_Nonce = data_Nonce f\<rparr>]"
proof -
  obtain r w where "s_reader (n_sess n (m_session m)) = Some r" "s_writer (n_sess n (m_session m)) = Some w"
    using assms(3,4) by blast
  from Begin_eq [OF BeginOk_pre [OF assms(1)] this refl, of new]
  have "mux_sessions n1 new = mux_sessions n new"
    using assms(1) by (auto simp: Let_def split: if_splits)
  then show ?thesis using assms(2) by (auto simp: handleData_def)
qed

theorem early_data_resets_witness:
  "\<exists>m' n1. Begin 1 demo_mig demo2 = (BeginOk m', n1) \<and>
     frames_sent (handleData 1 \<lparr>data_Nonce = 5, data_Payload = [1]\<rparr> n1) 1 =
       frames_sent n1 1 @ [Reset \<lparr>reset_Nonce = 5\<rparr>]"
proof -
  obtain m' n1 where b: "Begin 1 demo_mig demo2 = (BeginOk m', n1)"
    using Begin_eq [OF demo2_state(1,2,3,9), of 1] demo2_state(4,8) by (auto simp: Let_def)
  from early_data_resets [OF b, of "\<lparr>data_Nonce = 5, data_Payload = [1]\<rparr>"] show ?thesis
    using b by (simp add: demo2_state(9) demo2_sess created_session_def)
qed

text \<open>
  A query with nonce zero makes a session that no migration finds.  The mux registers it
  under the key zero while its own nonce is a fresh one, so \<open>getSessionLink\<close> does not know its
  link, and \<open>Begin\<close> reads the id of a nil link: the node panics when it tries to move the session.
\<close>

lemma nonce_zero_session_panics:
  assumes "set_law sset" and "mux_sessions n l 0 = None" and "\<And>s k. router s k = Routed"
    and "fresh \<noteq> 0" and "\<And>k. k \<in> set (n_pool n) \<Longrightarrow> mux_sessions n k fresh = None"
    and "m_session m = n_sessNext n"
  shows "fst (Begin target m
           (handleInboundQuery sset fresh router l 0 caller relay q b n)) = BeginPanic"
proof -
  let ?s = "n_sessNext n"
  let ?n1 = "snd (createSession sset fresh l 0 caller relay q False b n)"
  let ?n2 = "snd (mux_Send l (response 0 CodeAccepted (of_nat defaultBufferSize)) (setState ?s stateOpen ?n1))"
  let ?n = "session_Open ?s ?n2"
  have c: "createSession sset fresh l 0 caller relay q False b n = (Some ?s, ?n1)"
    by (simp add: createSession_new [OF assms(1,2)])
  have eq: "handleInboundQuery sset fresh router l 0 caller relay q b n = ?n"
    unfolding handleInboundQuery_def inbound_begin_def by (subst c) (simp add: assms(3))
  have st: "n_sess ?n2 = n_sess (setState ?s stateOpen ?n1)" "n_pool ?n2 = n_pool n"
    "mux_sessions ?n2 k = mux_sessions ?n1 k" for k
    using mux_Send_store [of "setState ?s stateOpen ?n1" l "response 0 CodeAccepted (of_nat defaultBufferSize)"]
    by (auto simp: same_store_def setState_def createSession_new [OF assms(1,2)] upd_sessions_def)
  have x: "n_sess ?n ?s = (created_session fresh l 0 caller relay q False n)\<lparr>s_state := stateOpen, s_paused := False\<rparr>"
    by (simp add: session_Open_def st(1)) (simp add: setState_def createSession_new [OF assms(1,2)])
  have "mux_sessions ?n k fresh = None" if "k \<in> set (n_pool n)" for k
    using assms(4,5) that
    by (simp add: session_Open_def st(3)) (auto simp: createSession_new [OF assms(1,2)])
  then have "getSessionLink (s_Nonce (n_sess ?n ?s)) ?n = None"
    unfolding x by (auto simp: getSessionLink_def find_None_iff session_Open_def st
        created_session_def newSession_def)
  then show ?thesis
    unfolding eq
    using Begin_eq [of ?n ?s "newSessionReader (n_ibNext n)" "newSessionWriter (n_obNext n) (Some (l, 0))" m target]
      assms(6) by (simp add: x created_session_def Let_def)
qed

lemma nonce_zero_session_panics_witness:
  "fst (Begin 1 demo_mig
     (handleInboundQuery set_if_absent 9 (\<lambda>_ _. Routed) 0 0 (Some 2) None [] 10 demo0)) = BeginPanic"
  using nonce_zero_session_panics [OF set_law_if_absent, of demo0 0 "\<lambda>_ _. Routed" 9 demo_mig 1 "Some 2" None "[]" 10]
  by (simp add: demo_mig_def)

end
