(* ===== verification/Link_Pool.thy ===== *)
theory Link_Pool
  imports Node_Runs
begin

section \<open>The pool of links (\<open>link_pool.go\<close>, \<open>node_linker.go\<close>)\<close>

text \<open>
  The pool holds the links of the node, the watchers that wait for a new link, and one linker
  per peer.  Links are those of the store, \<open>n_pool\<close> lists the members in the order the set
  hands them out; watchers have an address and a channel with room for one link.  Adding a
  link and closing the pool are not under one lock: each is cut where another goroutine may
  come in between.

  \<open>sig.Set\<close> is code of another library: its operations are arguments.  The source relies on
  members being kept once, on \<open>Add\<close> failing only for a member, and on nothing about the order.
  The endpoints of a link's connection, the builders of strategies and the identity of the
  pool's node are arguments too.
\<close>

subsection \<open>Sets of the library\<close>

record set_ops =
  ss_Add :: "nat \<Rightarrow> nat list \<Rightarrow> nat list option"
  ss_Remove :: "nat \<Rightarrow> nat list \<Rightarrow> nat list"

definition set_ops_law :: "set_ops \<Rightarrow> bool" where
  "set_ops_law so \<longleftrightarrow>
     (\<forall>x xs. distinct xs \<longrightarrow>
        (case ss_Add so x xs of
           None \<Rightarrow> x \<in> set xs
         | Some ys \<Rightarrow> x \<notin> set xs \<and> distinct ys \<and> set ys = insert x (set xs)) \<and>
        distinct (ss_Remove so x xs) \<and> set (ss_Remove so x xs) = set xs - {x})"

definition list_set :: set_ops where
  "list_set =
     \<lparr>ss_Add = (\<lambda>x xs. if x \<in> set xs then None else Some (xs @ [x])), ss_Remove = removeAll\<rparr>"

lemma list_set_law: "set_ops_law list_set"
  by (auto simp: set_ops_law_def list_set_def removeAll_filter_not_eq)

lemma set_ops_lawD:
  assumes "set_ops_law so" and "distinct xs"
  shows "ss_Add so x xs = Some ys \<Longrightarrow> x \<notin> set xs \<and> distinct ys \<and> set ys = insert x (set xs)"
    and "ss_Add so x xs = None \<Longrightarrow> x \<in> set xs"
    and "distinct (ss_Remove so x xs)" and "set (ss_Remove so x xs) = set xs - {x}"
  using assms by (auto simp: set_ops_law_def split: option.splits dest: spec2 [of _ x xs])

subsection \<open>The records\<close>

record RetrieveLinkOptions =
  o_ForceNew :: bool
  o_Strategies :: "string list"
  o_Networks :: "string list"

definition WithForceNew :: "RetrieveLinkOptions \<Rightarrow> RetrieveLinkOptions" where
  "WithForceNew o' = o'\<lparr>o_ForceNew := True\<rparr>"

definition WithStrategies :: "string list \<Rightarrow> RetrieveLinkOptions \<Rightarrow> RetrieveLinkOptions" where
  "WithStrategies ss o' = o'\<lparr>o_Strategies := o_Strategies o' @ ss\<rparr>"

definition WithNetworks :: "string list \<Rightarrow> RetrieveLinkOptions \<Rightarrow> RetrieveLinkOptions" where
  "WithNetworks ns o' = o'\<lparr>o_Networks := o_Networks o' @ ns\<rparr>"

definition retrieveOptions :: "(RetrieveLinkOptions \<Rightarrow> RetrieveLinkOptions) list \<Rightarrow> RetrieveLinkOptions" where
  "retrieveOptions opts =
     fold (\<lambda>f. f) opts \<lparr>o_ForceNew = False, o_Strategies = [], o_Networks = []\<rparr>"

record 'id linkWatcher =
  wt_target :: 'id
  wt_opts :: RetrieveLinkOptions
  wt_ch :: "nat option"

record ('id, 'st) NodeLinker =
  nl_Target :: 'id
  nl_strategies :: "string \<rightharpoonup> 'st"

datatype 'id pool_event =
    LinkCreatedEvent 'id nonce "32 word"
  | LinkClosedEvent 'id bool "8 word"

record ('id, 'st) LinkPool =
  pl_closed :: bool
  pl_node :: "'id node"
  pl_watchers :: "nat list"
  pl_watch :: "nat \<rightharpoonup> 'id linkWatcher"
  pl_watchNext :: nat
  pl_linkers :: "'id \<rightharpoonup> ('id, 'st) NodeLinker"
  pl_events :: "'id pool_event list"

abbreviation pl_links :: "('id, 'st) LinkPool \<Rightarrow> nat list" where
  "pl_links p \<equiv> n_pool (pl_node p)"

abbreviation lk_remote :: "'id node \<Rightarrow> nat \<Rightarrow> 'id" where
  "lk_remote n l \<equiv> remoteIdentity (lk_mux (n_links n l))"

definition NewLinkPool :: "'id node \<Rightarrow> ('id, 'st) LinkPool" where
  "NewLinkPool n =
     \<lparr>pl_closed = False, pl_node = n\<lparr>n_pool := []\<rparr>, pl_watchers = [], pl_watch = Map.empty,
      pl_watchNext = 0, pl_linkers = Map.empty, pl_events = []\<rparr>"

definition upd_node :: "('id node \<Rightarrow> 'id node) \<Rightarrow> ('id, 'st) LinkPool \<Rightarrow> ('id, 'st) LinkPool" where
  "upd_node f p = p\<lparr>pl_node := f (pl_node p)\<rparr>"

definition emit :: "'id pool_event \<Rightarrow> ('id, 'st) LinkPool \<Rightarrow> ('id, 'st) LinkPool" where
  "emit e p = p\<lparr>pl_events := pl_events p @ [e]\<rparr>"

definition pl_remove :: "set_ops \<Rightarrow> nat \<Rightarrow> ('id, 'st) LinkPool \<Rightarrow> ('id, 'st) LinkPool" where
  "pl_remove so l = upd_node (\<lambda>n. n\<lparr>n_pool := ss_Remove so l (n_pool n)\<rparr>)"

definition pl_closeLink :: "err_swap \<Rightarrow> nodes_err \<Rightarrow> nat \<Rightarrow> ('id, 'st) LinkPool \<Rightarrow> ('id, 'st) LinkPool" where
  "pl_closeLink swap e l = upd_node (upd_link l (CloseWithError swap (Some e)))"

definition links_with :: "'id \<Rightarrow> 'id node \<Rightarrow> nat list" where
  "links_with i n = filter (\<lambda>v. lk_remote n v = i) (n_pool n)"

subsection \<open>Watchers\<close>

text \<open>
  The network of a link, from the endpoints of its connection: \<open>None\<close> for a connection that
  has no endpoints, else its remote and local one.
\<close>

type_synonym endpoints = "nat \<Rightarrow> (string option \<times> string option) option"

definition Network :: "endpoints \<Rightarrow> nat \<Rightarrow> string" where
  "Network ep l =
     (case ep l of
        Some (Some r, _) \<Rightarrow> r
      | Some (None, Some loc) \<Rightarrow> loc
      | _ \<Rightarrow> ''unknown'')"

definition match_link ::
  "endpoints \<Rightarrow> 'id node \<Rightarrow> 'id \<Rightarrow> RetrieveLinkOptions \<Rightarrow> nat \<Rightarrow> string option \<Rightarrow> bool" where
  "match_link ep n target o' s strategy =
     (if lk_remote n s \<noteq> target then False
      else if strategy \<noteq> None \<and> length (o_Strategies o') > 0
      then the strategy \<in> set (o_Strategies o')
      else if length (o_Networks o') > 0 then Network ep s \<in> set (o_Networks o')
      else True)"

definition subscribe ::
  "set_ops \<Rightarrow> 'id \<Rightarrow> RetrieveLinkOptions \<Rightarrow> ('id, 'st) LinkPool \<Rightarrow> nat \<times> ('id, 'st) LinkPool" where
  "subscribe so target o' p =
     (let w = pl_watchNext p;
          p1 = p\<lparr>pl_watch := (pl_watch p)(w \<mapsto> \<lparr>wt_target = target, wt_opts = o', wt_ch = None\<rparr>),
                 pl_watchNext := Suc w\<rparr>
      in (w, (case ss_Add so w (pl_watchers p1) of
                None \<Rightarrow> p1 | Some ws \<Rightarrow> p1\<lparr>pl_watchers := ws\<rparr>)))"

definition unsubscribe :: "set_ops \<Rightarrow> nat \<Rightarrow> ('id, 'st) LinkPool \<Rightarrow> ('id, 'st) LinkPool" where
  "unsubscribe so w p = p\<lparr>pl_watchers := ss_Remove so w (pl_watchers p)\<rparr>"

text \<open>One turn of the loop: a send that does not wait, into a channel of one place.\<close>

definition notify_one ::
  "endpoints \<Rightarrow> nat \<Rightarrow> string option \<Rightarrow> nat \<Rightarrow> bool \<times> ('id, 'st) LinkPool \<Rightarrow> bool \<times> ('id, 'st) LinkPool" where
  "notify_one ep s strategy w up =
     (case pl_watch (snd up) w of
        None \<Rightarrow> up
      | Some wt \<Rightarrow>
          (let p = snd up in
           (if \<not> match_link ep (pl_node p) (wt_target wt) (wt_opts wt) s strategy then up
            else (case wt_ch wt of
                    None \<Rightarrow> (True, p\<lparr>pl_watch := (pl_watch p)(w \<mapsto> wt\<lparr>wt_ch := Some s\<rparr>)\<rparr>)
                  | Some _ \<Rightarrow> up))))"

definition notifyLinkWatchers ::
  "endpoints \<Rightarrow> nat \<Rightarrow> string option \<Rightarrow> ('id, 'st) LinkPool \<Rightarrow> bool \<times> ('id, 'st) LinkPool" where
  "notifyLinkWatchers ep s strategy p =
     fold (notify_one ep s strategy) (pl_watchers p) (False, p)"

subsection \<open>Adding a link\<close>

definition addCounted ::
  "set_ops \<Rightarrow> nat \<Rightarrow> ('id, 'st) LinkPool \<Rightarrow> (nodes_err + nat) \<times> ('id, 'st) LinkPool" where
  "addCounted so l p =
     (case ss_Add so l (pl_links p) of
        None \<Rightarrow> (Inl (ErrMsg ''duplicate item''), p)
      | Some ls \<Rightarrow>
          (let p1 = upd_node (\<lambda>n. n\<lparr>n_pool := ls\<rparr>) p
           in (Inr (length (links_with (lk_remote (pl_node p1) l) (pl_node p1))), p1)))"

text \<open>\<open>AddLink\<close> after the link was counted.\<close>

definition AddLink_check ::
  "set_ops \<Rightarrow> err_swap \<Rightarrow> endpoints \<Rightarrow> nat \<Rightarrow> nat \<Rightarrow> ('id, 'st) LinkPool \<Rightarrow>
     nodes_err option \<times> ('id, 'st) LinkPool" where
  "AddLink_check so swap ep l linkCount p =
     (if pl_closed p
      then (Some ErrCanceled, pl_closeLink swap ErrCanceled l (pl_remove so l p))
      else (let p1 = upd_node (SetRouter l) p;
                p2 = (if \<not> lk_outbound (n_links (pl_node p1) l)
                      then snd (notifyLinkWatchers ep l None p1) else p1)
            in (None, emit (LinkCreatedEvent (lk_remote (pl_node p2) l)
                              (lk_id (n_links (pl_node p2) l)) (of_nat linkCount)) p2)))"

definition AddLink ::
  "set_ops \<Rightarrow> err_swap \<Rightarrow> endpoints \<Rightarrow> nat \<Rightarrow> ('id, 'st) LinkPool \<Rightarrow>
     nodes_err option \<times> ('id, 'st) LinkPool" where
  "AddLink so swap ep l p =
     (case addCounted so l p of
        (Inl e, p1) \<Rightarrow> (Some e, p1)
      | (Inr linkCount, p1) \<Rightarrow> AddLink_check so swap ep l linkCount p1)"

text \<open>The goroutine that waits for the end of the link.\<close>

definition AddLink_gone ::
  "set_ops \<Rightarrow> nat \<Rightarrow> nat list \<Rightarrow> ('id, 'st) LinkPool \<Rightarrow> ('id, 'st) LinkPool" where
  "AddLink_gone so l order p =
     (let p1 = upd_node (closeAllSessions order) (pl_remove so l p);
          r = lk_remote (pl_node p1) l
      in emit (LinkClosedEvent r False (of_nat (length (links_with r (pl_node p1))))) p1)"

subsection \<open>Closing the pool\<close>

definition Close_swap :: "('id, 'st) LinkPool \<Rightarrow> bool \<times> ('id, 'st) LinkPool" where
  "Close_swap p = (\<not> pl_closed p, p\<lparr>pl_closed := True\<rparr>)"

definition pool_Close :: "err_swap \<Rightarrow> ('id, 'st) LinkPool \<Rightarrow> ('id, 'st) LinkPool" where
  "pool_Close swap p =
     (let (swapped, p1) = Close_swap p
      in (if \<not> swapped then p1 else fold (pl_closeLink swap ErrCanceled) (pl_links p1) p1))"

subsection \<open>Selecting a link\<close>

fun select_loop :: "'id \<Rightarrow> 'id node \<Rightarrow> nat list \<Rightarrow> nat option \<Rightarrow> nat option" where
  "select_loop i n [] fallback = fallback"
| "select_loop i n (l # ls) fallback =
     (if lk_err (n_links n l) \<noteq> None \<or> lk_remote n l \<noteq> i then select_loop i n ls fallback
      else if \<not> PressureHigh (n_links n l) then Some l
      else select_loop i n ls (if fallback = None then Some l else fallback))"

definition SelectLinkWith :: "'id \<Rightarrow> ('id, 'st) LinkPool \<Rightarrow> nat option" where
  "SelectLinkWith i p =
     (if pl_closed p then None else select_loop i (pl_node p) (pl_links p) None)"

definition IsLinked :: "'id \<Rightarrow> ('id, 'st) LinkPool \<Rightarrow> bool" where
  "IsLinked i p \<longleftrightarrow> SelectLinkWith i p \<noteq> None"

fun closeLink_loop :: "err_swap \<Rightarrow> nonce \<Rightarrow> nat list \<Rightarrow> ('id, 'st) LinkPool \<Rightarrow>
    nodes_err option \<times> ('id, 'st) LinkPool" where
  "closeLink_loop swap i [] p = (Some ErrLinkNotFound, p)"
| "closeLink_loop swap i (l # ls) p =
     (if lk_id (n_links (pl_node p) l) = i
      then (None, pl_closeLink swap (ErrMsg ''link closed'') l p)
      else closeLink_loop swap i ls p)"

definition CloseLink :: "err_swap \<Rightarrow> nonce \<Rightarrow> ('id, 'st) LinkPool \<Rightarrow> nodes_err option \<times> ('id, 'st) LinkPool" where
  "CloseLink swap i p = closeLink_loop swap i (pl_links p) p"

definition CloseLinks :: "err_swap \<Rightarrow> 'id \<Rightarrow> ('id, 'st) LinkPool \<Rightarrow> ('id, 'st) LinkPool" where
  "CloseLinks swap i p =
     fold (\<lambda>l p. if lk_remote (pl_node p) l = i
                 then pl_closeLink swap (ErrMsg ''node expelled'') l p else p) (pl_links p) p"

subsection \<open>Linkers and the retrieval of a link\<close>

definition NewNodeLinker ::
  "('f \<Rightarrow> 'id \<Rightarrow> 'st) \<Rightarrow> (string \<rightharpoonup> 'f) \<Rightarrow> 'id \<Rightarrow> ('id, 'st) NodeLinker" where
  "NewNodeLinker build factories target =
     \<lparr>nl_Target = target, nl_strategies = (\<lambda>name. map_option (\<lambda>f. build f target) (factories name))\<rparr>"

text \<open>The strategies that are signalled and waited for; with none the wait is over at once.\<close>

definition Activate :: "('id, 'st) NodeLinker \<Rightarrow> string list \<Rightarrow> 'st list" where
  "Activate linker names = List.map_filter (nl_strategies linker) names"

definition getOrCreateNodeLinker ::
  "('f \<Rightarrow> 'id \<Rightarrow> 'st) \<Rightarrow> (string \<rightharpoonup> 'f) \<Rightarrow> 'id \<Rightarrow> ('id, 'st) LinkPool \<Rightarrow>
     ('id, 'st) NodeLinker \<times> ('id, 'st) LinkPool" where
  "getOrCreateNodeLinker build factories target p =
     (case pl_linkers p target of
        Some linker \<Rightarrow> (linker, p)
      | None \<Rightarrow>
          (let linker = NewNodeLinker build factories target
           in (linker, p\<lparr>pl_linkers := (pl_linkers p)(target \<mapsto> linker)\<rparr>)))"

definition RetrieveLink_existing ::
  "endpoints \<Rightarrow> 'id \<Rightarrow> RetrieveLinkOptions \<Rightarrow> ('id, 'st) LinkPool \<Rightarrow> nat option" where
  "RetrieveLink_existing ep target o' p =
     (if o_ForceNew o' then None
      else find (\<lambda>s. match_link ep (pl_node p) target o' s None) (pl_links p))"

definition RetrieveLink_begin ::
  "set_ops \<Rightarrow> ('f \<Rightarrow> 'id \<Rightarrow> 'st) \<Rightarrow> (string \<rightharpoonup> 'f) \<Rightarrow> 'id \<Rightarrow> RetrieveLinkOptions \<Rightarrow> ('id, 'st) LinkPool \<Rightarrow>
     (nat \<times> 'st list) \<times> ('id, 'st) LinkPool" where
  "RetrieveLink_begin so build factories target o' p =
     (let (w, p1) = subscribe so target o' p;
          (linker, p2) = getOrCreateNodeLinker build factories target p1
      in ((w, Activate linker (o_Strategies o')), p2))"

text \<open>
  The cases of the \<open>select\<close>: the strategies are done, the context is over, a link was
  delivered.  The last is ready only when the watcher's channel holds a link.
\<close>

datatype retrieve_case = StrategiesDone | CtxDone nodes_err | LinkDelivered

definition take_ch :: "nat \<Rightarrow> ('id, 'st) LinkPool \<Rightarrow> nat option \<times> ('id, 'st) LinkPool" where
  "take_ch w p =
     (case pl_watch p w of
        None \<Rightarrow> (None, p)
      | Some wt \<Rightarrow> (wt_ch wt, p\<lparr>pl_watch := (pl_watch p)(w \<mapsto> wt\<lparr>wt_ch := None\<rparr>)\<rparr>))"

fun RetrieveLink_end ::
  "set_ops \<Rightarrow> retrieve_case \<Rightarrow> nat \<Rightarrow> ('id, 'st) LinkPool \<Rightarrow>
     ((nodes_err + nat) \<times> ('id, 'st) LinkPool) option" where
  "RetrieveLink_end so StrategiesDone w p =
     (case take_ch w p of
        (Some s, p1) \<Rightarrow> Some (Inr s, unsubscribe so w p1)
      | (None, _) \<Rightarrow> Some (Inl ErrLinkNotProduced, unsubscribe so w p))"
| "RetrieveLink_end so (CtxDone e) w p = Some (Inl e, unsubscribe so w p)"
| "RetrieveLink_end so LinkDelivered w p =
     (case take_ch w p of
        (Some s, p1) \<Rightarrow> Some (Inr s, unsubscribe so w p1)
      | (None, _) \<Rightarrow> None)"

subsection \<open>What the operations keep\<close>

lemma upd_node_sel [simp]:
  "pl_node (upd_node f p) = f (pl_node p)" "pl_closed (upd_node f p) = pl_closed p"
  "pl_watchers (upd_node f p) = pl_watchers p" "pl_watch (upd_node f p) = pl_watch p"
  "pl_watchNext (upd_node f p) = pl_watchNext p"
  "pl_node (emit e p) = pl_node p" "pl_closed (emit e p) = pl_closed p"
  "pl_watchers (emit e p) = pl_watchers p" "pl_watch (emit e p) = pl_watch p"
  by (simp_all add: upd_node_def emit_def)

text \<open>The error and the peer of a link survive the sessions' closing and the router.\<close>

definition same_ends :: "'id node \<Rightarrow> 'id node \<Rightarrow> bool" where
  "same_ends n n' \<longleftrightarrow>
     n_pool n' = n_pool n \<and>
     (\<forall>l. lk_err (n_links n' l) = lk_err (n_links n l) \<and> lk_remote n' l = lk_remote n l)"

lemma same_ends_refl [simp, intro]: "same_ends n n"
  by (simp add: same_ends_def)

lemma same_ends_upd [simp]:
  "same_ends n (upd_sess s f m) = same_ends n m" "same_ends n (upd_ib a g m) = same_ends n m"
  "same_ends n (upd_ob b h m) = same_ends n m" "same_ends n (upd_sessions l k m) = same_ends n m"
  "same_ends n (upd_reader s r m) = same_ends n m" "same_ends n (upd_writer s w m) = same_ends n m"
  "same_ends n (snd (mux_Send l fr m)) = same_ends n m" "same_ends n (SetRouter l m) = same_ends n m"
  by (auto simp: same_ends_def mux_Send_def lk_Send_def Let_def SetRouter_def store_defs)

lemma same_ends_Close [simp]: "same_ends n (session_Close s m) = same_ends n m"
  by (simp add: session_Close_def writer_Close_def reader_Close_def run_reset_def run_onClose_def
      Let_def split: option.split)

lemma same_ends_closeAll [simp]: "same_ends n (closeAllSessions order m) = same_ends n m"
  unfolding closeAllSessions_def by (induction order arbitrary: m) auto

lemma same_endsD:
  "same_ends n n' \<Longrightarrow> n_pool n' = n_pool n" "same_ends n n' \<Longrightarrow> lk_err (n_links n' l) = lk_err (n_links n l)"
  "same_ends n n' \<Longrightarrow> lk_remote n' l = lk_remote n l"
  by (auto simp: same_ends_def)

lemmas closeAll_ends [simp] = same_endsD [OF iffD2 [OF same_ends_closeAll same_ends_refl]]
lemmas SetRouter_ends [simp] = same_endsD [OF iffD2 [OF same_ends_upd(8) same_ends_refl]]

text \<open>Notifying touches only the channels of watchers.\<close>

lemma notify_one_keeps:
  "snd (notify_one ep s st w up) = (snd up)\<lparr>pl_watch := pl_watch (snd (notify_one ep s st w up))\<rparr>"
  by (simp add: notify_one_def Let_def split: option.split)

lemma notify_keeps:
  "snd (notifyLinkWatchers ep s st p) = p\<lparr>pl_watch := pl_watch (snd (notifyLinkWatchers ep s st p))\<rparr>"
proof -
  have "snd (fold (notify_one ep s st) ws up) =
        (snd up)\<lparr>pl_watch := pl_watch (snd (fold (notify_one ep s st) ws up))\<rparr>" for ws up
  proof (induction ws arbitrary: up)
    case (Cons w ws)
    show ?case
      using Cons [of "notify_one ep s st w up"] notify_one_keeps [of ep s st w up]
      by (metis (no_types, lifting) LinkPool.surjective LinkPool.update_convs(4) fold_simps(2))
  qed simp
  from this [of "pl_watchers p" "(False, p)"] show ?thesis
    by (simp only: notifyLinkWatchers_def snd_conv)
qed

lemma notify_sel [simp]:
  "pl_node (snd (notifyLinkWatchers ep s st p)) = pl_node p"
  "pl_closed (snd (notifyLinkWatchers ep s st p)) = pl_closed p"
  "pl_watchers (snd (notifyLinkWatchers ep s st p)) = pl_watchers p"
  by (subst notify_keeps, simp)+

subsection \<open>Runs of the pool\<close>

text \<open>
  The pool with the goroutines that use it: those that have counted a new link and not yet
  looked at \<open>closed\<close>, with the count, and the one that closes the pool.  Links end at any
  time, by an error of their reader or by a close from anywhere; watchers come, get links and
  go.
\<close>

datatype closer = NotClosing | Swapped | Closing "nat list" | Closed

record ('id, 'st) pool_run =
  pr_pool :: "('id, 'st) LinkPool"
  pr_adding :: "(nat \<times> nat) list"
  pr_closer :: closer

inductive pool_step ::
  "set_ops \<Rightarrow> err_swap \<Rightarrow> endpoints \<Rightarrow> ('f \<Rightarrow> 'id \<Rightarrow> 'st) \<Rightarrow> (string \<rightharpoonup> 'f) \<Rightarrow>
     ('id, 'st) pool_run \<Rightarrow> ('id, 'st) pool_run \<Rightarrow> bool"
  for so swap ep build factories where
  po_count: "addCounted so l (pr_pool r) = (Inr k, p) \<Longrightarrow>
     pool_step so swap ep build factories r (r\<lparr>pr_pool := p, pr_adding := (l, k) # pr_adding r\<rparr>)"
| po_check: "(l, k) \<in> set (pr_adding r) \<Longrightarrow>
     pool_step so swap ep build factories r
       (r\<lparr>pr_pool := snd (AddLink_check so swap ep l k (pr_pool r)),
          pr_adding := remove1 (l, k) (pr_adding r)\<rparr>)"
| po_gone: "lk_done (n_links (pl_node (pr_pool r)) l) \<Longrightarrow>
     pool_step so swap ep build factories r (r\<lparr>pr_pool := AddLink_gone so l order (pr_pool r)\<rparr>)"
| po_exit: "pool_step so swap ep build factories r
     (r\<lparr>pr_pool := upd_node (upd_link l (readLoop_exit swap e)) (pr_pool r)\<rparr>)"
| po_closeLink: "pool_step so swap ep build factories r (r\<lparr>pr_pool := snd (CloseLink swap i (pr_pool r))\<rparr>)"
| po_closeLinks: "pool_step so swap ep build factories r (r\<lparr>pr_pool := CloseLinks swap i (pr_pool r)\<rparr>)"
| po_swap: "Close_swap (pr_pool r) = (True, p) \<Longrightarrow>
     pool_step so swap ep build factories r (r\<lparr>pr_pool := p, pr_closer := Swapped\<rparr>)"
| po_clone: "pr_closer r = Swapped \<Longrightarrow>
     pool_step so swap ep build factories r (r\<lparr>pr_closer := Closing (pl_links (pr_pool r))\<rparr>)"
| po_closeOne: "pr_closer r = Closing (l # ls) \<Longrightarrow>
     pool_step so swap ep build factories r
       (r\<lparr>pr_pool := pl_closeLink swap ErrCanceled l (pr_pool r), pr_closer := Closing ls\<rparr>)"
| po_closed: "pr_closer r = Closing [] \<Longrightarrow>
     pool_step so swap ep build factories r (r\<lparr>pr_closer := Closed\<rparr>)"
| po_begin: "pool_step so swap ep build factories r
     (r\<lparr>pr_pool := snd (RetrieveLink_begin so build factories target o' (pr_pool r))\<rparr>)"
| po_notify: "pool_step so swap ep build factories r
     (r\<lparr>pr_pool := snd (notifyLinkWatchers ep l st (pr_pool r))\<rparr>)"
| po_end: "RetrieveLink_end so c w (pr_pool r) = Some (res, p) \<Longrightarrow>
     pool_step so swap ep build factories r (r\<lparr>pr_pool := p\<rparr>)"

definition pool_start :: "('id, 'st) pool_run \<Rightarrow> bool" where
  "pool_start r \<longleftrightarrow>
     (\<exists>n. r = \<lparr>pr_pool = NewLinkPool n, pr_adding = [], pr_closer = NotClosing\<rparr>)"

text \<open>
  The invariant: members are kept once; the pool is closed exactly when somebody closes it;
  and a member without an error is about to be checked, or will be closed, or the closing has
  not read the members yet.
\<close>

definition will_close :: "closer \<Rightarrow> nat \<Rightarrow> bool" where
  "will_close c l \<longleftrightarrow> (case c of Closing ls \<Rightarrow> l \<in> set ls | Closed \<Rightarrow> False | _ \<Rightarrow> True)"

definition pool_inv :: "('id, 'st) pool_run \<Rightarrow> bool" where
  "pool_inv r \<longleftrightarrow>
     distinct (pl_links (pr_pool r)) \<and>
     (pl_closed (pr_pool r) \<longleftrightarrow> pr_closer r \<noteq> NotClosing) \<and>
     (\<forall>l \<in> set (pl_links (pr_pool r)).
        lk_err (n_links (pl_node (pr_pool r)) l) \<noteq> None \<or> l \<in> fst ` set (pr_adding r) \<or>
        will_close (pr_closer r) l)"

text \<open>What a step of the pool may do to its members, seen from the invariant.\<close>

definition tame :: "('id, 'st) LinkPool \<Rightarrow> ('id, 'st) LinkPool \<Rightarrow> bool" where
  "tame p p' \<longleftrightarrow>
     pl_closed p' = pl_closed p \<and>
     (distinct (pl_links p) \<longrightarrow> distinct (pl_links p') \<and> set (pl_links p') \<subseteq> set (pl_links p)) \<and>
     (\<forall>l. lk_err (n_links (pl_node p) l) \<noteq> None \<longrightarrow> lk_err (n_links (pl_node p') l) \<noteq> None) \<and>
     (\<forall>l. lk_remote (pl_node p') l = lk_remote (pl_node p) l)"

lemma tame_refl [simp]: "tame p p"
  by (simp add: tame_def)

lemma tame_trans: "tame p p' \<Longrightarrow> tame p' p'' \<Longrightarrow> tame p p''"
  by (auto simp: tame_def)

lemma tame_node:
  "n_pool (f (pl_node p)) = n_pool (pl_node p) \<Longrightarrow>
   (\<And>l. lk_err (n_links (pl_node p) l) \<noteq> None \<Longrightarrow> lk_err (n_links (f (pl_node p)) l) \<noteq> None) \<Longrightarrow>
   (\<And>l. lk_remote (f (pl_node p)) l = lk_remote (pl_node p) l) \<Longrightarrow> tame p (upd_node f p)"
  by (simp add: tame_def)

lemma tame_closeLink: "swap_law swap \<Longrightarrow> tame p (pl_closeLink swap e l p)"
  unfolding pl_closeLink_def
  by (rule tame_node) (auto simp: swap_law_def upd_link_def CloseWithError_def Let_def)

lemma tame_exit: "swap_law swap \<Longrightarrow> tame p (upd_node (upd_link l (readLoop_exit swap e)) p)"
  by (rule tame_node) (auto simp: swap_law_def upd_link_def readLoop_exit_def)

lemma tame_remove: "set_ops_law so \<Longrightarrow> tame p (pl_remove so l p)"
  by (auto simp: tame_def pl_remove_def set_ops_lawD)

lemma tame_emit [simp]: "tame p (emit e p') = tame p p'"
  by (simp add: tame_def)

lemma tame_notify [simp]: "tame p (snd (notifyLinkWatchers ep l st p))"
  by (simp add: tame_def)

lemma tame_gone: "set_ops_law so \<Longrightarrow> tame p (AddLink_gone so l order p)"
  unfolding AddLink_gone_def Let_def tame_emit
  by (rule tame_trans [OF tame_remove tame_node]) simp_all

lemma tame_closeLink_op:
  assumes "swap_law swap"
  shows "tame p (snd (CloseLink swap i p))"
proof -
  have "tame p (snd (closeLink_loop swap i ls p))" for ls
    by (induction ls) (simp_all add: tame_closeLink [OF assms])
  then show ?thesis by (simp add: CloseLink_def)
qed

lemma tame_fold: "(\<And>x q. tame q (f x q)) \<Longrightarrow> tame p (fold f xs p)"
  by (induction xs arbitrary: p) (simp, metis fold_simps(2) tame_trans)

lemma tame_closeLinks: "swap_law swap \<Longrightarrow> tame p (CloseLinks swap i p)"
  unfolding CloseLinks_def by (rule tame_fold) (simp add: tame_closeLink)

lemma tame_begin: "tame p (snd (RetrieveLink_begin so build factories target o' p))"
  by (simp add: RetrieveLink_begin_def subscribe_def getOrCreateNodeLinker_def Let_def tame_def
      split: option.split)

lemma tame_end: "RetrieveLink_end so c w p = Some (res, p') \<Longrightarrow> tame p p'"
  by (cases c) (auto simp: take_ch_def unsubscribe_def tame_def split: option.splits prod.splits)

lemma pool_inv_tame:
  assumes "pool_inv r" and "tame (pr_pool r) p"
  shows "pool_inv (r\<lparr>pr_pool := p\<rparr>)"
  using assms unfolding pool_inv_def tame_def by (simp del: not_None_eq) blast

lemma closed_link:
  "swap_law swap \<Longrightarrow> lk_err (n_links (pl_node (pl_closeLink swap e l p)) l) \<noteq> None"
  by (simp add: swap_law_def pl_closeLink_def upd_link_def CloseWithError_def Let_def)

lemma pool_inv_count:
  assumes so: "set_ops_law so" and inv: "pool_inv r" and c: "addCounted so l (pr_pool r) = (Inr k, p)"
  shows "pool_inv (r\<lparr>pr_pool := p, pr_adding := (l, k) # pr_adding r\<rparr>)"
proof -
  from c obtain ls where a: "ss_Add so l (pl_links (pr_pool r)) = Some ls"
    and p: "p = upd_node (\<lambda>n. n\<lparr>n_pool := ls\<rparr>) (pr_pool r)"
    by (auto simp: addCounted_def Let_def split: option.splits)
  from inv have "distinct (pl_links (pr_pool r))" by (simp add: pool_inv_def)
  with set_ops_lawD(1) [OF so this a] inv show ?thesis
    by (simp add: pool_inv_def p del: not_None_eq)
qed

lemma tame_check_open:
  "\<not> pl_closed p \<Longrightarrow> tame p (snd (AddLink_check so swap ep l k p))"
  by (simp add: AddLink_check_def Let_def tame_def)

lemma pool_inv_check:
  assumes so: "set_ops_law so" and sw: "swap_law swap" and inv: "pool_inv r"
  shows "pool_inv (r\<lparr>pr_pool := snd (AddLink_check so swap ep l k (pr_pool r)),
                     pr_adding := remove1 (l, k) (pr_adding r)\<rparr>)"
proof (cases "pl_closed (pr_pool r)")
  case True
  let ?p = "pl_remove so l (pr_pool r)"
  have d: "distinct (pl_links (pr_pool r))" using inv by (simp add: pool_inv_def)
  have "l \<notin> set (pl_links ?p)" using set_ops_lawD(4) [OF so d] by (simp add: pl_remove_def)
  moreover have "tame (pr_pool r) (pl_closeLink swap ErrCanceled l ?p)"
    by (rule tame_trans [OF tame_remove [OF so] tame_closeLink [OF sw]])
  moreover have "pl_links (pl_closeLink swap ErrCanceled l ?p) = pl_links ?p"
    by (simp add: pl_closeLink_def upd_link_def)
  moreover have "x \<in> fst ` set (remove1 (l, k) (pr_adding r))"
    if "x \<in> fst ` set (pr_adding r)" "x \<noteq> l" for x
    using that by (auto simp: in_set_remove1 image_iff)
  ultimately show ?thesis
    using True inv unfolding pool_inv_def tame_def AddLink_check_def
    by (simp del: not_None_eq) blast
next
  case False
  then have "pr_closer r = NotClosing" using inv by (simp add: pool_inv_def)
  then show ?thesis
    using tame_check_open [OF False, of so swap ep l k] inv False
    by (auto simp: pool_inv_def tame_def will_close_def)
qed

lemma pool_inv_close:
  assumes sw: "swap_law swap" and inv: "pool_inv r"
  shows "Close_swap (pr_pool r) = (True, p) \<Longrightarrow> pool_inv (r\<lparr>pr_pool := p, pr_closer := Swapped\<rparr>)"
    and "pr_closer r = Swapped \<Longrightarrow> pool_inv (r\<lparr>pr_closer := Closing (pl_links (pr_pool r))\<rparr>)"
    and "pr_closer r = Closing (l # ls) \<Longrightarrow>
      pool_inv (r\<lparr>pr_pool := pl_closeLink swap ErrCanceled l (pr_pool r), pr_closer := Closing ls\<rparr>)"
    and "pr_closer r = Closing [] \<Longrightarrow> pool_inv (r\<lparr>pr_closer := Closed\<rparr>)"
proof -
  show "Close_swap (pr_pool r) = (True, p) \<Longrightarrow> pool_inv (r\<lparr>pr_pool := p, pr_closer := Swapped\<rparr>)"
    using inv by (auto simp: Close_swap_def pool_inv_def will_close_def)
  show "pr_closer r = Swapped \<Longrightarrow> pool_inv (r\<lparr>pr_closer := Closing (pl_links (pr_pool r))\<rparr>)"
    using inv by (auto simp: pool_inv_def will_close_def)
  show "pr_closer r = Closing [] \<Longrightarrow> pool_inv (r\<lparr>pr_closer := Closed\<rparr>)"
    using inv by (auto simp: pool_inv_def will_close_def)
  assume c: "pr_closer r = Closing (l # ls)"
  have "pl_links (pl_closeLink swap ErrCanceled l (pr_pool r)) = pl_links (pr_pool r)"
    by (simp add: pl_closeLink_def upd_link_def)
  moreover have kept: "lk_err (n_links (pl_node (pl_closeLink swap ErrCanceled l (pr_pool r))) x) \<noteq> None \<or>
      x \<in> fst ` set (pr_adding r) \<or> x \<in> set ls" if "x \<in> set (pl_links (pr_pool r))" for x
  proof -
    from inv c that have "lk_err (n_links (pl_node (pr_pool r)) x) \<noteq> None \<or>
        x \<in> fst ` set (pr_adding r) \<or> x = l \<or> x \<in> set ls"
      by (auto simp: pool_inv_def will_close_def)
    then show ?thesis
      using closed_link [OF sw, of ErrCanceled l "pr_pool r"]
        tame_closeLink [OF sw, of "pr_pool r" ErrCanceled l] unfolding tame_def by blast
  qed
  ultimately show "pool_inv (r\<lparr>pr_pool := pl_closeLink swap ErrCanceled l (pr_pool r), pr_closer := Closing ls\<rparr>)"
    using inv c kept tame_closeLink [OF sw, of "pr_pool r" ErrCanceled l]
    by (simp add: pool_inv_def tame_def will_close_def)
qed

subsection \<open>Watchers get what they asked for\<close>

definition watch_inv :: "endpoints \<Rightarrow> ('id, 'st) LinkPool \<Rightarrow> bool" where
  "watch_inv ep p \<longleftrightarrow>
     (\<forall>w wt l. pl_watch p w = Some wt \<longrightarrow> wt_ch wt = Some l \<longrightarrow>
        (\<exists>st. match_link ep (pl_node p) (wt_target wt) (wt_opts wt) l st))"

lemma match_link_cong:
  "lk_remote n' l = lk_remote n l \<Longrightarrow> match_link ep n' t o' l st = match_link ep n t o' l st"
  by (simp add: match_link_def)

lemma watch_inv_simps [simp]:
  "watch_inv ep (emit e p) = watch_inv ep p"
  "watch_inv ep (upd_node (\<lambda>n. n\<lparr>n_pool := ls\<rparr>) p) = watch_inv ep p"
  by (simp_all add: watch_inv_def match_link_def)

lemma watch_inv_same:
  "watch_inv ep p \<Longrightarrow> tame p p' \<Longrightarrow> pl_watch p' = pl_watch p \<Longrightarrow> watch_inv ep p'"
  by (simp add: watch_inv_def tame_def match_link_cong [of "pl_node p'" _ "pl_node p"])

lemma watch_inv_notify:
  assumes "watch_inv ep p"
  shows "watch_inv ep (snd (notifyLinkWatchers ep l st p))"
proof -
  have one: "watch_inv ep (snd (notify_one ep l st w up))" if "watch_inv ep (snd up)"
    for w and up :: "bool \<times> ('a, 'b) LinkPool"
    using that by (auto simp: watch_inv_def notify_one_def Let_def split: option.split)
  have "watch_inv ep (snd (fold (notify_one ep l st) ws up))" if "watch_inv ep (snd up)"
    for ws and up :: "bool \<times> ('a, 'b) LinkPool"
    using that
  proof (induction ws arbitrary: up)
    case (Cons w ws)
    from Cons.IH [OF one [OF Cons.prems]] show ?case by simp
  qed simp
  from this [of "(False, p)" "pl_watchers p"] assms show ?thesis by (simp add: notifyLinkWatchers_def)
qed

lemma watch_inv_begin:
  assumes "watch_inv ep p"
  shows "watch_inv ep (snd (RetrieveLink_begin so build factories target o' p))"
  using assms
  by (auto simp: RetrieveLink_begin_def subscribe_def getOrCreateNodeLinker_def watch_inv_def Let_def
      split: option.split)

lemma watch_inv_end:
  assumes "RetrieveLink_end so c w p = Some (res, p')" and "watch_inv ep p"
  shows "watch_inv ep p'"
proof -
  have "pl_node p' = pl_node p" "\<And>v wt. pl_watch p' v = Some wt \<Longrightarrow>
      pl_watch p v = Some wt \<or> wt_ch wt = None"
    using assms(1) by (cases c; auto simp: take_ch_def unsubscribe_def split: option.splits prod.splits if_splits)+
  with assms(2) show ?thesis unfolding watch_inv_def by (metis option.distinct(1))
qed

lemma watch_inv_check:
  assumes "watch_inv ep p" and "set_ops_law so" and "swap_law swap"
  shows "watch_inv ep (snd (AddLink_check so swap ep l k p))"
proof (cases "pl_closed p")
  case True
  have "tame p (pl_closeLink swap ErrCanceled l (pl_remove so l p))"
    by (rule tame_trans [OF tame_remove [OF assms(2)] tame_closeLink [OF assms(3)]])
  then show ?thesis
    using True watch_inv_same [OF assms(1)]
    by (simp add: AddLink_check_def pl_closeLink_def pl_remove_def)
next
  case False
  have "watch_inv ep (upd_node (SetRouter l) p)"
    by (rule watch_inv_same [OF assms(1) tame_node]) simp_all
  then have "watch_inv ep (emit e (upd_node (SetRouter l) p))"
    "watch_inv ep (emit e (snd (notifyLinkWatchers ep l None (upd_node (SetRouter l) p))))" for e
    by (simp_all add: watch_inv_notify)
  then show ?thesis using False by (simp add: AddLink_check_def Let_def)
qed

definition lawful_pool_step ::
  "set_ops \<Rightarrow> err_swap \<Rightarrow> endpoints \<Rightarrow> ('f \<Rightarrow> 'id \<Rightarrow> 'st) \<Rightarrow> (string \<rightharpoonup> 'f) \<Rightarrow>
     ('id, 'st) pool_run \<Rightarrow> ('id, 'st) pool_run \<Rightarrow> bool" where
  "lawful_pool_step so swap ep build factories r r' \<longleftrightarrow>
     set_ops_law so \<and> swap_law swap \<and> pool_step so swap ep build factories r r'"

lemma pool_inv_step:
  assumes so: "set_ops_law so" and sw: "swap_law swap" and inv: "pool_inv r"
    and step: "pool_step so swap ep build factories r r'"
  shows "pool_inv r'"
  using step
  by cases
    (use inv in \<open>auto intro: pool_inv_count [OF so] pool_inv_check [OF so sw] pool_inv_close [OF sw]
       tame_end intro!: pool_inv_tame tame_gone [OF so] tame_exit [OF sw] tame_closeLink_op [OF sw]
       tame_closeLinks [OF sw] tame_begin\<close>)

lemma closeLinks_watch: "pl_watch (CloseLinks swap i p) = pl_watch p"
proof -
  have "pl_watch (fold (\<lambda>l p. if lk_remote (pl_node p) l = i
      then pl_closeLink swap e l p else p) ls p) = pl_watch p" for ls e and p :: "('a, 'b) LinkPool"
    by (induction ls arbitrary: p) (simp_all add: pl_closeLink_def)
  then show ?thesis by (simp add: CloseLinks_def)
qed

lemma closeLink_watch: "pl_watch (snd (CloseLink swap i p)) = pl_watch p"
proof -
  have "pl_watch (snd (closeLink_loop swap i ls p)) = pl_watch p" for ls
    by (induction ls) (simp_all add: pl_closeLink_def)
  then show ?thesis by (simp add: CloseLink_def)
qed

lemma watch_inv_step:
  assumes so: "set_ops_law so" and sw: "swap_law swap" and inv: "watch_inv ep (pr_pool r)"
    and step: "pool_step so swap ep build factories r r'"
  shows "watch_inv ep (pr_pool r')"
  using step
proof cases
  case (po_count l k p)
  then show ?thesis
    using inv by (auto simp: addCounted_def Let_def split: option.splits)
next
  case (po_check l k)
  then show ?thesis using watch_inv_check [OF inv so sw] by simp
next
  case (po_gone l order)
  then show ?thesis
    using watch_inv_same [OF inv tame_gone [OF so]] by (simp add: AddLink_gone_def pl_remove_def Let_def)
next
  case (po_exit l e)
  then show ?thesis using watch_inv_same [OF inv tame_exit [OF sw]] by simp
next
  case (po_closeLink i)
  then show ?thesis using watch_inv_same [OF inv tame_closeLink_op [OF sw] closeLink_watch] by simp
next
  case (po_closeLinks i)
  then show ?thesis using watch_inv_same [OF inv tame_closeLinks [OF sw] closeLinks_watch] by simp
next
  case (po_swap p)
  then show ?thesis using inv by (auto simp: Close_swap_def watch_inv_def)
next
  case (po_closeOne l ls)
  then show ?thesis using watch_inv_same [OF inv tame_closeLink [OF sw]] by (simp add: pl_closeLink_def)
next
  case (po_end c w res p)
  then show ?thesis using watch_inv_end [OF _ inv] by simp
qed (use inv in \<open>simp_all add: watch_inv_begin watch_inv_notify\<close>)

interpretation pool: safety pool_start "lawful_pool_step so swap ep build factories"
  "\<lambda>r. pool_inv r \<and> watch_inv ep (pr_pool r)"
  for so swap ep and build :: "'f \<Rightarrow> 'id \<Rightarrow> 'st" and factories
proof
  show "pool_inv r \<and> watch_inv ep (pr_pool r)" if "pool_start r" for r :: "('id, 'st) pool_run"
    using that by (auto simp: pool_start_def pool_inv_def watch_inv_def NewLinkPool_def)
  show "pool_inv r' \<and> watch_inv ep (pr_pool r')"
    if "pool_inv r \<and> watch_inv ep (pr_pool r)" "lawful_pool_step so swap ep build factories r r'"
    for r r' :: "('id, 'st) pool_run"
    using that by (auto simp: lawful_pool_step_def intro: pool_inv_step watch_inv_step)
qed

subsection \<open>Selection\<close>

definition live_to :: "'id \<Rightarrow> 'id node \<Rightarrow> nat \<Rightarrow> bool" where
  "live_to i n l \<longleftrightarrow> lk_err (n_links n l) = None \<and> lk_remote n l = i"

lemma select_loop_eq:
  "select_loop i n ls fb =
     (case find (\<lambda>l. live_to i n l \<and> \<not> PressureHigh (n_links n l)) ls of
        Some l \<Rightarrow> Some l
      | None \<Rightarrow> (if fb \<noteq> None then fb else find (live_to i n) ls))"
  by (induction ls arbitrary: fb) (auto simp: live_to_def split: option.splits)

subsection \<open>Properties\<close>



text \<open>
  Which link is selected: one of the pool, alive, to the requested peer; one under high
  pressure only if all live links to the peer are; and none only if the pool is closed or has
  no live link to the peer.
\<close>

lemma selects_best_link:
  "case SelectLinkWith i p of
     None \<Rightarrow> pl_closed p \<or> \<not> (\<exists>l \<in> set (pl_links p). live_to i (pl_node p) l)
   | Some l \<Rightarrow> \<not> pl_closed p \<and> l \<in> set (pl_links p) \<and> live_to i (pl_node p) l \<and>
       (PressureHigh (n_links (pl_node p) l) =
          (\<forall>k \<in> {k \<in> set (pl_links p). live_to i (pl_node p) k}. PressureHigh (n_links (pl_node p) k)))"
  by (auto simp: SelectLinkWith_def select_loop_eq find_None_iff split: option.split
      dest!: find_Some_mem)

text \<open>
  A link is counted together with being added.  The count of an addition is the number of
  links to the peer in the pool, the new one among them; it is one exactly when there was none
  before; a link that is already there is refused and nothing changes.
\<close>

lemma first_link_counted:
  assumes "set_ops_law so" and "distinct (pl_links p)"
  shows "case addCounted so l p of
      (Inl e, p') \<Rightarrow> l \<in> set (pl_links p) \<and> p' = p
    | (Inr k, p') \<Rightarrow> l \<notin> set (pl_links p) \<and> set (pl_links p') = insert l (set (pl_links p)) \<and>
        k = Suc (length (links_with (lk_remote (pl_node p) l) (pl_node p))) \<and>
        (k = 1 \<longleftrightarrow> (\<forall>x \<in> set (pl_links p). lk_remote (pl_node p) x \<noteq> lk_remote (pl_node p) l))"
proof (cases "ss_Add so l (pl_links p)")
  case None
  with set_ops_lawD(2) [OF assms] show ?thesis by (simp add: addCounted_def)
next
  case (Some ls)
  let ?P = "\<lambda>v. lk_remote (pl_node p) v = lk_remote (pl_node p) l"
  from set_ops_lawD(1) [OF assms Some] have ls: "l \<notin> set (pl_links p)" "distinct ls"
    "set ls = insert l (set (pl_links p))" by auto
  have "length (filter ?P ls) = card (set (filter ?P ls))"
    by (rule distinct_card [symmetric]) (simp add: ls)
  also have "set (filter ?P ls) = insert l (set (filter ?P (pl_links p)))" using ls by auto
  also have "card \<dots> = Suc (card (set (filter ?P (pl_links p))))" using ls by simp
  also have "card (set (filter ?P (pl_links p))) = length (filter ?P (pl_links p))"
    by (rule distinct_card) (simp add: assms(2))
  finally have "length (filter ?P ls) = Suc (length (filter ?P (pl_links p)))" .
  then show ?thesis
    using ls Some by (auto simp: addCounted_def links_with_def Let_def filter_empty_conv)
qed

text \<open>A run for the witnesses: a link is added while the pool is being closed.\<close>

definition cas_err :: err_swap where
  "cas_err old new cur = (if cur = old then new else cur)"

lemma cas_err_law: "swap_law cas_err"
  by (simp add: swap_law_def cas_err_def)

definition demo_pool :: "(nat, nat) LinkPool" where
  "demo_pool = NewLinkPool demo0"

abbreviation demo_step :: "(nat, nat) pool_run \<Rightarrow> (nat, nat) pool_run \<Rightarrow> bool" where
  "demo_step \<equiv> lawful_pool_step list_set cas_err (\<lambda>_. None) (\<lambda>f t. f) Map.empty"

lemma demo_next:
  "reach pool_start demo_step r \<Longrightarrow>
   pool_step list_set cas_err (\<lambda>_. None) (\<lambda>f t. f) Map.empty r r' \<Longrightarrow> reach pool_start demo_step r'"
  by (rule reach_step) (simp_all add: lawful_pool_step_def list_set_law cas_err_law)

lemma demo_begin:
  "reach pool_start demo_step \<lparr>pr_pool = demo_pool, pr_adding = [], pr_closer = NotClosing\<rparr>"
  by (rule reach_init) (auto simp: pool_start_def demo_pool_def)



lemma selects_best_link_witness:
  "SelectLinkWith 2 (upd_node (\<lambda>_. demo0) demo_pool) = Some 0 \<and> live_to 2 demo0 0"
  using selects_best_link [where i = 2 and p = "upd_node (\<lambda>_. demo0) demo_pool"]
  by (simp add: SelectLinkWith_def demo_pool_def NewLinkPool_def demo0_def newLink_def newMux_def
      PressureHigh_def upd_node_def)

lemma first_link_counted_witness:
  "fst (addCounted list_set 7 demo_pool) = Inr 1"
  using first_link_counted [OF list_set_law, of demo_pool 7]
  by (simp add: addCounted_def list_set_def demo_pool_def NewLinkPool_def links_with_def)

end
