(* ===== verification/Brontide_Cipher.thy ===== *)
theory Brontide_Cipher
  imports Prelude
begin

section \<open>Ciphers of the Brontide transport (\<open>brontide/noise.go\<close>, \<open>brontide/ecdh.go\<close>)\<close>

text \<open>
  The cipher state with its nonce and its key rotation, and the symmetric state of the
  handshake.  The primitives are code of other libraries and come in as a record: SHA-256, the
  output of HKDF read at an offset, the ChaCha20-Poly1305 construction, and the operations on
  keys.  \<open>crypto_laws\<close> lists what the code relies on: opening undoes sealing, a seal is longer
  than its plaintext by the tag, a serialised public key has 33 bytes and parses back, both
  sides of a Diffie-Hellman exchange get the same point, and the sizes of digests and keys.
\<close>

record ('priv, 'pub) crypto =
  c_sha256 :: "bytes \<Rightarrow> bytes"
  c_hkdf :: "bytes \<Rightarrow> bytes \<Rightarrow> bytes \<Rightarrow> nat \<Rightarrow> nat \<Rightarrow> bytes"
  c_seal :: "bytes \<Rightarrow> bytes \<Rightarrow> bytes \<Rightarrow> bytes \<Rightarrow> bytes"
  c_open :: "bytes \<Rightarrow> bytes \<Rightarrow> bytes \<Rightarrow> bytes \<Rightarrow> bytes option"
  c_pubKey :: "'priv \<Rightarrow> 'pub"
  c_serialize :: "'pub \<Rightarrow> bytes"
  c_parse :: "bytes \<Rightarrow> 'pub option"
  c_scalarMult :: "'priv \<Rightarrow> 'pub \<Rightarrow> 'pub"

definition macSize :: nat where "macSize = 16"

definition lengthHeaderSize :: nat where "lengthHeaderSize = 2"

definition encHeaderSize :: nat where "encHeaderSize = lengthHeaderSize + macSize"

definition keyRotationInterval :: "64 word" where "keyRotationInterval = 1000"

definition protocolName :: bytes where
  "protocolName = map (\<lambda>c. of_nat (of_char c)) ''Noise_XK_secp256k1_ChaChaPoly_SHA256''"

definition astralPrologue :: bytes where
  "astralPrologue = map (\<lambda>c. of_nat (of_char c)) ''astral''"

definition crypto_laws :: "('priv, 'pub) crypto \<Rightarrow> bool" where
  "crypto_laws c \<longleftrightarrow>
     (\<forall>k n p ad. c_open c k n (c_seal c k n p ad) ad = Some p) \<and>
     (\<forall>k n p ad. length (c_seal c k n p ad) = length p + macSize) \<and>
     (\<forall>pub. c_parse c (c_serialize c pub) = Some pub) \<and>
     (\<forall>pub. length (c_serialize c pub) = 33) \<and>
     (\<forall>a b. c_scalarMult c a (c_pubKey c b) = c_scalarMult c b (c_pubKey c a)) \<and>
     (\<forall>d. length (c_sha256 c d) = 32) \<and>
     (\<forall>s t i off len. length (c_hkdf c s t i off len) = len)"

lemma crypto_lawsD:
  assumes "crypto_laws c"
  shows "c_open c k n (c_seal c k n p ad) ad = Some p"
    and "length (c_seal c k n p ad) = length p + macSize"
    and "c_parse c (c_serialize c pub) = Some pub" and "length (c_serialize c pub) = 33"
    and "c_scalarMult c a (c_pubKey c b) = c_scalarMult c b (c_pubKey c a)"
  using assms by (simp_all add: crypto_laws_def)

text \<open>
  An instance of the laws for the witnesses: no security, but every law holds.  Keys are
  bytes, the group is addition.
\<close>

definition plain_crypto :: "(byte, byte) crypto" where
  "plain_crypto =
     \<lparr>c_sha256 = (\<lambda>d. take 32 (d @ replicate 32 0)),
      c_hkdf = (\<lambda>s t i off len. replicate len (of_nat off)),
      c_seal = (\<lambda>k n p ad. p @ replicate 16 0),
      c_open = (\<lambda>k n ct ad. if length ct < 16 then None else Some (take (length ct - 16) ct)),
      c_pubKey = (\<lambda>a. a), c_serialize = (\<lambda>p. p # replicate 32 0),
      c_parse = (\<lambda>bs. case bs of [] \<Rightarrow> None | p # _ \<Rightarrow> Some p),
      c_scalarMult = (\<lambda>a p. a + p)\<rparr>"

lemma plain_crypto_laws: "crypto_laws plain_crypto"
  by (auto simp: crypto_laws_def plain_crypto_def macSize_def add.commute min_def)

subsection \<open>ECDH\<close>

definition PrivKeyECDH_PubKey :: "('priv, 'pub) crypto \<Rightarrow> 'priv \<Rightarrow> 'pub" where
  "PrivKeyECDH_PubKey c priv = c_pubKey c priv"

definition ECDH :: "('priv, 'pub) crypto \<Rightarrow> 'priv \<Rightarrow> 'pub \<Rightarrow> bytes" where
  "ECDH c priv pub = c_sha256 c (c_serialize c (c_scalarMult c priv pub))"

definition ecdh :: "('priv, 'pub) crypto \<Rightarrow> 'pub \<Rightarrow> 'priv \<Rightarrow> bytes" where
  "ecdh c pub priv = ECDH c priv pub"

lemma ecdh_shared:
  "crypto_laws c \<Longrightarrow>
   ecdh c (PrivKeyECDH_PubKey c b) a = ecdh c (PrivKeyECDH_PubKey c a) b"
  using crypto_lawsD(5) [of c a b] by (simp add: ecdh_def ECDH_def PrivKeyECDH_PubKey_def)

subsection \<open>The cipher state\<close>

record cipherState =
  cs_nonce :: "64 word"
  cs_secretKey :: bytes
  cs_salt :: bytes
  cs_cipher :: bytes

definition emptyCipher :: cipherState where
  "emptyCipher =
     \<lparr>cs_nonce = 0, cs_secretKey = replicate 32 0, cs_salt = replicate 32 0, cs_cipher = []\<rparr>"

definition InitializeKey :: "bytes \<Rightarrow> cipherState \<Rightarrow> cipherState" where
  "InitializeKey key s = s\<lparr>cs_secretKey := key, cs_nonce := 0, cs_cipher := key\<rparr>"

definition InitializeKeyWithSalt :: "bytes \<Rightarrow> bytes \<Rightarrow> cipherState \<Rightarrow> cipherState" where
  "InitializeKeyWithSalt salt key s = InitializeKey key (s\<lparr>cs_salt := salt\<rparr>)"

definition rotateKey :: "('priv, 'pub) crypto \<Rightarrow> cipherState \<Rightarrow> cipherState" where
  "rotateKey c s =
     (let oldKey = cs_secretKey s;
          salt = c_hkdf c oldKey (cs_salt s) [] 0 32;
          nextKey = c_hkdf c oldKey (cs_salt s) [] 32 32
      in InitializeKey nextKey (s\<lparr>cs_salt := salt\<rparr>))"

text \<open>The deferred increment of \<open>Encrypt\<close> and \<open>Decrypt\<close>.\<close>

definition bump :: "('priv, 'pub) crypto \<Rightarrow> cipherState \<Rightarrow> cipherState" where
  "bump c s =
     (let s' = s\<lparr>cs_nonce := cs_nonce s + 1\<rparr>
      in (if cs_nonce s' = keyRotationInterval then rotateKey c s' else s'))"

definition nonce12 :: "64 word \<Rightarrow> bytes" where
  "nonce12 n = replicate 4 0 @ putUint LittleEndian 8 (unat n)"

definition Encrypt :: "('priv, 'pub) crypto \<Rightarrow> bytes \<Rightarrow> bytes \<Rightarrow> cipherState \<Rightarrow> bytes \<times> cipherState" where
  "Encrypt c ad plain s = (c_seal c (cs_cipher s) (nonce12 (cs_nonce s)) plain ad, bump c s)"

definition Decrypt ::
  "('priv, 'pub) crypto \<Rightarrow> bytes \<Rightarrow> bytes \<Rightarrow> cipherState \<Rightarrow> bytes option \<times> cipherState" where
  "Decrypt c ad ct s = (c_open c (cs_cipher s) (nonce12 (cs_nonce s)) ct ad, bump c s)"

lemma Decrypt_Encrypt:
  "crypto_laws c \<Longrightarrow> Decrypt c ad (fst (Encrypt c ad p s)) s = (Some p, snd (Encrypt c ad p s))"
  by (simp add: Encrypt_def Decrypt_def crypto_lawsD(1))

lemma length_Encrypt: "crypto_laws c \<Longrightarrow> length (fst (Encrypt c ad p s)) = length p + macSize"
  by (simp add: Encrypt_def crypto_lawsD(2))

subsection \<open>The symmetric state\<close>

record symmetricState =
  ss_cipher :: cipherState
  chainingKey :: bytes
  tempKey :: bytes
  handshakeDigest :: bytes

definition mixKey :: "('priv, 'pub) crypto \<Rightarrow> bytes \<Rightarrow> symmetricState \<Rightarrow> symmetricState" where
  "mixKey c input s =
     (let salt = chainingKey s;
          ck = c_hkdf c input salt [] 0 32;
          tk = c_hkdf c input salt [] 32 32
      in s\<lparr>chainingKey := ck, tempKey := tk, ss_cipher := InitializeKey tk (ss_cipher s)\<rparr>)"

definition mixHash :: "('priv, 'pub) crypto \<Rightarrow> bytes \<Rightarrow> symmetricState \<Rightarrow> symmetricState" where
  "mixHash c d s = s\<lparr>handshakeDigest := c_sha256 c (handshakeDigest s @ d)\<rparr>"

definition EncryptAndHash ::
  "('priv, 'pub) crypto \<Rightarrow> bytes \<Rightarrow> symmetricState \<Rightarrow> bytes \<times> symmetricState" where
  "EncryptAndHash c plain s =
     (let (ct, cs) = Encrypt c (handshakeDigest s) plain (ss_cipher s)
      in (ct, mixHash c ct (s\<lparr>ss_cipher := cs\<rparr>)))"

definition DecryptAndHash ::
  "('priv, 'pub) crypto \<Rightarrow> bytes \<Rightarrow> symmetricState \<Rightarrow> bytes option \<times> symmetricState" where
  "DecryptAndHash c ct s =
     (let (plain, cs) = Decrypt c (handshakeDigest s) ct (ss_cipher s);
          s' = s\<lparr>ss_cipher := cs\<rparr>
      in (case plain of None \<Rightarrow> (None, s') | Some p \<Rightarrow> (Some p, mixHash c ct s')))"

definition InitializeSymmetric :: "('priv, 'pub) crypto \<Rightarrow> bytes \<Rightarrow> symmetricState \<Rightarrow> symmetricState" where
  "InitializeSymmetric c name s =
     (let d = c_sha256 c name
      in s\<lparr>handshakeDigest := d, chainingKey := d,
           ss_cipher := InitializeKey (replicate 32 0) (ss_cipher s)\<rparr>)"

definition emptySymmetric :: symmetricState where
  "emptySymmetric =
     \<lparr>ss_cipher = emptyCipher, chainingKey = replicate 32 0, tempKey = replicate 32 0,
      handshakeDigest = replicate 32 0\<rparr>"

lemma DecryptAndHash_Encrypt:
  "crypto_laws c \<Longrightarrow>
   DecryptAndHash c (fst (EncryptAndHash c p s)) s = (Some p, snd (EncryptAndHash c p s))"
  using Decrypt_Encrypt [of c "handshakeDigest s" p "ss_cipher s"]
  by (simp add: EncryptAndHash_def DecryptAndHash_def case_prod_beta)

lemma length_EncryptAndHash:
  "crypto_laws c \<Longrightarrow> length (fst (EncryptAndHash c p s)) = length p + macSize"
  by (simp add: EncryptAndHash_def case_prod_beta length_Encrypt)

subsection \<open>Key rotation\<close>

text \<open>
  The state after any number of messages: the nonce counts within the key's interval, and
  the key has been rotated once per full interval.
\<close>

definition advance :: "('priv, 'pub) crypto \<Rightarrow> nat \<Rightarrow> cipherState \<Rightarrow> cipherState" where
  "advance c i s = (bump c ^^ i) s"

lemma rotateKey_nonce [simp]: "cs_nonce (rotateKey c s) = 0"
  by (simp add: rotateKey_def InitializeKey_def Let_def)

lemma rotateKey_of_nonce [simp]: "rotateKey c (s\<lparr>cs_nonce := v\<rparr>) = rotateKey c s"
  by (simp add: rotateKey_def InitializeKey_def Let_def)

lemma advance_state:
  assumes "cs_nonce s = 0"
  shows "advance c i s = ((rotateKey c ^^ (i div 1000)) s)\<lparr>cs_nonce := of_nat (i mod 1000)\<rparr>"
proof (induction i)
  case 0
  then show ?case using assms by (simp add: advance_def)
next
  case (Suc i)
  let ?r = "(rotateKey c ^^ (i div 1000)) s"
  have less: "i mod 1000 < 1000" by simp
  have step: "advance c (Suc i) s = bump c (?r\<lparr>cs_nonce := of_nat (i mod 1000)\<rparr>)"
    using Suc by (simp add: advance_def)
  show ?case
  proof (cases "Suc (i mod 1000) = 1000")
    case True
    then have "(of_nat (i mod 1000) + 1 :: 64 word) = of_nat 1000"
      by (metis of_nat_Suc add.commute)
    moreover have "Suc i mod 1000 = 0" "Suc i div 1000 = Suc (i div 1000)"
      using True by (simp_all add: mod_Suc div_Suc)
    ultimately show ?thesis
      unfolding step bump_def by (simp add: keyRotationInterval_def)
  next
    case False
    then have s: "Suc i mod 1000 = Suc (i mod 1000)" "Suc i div 1000 = i div 1000"
      by (simp_all add: mod_Suc div_Suc)
    have "of_nat (Suc (i mod 1000)) \<noteq> (1000 :: 64 word)"
    proof
      assume "of_nat (Suc (i mod 1000)) = (1000 :: 64 word)"
      then have "unat (of_nat (Suc (i mod 1000)) :: 64 word) = unat (1000 :: 64 word)"
        by (simp only:)
      with less False show False by (simp add: unat_of_nat take_bit_nat_eq_self del: of_nat_Suc)
    qed
    then show ?thesis
      unfolding step bump_def by (simp add: keyRotationInterval_def s add.commute)
  qed
qed

subsection \<open>Properties\<close>

text \<open>
  Messages encrypted one after the other: the ciphertexts, and the state they leave.  A message is
  its associated data and its plaintext.
\<close>

fun encrypt_all :: "('priv, 'pub) crypto \<Rightarrow> (bytes \<times> bytes) list \<Rightarrow> cipherState \<Rightarrow> bytes list \<times> cipherState" where
  "encrypt_all c [] s = ([], s)"
| "encrypt_all c ((ad, plain) # msgs) s =
     (let (ct, s1) = Encrypt c ad plain s; (cts, s2) = encrypt_all c msgs s1 in (ct # cts, s2))"

lemma encrypt_all_nth:
  "i < length msgs \<Longrightarrow>
   fst (encrypt_all c msgs s) ! i = fst (Encrypt c (fst (msgs ! i)) (snd (msgs ! i)) (advance c i s)) \<and>
   length (fst (encrypt_all c msgs s)) = length msgs"
proof (induction msgs arbitrary: i s)
  case (Cons m msgs)
  obtain ad plain where m: "m = (ad, plain)" by (cases m)
  have len: "length (fst (encrypt_all c xs t)) = length xs" for xs t
    by (induction xs arbitrary: t) (auto simp: Let_def case_prod_beta)
  show ?case
  proof (cases i)
    case 0
    then show ?thesis using len by (simp add: m Let_def advance_def case_prod_beta)
  next
    case (Suc j)
    have "advance c (Suc j) s = advance c j (bump c s)" unfolding advance_def by (simp add: funpow_swap1)
    moreover have "snd (Encrypt c ad plain s) = bump c s" by (simp add: Encrypt_def)
    ultimately show ?thesis using Suc Cons len by (simp add: m Let_def case_prod_beta)
  qed
qed simp

lemma nonce12_inj: "nonce12 a = nonce12 b \<longleftrightarrow> a = b"
proof
  assume "nonce12 a = nonce12 b"
  then have "getUint LittleEndian (putUint LittleEndian 8 (unat a)) = getUint LittleEndian (putUint LittleEndian 8 (unat b))"
    by (simp add: nonce12_def)
  moreover have "unat x < 256 ^ 8" for x :: "64 word" using unsigned_less [of x, where ?'a = nat] by simp
  ultimately have "unat a = unat b" by (simp add: getUint_putUint)
  then show "a = b" by (simp add: word_eq_iff_unsigned [where ?'a = nat])
qed simp



text \<open>
  A failed decryption moves the cipher on: the nonce is incremented, and the key rotated
  when due, whether or not the tag was right, so that after a rejected message the receiver is
  out of step with the sender.
\<close>

lemma failed_decrypt_advances:
  assumes "c_open c (cs_cipher s) (nonce12 (cs_nonce s)) ct ad = None"
  shows "Decrypt c ad ct s = (None, bump c s) \<and> bump c s \<noteq> s"
proof -
  have "cs_nonce (bump c s) \<noteq> cs_nonce s"
  proof (cases "cs_nonce s + 1 = keyRotationInterval")
    case True
    then have "cs_nonce s \<noteq> 0" by (auto simp: keyRotationInterval_def)
    with True show ?thesis by (simp add: bump_def Let_def)
  qed (simp add: bump_def Let_def)
  then have "bump c s \<noteq> s" by auto
  then show ?thesis by (simp add: Decrypt_def assms)
qed

lemma failed_decrypt_advances_witness:
  "Decrypt plain_crypto [] [1, 2] emptyCipher = (None, bump plain_crypto emptyCipher)"
  using failed_decrypt_advances [of plain_crypto emptyCipher "[1, 2]" "[]"]
  by (simp add: plain_crypto_def)

end
