(* ===== verification/Brontide_Handshake.thy ===== *)
theory Brontide_Handshake
  imports Brontide_Cipher
begin

section \<open>The handshake in three acts (\<open>brontide/noise.go\<close>, \<open>active.go\<close>, \<open>passive.go\<close>)\<close>

text \<open>
  The machine of one side and the six operations of the exchange.  A private key stands for
  the \<open>PrivKeyECDH\<close> that wraps it; the key the ephemeral generator yields, or its failure, is
  an argument.  The initiator is created with the responder's key.  Fields of the machine are
  set by a failing operation as far as the code got.  \<open>NilKey\<close> is the nil dereference of a key
  that the order of the acts has not yet set, \<open>IndexRange\<close> the panic of an index out of range.
\<close>

datatype brontide_err =
    ErrMaxMessageLengthExceeded
  | ErrMessageNotFlushed
  | ErrVersion byte
  | ErrParsePubKey
  | ErrMac
  | ErrEphemeral
  | NilKey
  | IndexRange
  | IoErr io_err

record ('priv, 'pub) machine =
  sendCipher :: cipherState
  recvCipher :: cipherState
  symmetric :: symmetricState
  initiator :: bool
  localStatic :: 'priv
  localEphemeral :: "'priv option"
  remoteStatic :: "'pub option"
  remoteEphemeral :: "'pub option"
  nextHeaderSend :: bytes
  nextBodySend :: bytes

definition newHandshakeState ::
  "('priv, 'pub) crypto \<Rightarrow> bool \<Rightarrow> bytes \<Rightarrow> 'priv \<Rightarrow> 'pub option \<Rightarrow> ('priv, 'pub) machine" where
  "newHandshakeState c init prologue localKey remotePub =
     (let s = mixHash c prologue (InitializeSymmetric c protocolName emptySymmetric);
          known = (if init then the remotePub else PrivKeyECDH_PubKey c localKey)
      in \<lparr>sendCipher = emptyCipher, recvCipher = emptyCipher,
          symmetric = mixHash c (c_serialize c known) s, initiator = init,
          localStatic = localKey, localEphemeral = None, remoteStatic = remotePub,
          remoteEphemeral = None, nextHeaderSend = [], nextBodySend = []\<rparr>)"

definition NewBrontideMachine ::
  "('priv, 'pub) crypto \<Rightarrow> bool \<Rightarrow> 'priv \<Rightarrow> 'pub option \<Rightarrow> ('priv, 'pub) machine" where
  "NewBrontideMachine c init localKey remotePub =
     newHandshakeState c init astralPrologue localKey remotePub"

definition HandshakeVersion :: byte where "HandshakeVersion = 0"

definition ActOneSize :: nat where "ActOneSize = 50"

definition ActTwoSize :: nat where "ActTwoSize = 50"

definition ActThreeSize :: nat where "ActThreeSize = 66"

text \<open>\<open>copy\<close> into a fixed array: as much as fits, zeros behind it.\<close>

definition fit :: "nat \<Rightarrow> bytes \<Rightarrow> bytes" where
  "fit k bs = take k bs @ replicate (k - length bs) 0"

lemma fit_exact [simp]: "length bs = k \<Longrightarrow> fit k bs = bs"
  by (simp add: fit_def)

lemma length_fit [simp]: "length (fit k bs) = k"
  by (simp add: fit_def min_def)

definition upd_sym :: "(symmetricState \<Rightarrow> symmetricState) \<Rightarrow> ('priv, 'pub) machine \<Rightarrow> ('priv, 'pub) machine" where
  "upd_sym f m = m\<lparr>symmetric := f (symmetric m)\<rparr>"

subsection \<open>Splitting into the two transport ciphers\<close>

definition split_keys :: "('priv, 'pub) crypto \<Rightarrow> ('priv, 'pub) machine \<Rightarrow> ('priv, 'pub) machine" where
  "split_keys c m =
     (let ck = chainingKey (symmetric m);
          k1 = c_hkdf c [] ck [] 0 32;
          k2 = c_hkdf c [] ck [] 32 32
      in (if initiator m
          then m\<lparr>sendCipher := InitializeKeyWithSalt ck k1 emptyCipher,
                 recvCipher := InitializeKeyWithSalt ck k2 emptyCipher\<rparr>
          else m\<lparr>recvCipher := InitializeKeyWithSalt ck k1 emptyCipher,
                 sendCipher := InitializeKeyWithSalt ck k2 emptyCipher\<rparr>))"

subsection \<open>The acts\<close>

definition GenActOne ::
  "('priv, 'pub) crypto \<Rightarrow> 'priv option \<Rightarrow> ('priv, 'pub) machine \<Rightarrow>
     (brontide_err + bytes) \<times> ('priv, 'pub) machine" where
  "GenActOne c gen m =
     (case gen of
        None \<Rightarrow> (Inl ErrEphemeral, m)
      | Some e \<Rightarrow>
          (let m1 = m\<lparr>localEphemeral := Some e\<rparr>;
               ephemeral = c_serialize c (c_pubKey c e);
               m2 = upd_sym (mixHash c ephemeral) m1
           in (case remoteStatic m of
                 None \<Rightarrow> (Inl NilKey, m2)
               | Some rs \<Rightarrow>
                   (let m3 = upd_sym (mixKey c (ecdh c rs e)) m2;
                        (authPayload, s) = EncryptAndHash c [] (symmetric m3)
                    in (Inr ([HandshakeVersion] @ fit 33 ephemeral @ fit 16 authPayload),
                        m3\<lparr>symmetric := s\<rparr>)))))"

definition RecvActOne ::
  "('priv, 'pub) crypto \<Rightarrow> bytes \<Rightarrow> ('priv, 'pub) machine \<Rightarrow>
     brontide_err option \<times> ('priv, 'pub) machine" where
  "RecvActOne c act m =
     (if act ! 0 \<noteq> HandshakeVersion then (Some (ErrVersion (act ! 0)), m)
      else (let e = take 33 (drop 1 act); p = take 16 (drop 34 act)
            in (case c_parse c e of
                  None \<Rightarrow> (Some ErrParsePubKey, m\<lparr>remoteEphemeral := None\<rparr>)
                | Some re \<Rightarrow>
                    (let m1 = upd_sym (mixHash c (c_serialize c re)) (m\<lparr>remoteEphemeral := Some re\<rparr>);
                         m2 = upd_sym (mixKey c (ecdh c re (localStatic m))) m1;
                         (plain, s) = DecryptAndHash c p (symmetric m2);
                         m3 = m2\<lparr>symmetric := s\<rparr>
                     in (if plain = None then (Some ErrMac, m3) else (None, m3))))))"

definition GenActTwo ::
  "('priv, 'pub) crypto \<Rightarrow> 'priv option \<Rightarrow> ('priv, 'pub) machine \<Rightarrow>
     (brontide_err + bytes) \<times> ('priv, 'pub) machine" where
  "GenActTwo c gen m =
     (case gen of
        None \<Rightarrow> (Inl ErrEphemeral, m)
      | Some e \<Rightarrow>
          (let m1 = m\<lparr>localEphemeral := Some e\<rparr>;
               ephemeral = c_serialize c (c_pubKey c e);
               m2 = upd_sym (mixHash c ephemeral) m1
           in (case remoteEphemeral m of
                 None \<Rightarrow> (Inl NilKey, m2)
               | Some re \<Rightarrow>
                   (let m3 = upd_sym (mixKey c (ecdh c re e)) m2;
                        (authPayload, s) = EncryptAndHash c [] (symmetric m3)
                    in (Inr ([HandshakeVersion] @ fit 33 ephemeral @ fit 16 authPayload),
                        m3\<lparr>symmetric := s\<rparr>)))))"

definition RecvActTwo ::
  "('priv, 'pub) crypto \<Rightarrow> bytes \<Rightarrow> ('priv, 'pub) machine \<Rightarrow>
     brontide_err option \<times> ('priv, 'pub) machine" where
  "RecvActTwo c act m =
     (if act ! 0 \<noteq> HandshakeVersion then (Some (ErrVersion (act ! 0)), m)
      else (let e = take 33 (drop 1 act); p = take 16 (drop 34 act)
            in (case c_parse c e of
                  None \<Rightarrow> (Some ErrParsePubKey, m\<lparr>remoteEphemeral := None\<rparr>)
                | Some re \<Rightarrow>
                    (let m1 = upd_sym (mixHash c (c_serialize c re)) (m\<lparr>remoteEphemeral := Some re\<rparr>)
                     in (case localEphemeral m of
                           None \<Rightarrow> (Some NilKey, m1)
                         | Some le \<Rightarrow>
                             (let m2 = upd_sym (mixKey c (ecdh c re le)) m1;
                                  (plain, s) = DecryptAndHash c p (symmetric m2);
                                  m3 = m2\<lparr>symmetric := s\<rparr>
                              in (if plain = None then (Some ErrMac, m3) else (None, m3))))))))"

definition GenActThree ::
  "('priv, 'pub) crypto \<Rightarrow> ('priv, 'pub) machine \<Rightarrow>
     (brontide_err + bytes) \<times> ('priv, 'pub) machine" where
  "GenActThree c m =
     (let ourPubkey = c_serialize c (PrivKeyECDH_PubKey c (localStatic m));
          (ciphertext, s1) = EncryptAndHash c ourPubkey (symmetric m);
          m1 = m\<lparr>symmetric := s1\<rparr>
      in (case remoteEphemeral m of
            None \<Rightarrow> (Inl NilKey, m1)
          | Some re \<Rightarrow>
              (let m2 = upd_sym (mixKey c (ecdh c re (localStatic m))) m1;
                   (authPayload, s2) = EncryptAndHash c [] (symmetric m2)
               in (Inr ([HandshakeVersion] @ fit 49 ciphertext @ fit 16 authPayload),
                   split_keys c (m2\<lparr>symmetric := s2\<rparr>)))))"

definition RecvActThree ::
  "('priv, 'pub) crypto \<Rightarrow> bytes \<Rightarrow> ('priv, 'pub) machine \<Rightarrow>
     brontide_err option \<times> ('priv, 'pub) machine" where
  "RecvActThree c act m =
     (if act ! 0 \<noteq> HandshakeVersion then (Some (ErrVersion (act ! 0)), m)
      else (let s = take 49 (drop 1 act); p = take 16 (drop 50 act);
                (remotePub, s1) = DecryptAndHash c s (symmetric m);
                m1 = m\<lparr>symmetric := s1\<rparr>
            in (case remotePub of
                  None \<Rightarrow> (Some ErrMac, m1)
                | Some bs \<Rightarrow>
                    (case c_parse c bs of
                       None \<Rightarrow> (Some ErrParsePubKey, m1\<lparr>remoteStatic := None\<rparr>)
                     | Some rs \<Rightarrow>
                         (let m2 = m1\<lparr>remoteStatic := Some rs\<rparr>
                          in (case localEphemeral m of
                                None \<Rightarrow> (Some NilKey, m2)
                              | Some le \<Rightarrow>
                                  (let m3 = upd_sym (mixKey c (ecdh c rs le)) m2;
                                       (plain, s3) = DecryptAndHash c p (symmetric m3);
                                       m4 = m3\<lparr>symmetric := s3\<rparr>
                                   in (if plain = None then (Some ErrMac, m4)
                                       else (None, split_keys c m4)))))))))"

lemmas act_defs = GenActOne_def RecvActOne_def GenActTwo_def RecvActTwo_def GenActThree_def
  RecvActThree_def

subsection \<open>Each act keeps the two sides in step\<close>

lemma fst_EncryptAndHash_length:
  "crypto_laws c \<Longrightarrow> length (fst (EncryptAndHash c [] s)) = 16"
  by (simp add: length_EncryptAndHash macSize_def)

text \<open>
  One act in general: the sender mixes a key into its digest and a shared secret into its
  keys and seals; the receiver does the same and opens.
\<close>

definition act_state :: "('priv, 'pub) crypto \<Rightarrow> 'pub \<Rightarrow> bytes \<Rightarrow> symmetricState \<Rightarrow> symmetricState" where
  "act_state c e secret s = mixKey c secret (mixHash c (c_serialize c e) s)"

lemma act_take:
  assumes "length e = 33" and "length p = 16"
  shows "take 33 (drop 1 ([v] @ e @ p)) = e" and "take 16 (drop 34 ([v] @ e @ p)) = p"
    and "([v] @ e @ p) ! 0 = v"
  using assms by simp_all

lemma act_one:
  assumes "crypto_laws c" and "symmetric i = symmetric r"
    and "remoteStatic i = Some (PrivKeyECDH_PubKey c (localStatic r))"
  shows "\<exists>act i' r'. GenActOne c (Some e) i = (Inr act, i') \<and> length act = ActOneSize \<and>
           RecvActOne c act r = (None, r') \<and> symmetric i' = symmetric r' \<and>
           i' = i\<lparr>localEphemeral := Some e, symmetric := symmetric i'\<rparr> \<and>
           r' = r\<lparr>remoteEphemeral := Some (c_pubKey c e), symmetric := symmetric r'\<rparr>"
proof -
  let ?s = "act_state c (c_pubKey c e) (ecdh c (PrivKeyECDH_PubKey c (localStatic r)) e) (symmetric r)"
  let ?e = "c_serialize c (c_pubKey c e)"
  let ?p = "fst (EncryptAndHash c [] ?s)"
  have len: "length ?e = 33" "length ?p = 16"
    using assms(1) by (simp_all add: crypto_lawsD fst_EncryptAndHash_length)
  have shared: "ecdh c (c_pubKey c e) (localStatic r) = ecdh c (PrivKeyECDH_PubKey c (localStatic r)) e"
    using ecdh_shared [OF assms(1), of e "localStatic r"] by (simp add: PrivKeyECDH_PubKey_def)
  have g: "GenActOne c (Some e) i =
      (Inr ([HandshakeVersion] @ ?e @ ?p), i\<lparr>localEphemeral := Some e, symmetric := snd (EncryptAndHash c [] ?s)\<rparr>)"
    using assms(2,3) len
    by (simp add: GenActOne_def upd_sym_def act_state_def Let_def case_prod_beta)
  have r: "RecvActOne c ([HandshakeVersion] @ ?e @ ?p) r =
      (None, r\<lparr>remoteEphemeral := Some (c_pubKey c e), symmetric := snd (EncryptAndHash c [] ?s)\<rparr>)"
    unfolding RecvActOne_def Let_def act_take [OF len]
    using DecryptAndHash_Encrypt [OF assms(1), of "[]" ?s] shared
    by (simp add: crypto_lawsD(3) [OF assms(1)] upd_sym_def act_state_def)
  show ?thesis
    by (intro exI conjI, rule g, simp add: ActOneSize_def len, rule r) simp_all
qed

lemma act_two:
  assumes "crypto_laws c" and "symmetric i = symmetric r"
    and "localEphemeral i = Some ei" and "remoteEphemeral r = Some (c_pubKey c ei)"
  shows "\<exists>act i' r'. GenActTwo c (Some e) r = (Inr act, r') \<and> length act = ActTwoSize \<and>
           RecvActTwo c act i = (None, i') \<and> symmetric i' = symmetric r' \<and>
           r' = r\<lparr>localEphemeral := Some e, symmetric := symmetric r'\<rparr> \<and>
           i' = i\<lparr>remoteEphemeral := Some (c_pubKey c e), symmetric := symmetric i'\<rparr>"
proof -
  let ?s = "act_state c (c_pubKey c e) (ecdh c (c_pubKey c ei) e) (symmetric r)"
  let ?e = "c_serialize c (c_pubKey c e)"
  let ?p = "fst (EncryptAndHash c [] ?s)"
  have len: "length ?e = 33" "length ?p = 16"
    using assms(1) by (simp_all add: crypto_lawsD fst_EncryptAndHash_length)
  have shared: "ecdh c (c_pubKey c e) ei = ecdh c (c_pubKey c ei) e"
    using ecdh_shared [OF assms(1), of e ei] by (simp add: PrivKeyECDH_PubKey_def)
  have g: "GenActTwo c (Some e) r =
      (Inr ([HandshakeVersion] @ ?e @ ?p), r\<lparr>localEphemeral := Some e, symmetric := snd (EncryptAndHash c [] ?s)\<rparr>)"
    using assms(4) len
    by (simp add: GenActTwo_def upd_sym_def act_state_def Let_def case_prod_beta)
  have r: "RecvActTwo c ([HandshakeVersion] @ ?e @ ?p) i =
      (None, i\<lparr>remoteEphemeral := Some (c_pubKey c e), symmetric := snd (EncryptAndHash c [] ?s)\<rparr>)"
    unfolding RecvActTwo_def Let_def act_take [OF len]
    using DecryptAndHash_Encrypt [OF assms(1), of "[]" ?s] shared assms(2,3)
    by (simp add: crypto_lawsD(3) [OF assms(1)] upd_sym_def act_state_def)
  show ?thesis
    by (intro exI conjI, rule g, simp add: ActTwoSize_def len, rule r) simp_all
qed

lemma act_three:
  assumes "crypto_laws c" and "symmetric i = symmetric r" and "initiator i" and "\<not> initiator r"
    and "remoteEphemeral i = Some (c_pubKey c er)" and "localEphemeral r = Some er"
  shows "\<exists>act i' r'. GenActThree c i = (Inr act, i') \<and> length act = ActThreeSize \<and>
           RecvActThree c act r = (None, r') \<and>
           sendCipher i' = recvCipher r' \<and> recvCipher i' = sendCipher r' \<and>
           remoteStatic r' = Some (PrivKeyECDH_PubKey c (localStatic i)) \<and>
           remoteStatic i' = remoteStatic i \<and>
           nextHeaderSend i' = nextHeaderSend i \<and> nextBodySend i' = nextBodySend i \<and>
           nextHeaderSend r' = nextHeaderSend r \<and> nextBodySend r' = nextBodySend r"
proof -
  let ?pub = "PrivKeyECDH_PubKey c (localStatic i)"
  let ?x = "EncryptAndHash c (c_serialize c ?pub) (symmetric r)"
  let ?s = "mixKey c (ecdh c (c_pubKey c er) (localStatic i)) (snd ?x)"
  let ?p = "fst (EncryptAndHash c [] ?s)"
  let ?t = "snd (EncryptAndHash c [] ?s)"
  let ?act = "[HandshakeVersion] @ fst ?x @ ?p"
  have len: "length (fst ?x) = 49" "length ?p = 16"
    using assms(1) by (simp_all add: crypto_lawsD length_EncryptAndHash macSize_def)
  have take: "?act ! 0 = HandshakeVersion" "take 49 (drop 1 ?act) = fst ?x" "take 16 (drop 50 ?act) = ?p"
    using len by simp_all
  have shared: "ecdh c ?pub er = ecdh c (c_pubKey c er) (localStatic i)"
    using ecdh_shared [OF assms(1), of er "localStatic i"] by (simp add: PrivKeyECDH_PubKey_def)
  have g: "GenActThree c i = (Inr ?act, split_keys c (i\<lparr>symmetric := ?t\<rparr>))"
    using assms(2,5) len by (simp add: GenActThree_def upd_sym_def Let_def case_prod_beta)
  have r: "RecvActThree c ?act r = (None, split_keys c (r\<lparr>remoteStatic := Some ?pub, symmetric := ?t\<rparr>))"
    unfolding RecvActThree_def Let_def take
    using DecryptAndHash_Encrypt [OF assms(1), of "c_serialize c ?pub" "symmetric r"]
      DecryptAndHash_Encrypt [OF assms(1), of "[]" ?s] shared assms(6)
    by (simp add: crypto_lawsD(3) [OF assms(1)] upd_sym_def)
  show ?thesis
    by (intro exI conjI, rule g, simp add: ActThreeSize_def len, rule r)
      (use assms(3,4) in \<open>simp_all add: split_keys_def Let_def\<close>)
qed

subsection \<open>The two sides over a transport\<close>

text \<open>
  A side is a function of what it will read from the transport and of what its writes answer;
  it yields its machine or its error, the bytes it has written, and whether it has closed the
  transport.
\<close>

type_synonym ('priv, 'pub) hs_out = "(brontide_err + ('priv, 'pub) machine) \<times> bytes \<times> bool"

definition ActiveHandshake ::
  "('priv, 'pub) crypto \<Rightarrow> 'priv \<Rightarrow> 'pub \<Rightarrow> 'priv option \<Rightarrow> io_err option \<Rightarrow> io_err option \<Rightarrow> bytes \<Rightarrow>
     ('priv, 'pub) hs_out" where
  "ActiveHandshake c localKey remoteKey gen w1 w2 inp =
     (let m0 = NewBrontideMachine c True localKey (Some remoteKey) in
      (case GenActOne c gen m0 of
         (Inl e, _) \<Rightarrow> (Inl e, [], True)
       | (Inr a1, m1) \<Rightarrow>
           (case w1 of
              Some e \<Rightarrow> (Inl (IoErr e), [], True)
            | None \<Rightarrow>
                (case readFull ActTwoSize inp of
                   (_, Inl e, _) \<Rightarrow> (Inl (IoErr e), a1, True)
                 | (_, Inr a2, _) \<Rightarrow>
                     (case RecvActTwo c a2 m1 of
                        (Some e, _) \<Rightarrow> (Inl e, a1, True)
                      | (None, m2) \<Rightarrow>
                          (case GenActThree c m2 of
                             (Inl e, _) \<Rightarrow> (Inl e, a1, True)
                           | (Inr a3, m3) \<Rightarrow>
                               (case w2 of
                                  Some e \<Rightarrow> (Inl (IoErr e), a1, True)
                                | None \<Rightarrow> (Inr m3, a1 @ a3, False))))))))"

definition PassiveHandshake ::
  "('priv, 'pub) crypto \<Rightarrow> 'priv \<Rightarrow> 'priv option \<Rightarrow> io_err option \<Rightarrow> bytes \<Rightarrow> ('priv, 'pub) hs_out" where
  "PassiveHandshake c localKey gen w inp =
     (let m0 = NewBrontideMachine c False localKey None in
      (case readFull ActOneSize inp of
         (_, Inl e, _) \<Rightarrow> (Inl (IoErr e), [], True)
       | (_, Inr a1, inp1) \<Rightarrow>
           (case RecvActOne c a1 m0 of
              (Some e, _) \<Rightarrow> (Inl e, [], True)
            | (None, m1) \<Rightarrow>
                (case GenActTwo c gen m1 of
                   (Inl e, _) \<Rightarrow> (Inl e, [], True)
                 | (Inr a2, m2) \<Rightarrow>
                     (case w of
                        Some e \<Rightarrow> (Inl (IoErr e), [], True)
                      | None \<Rightarrow>
                          (case readFull ActThreeSize inp1 of
                             (_, Inl e, _) \<Rightarrow> (Inl (IoErr e), a2, True)
                           | (_, Inr a3, _) \<Rightarrow>
                               (case RecvActThree c a3 m2 of
                                  (Some e, _) \<Rightarrow> (Inl e, a2, True)
                                | (None, m3) \<Rightarrow> (Inr m3, a2, False))))))))"

lemma new_machines:
  "symmetric (NewBrontideMachine c True si (Some (PrivKeyECDH_PubKey c sr))) =
     symmetric (NewBrontideMachine c False sr None)"
  "remoteStatic (NewBrontideMachine c True si (Some pub)) = Some pub"
  "localStatic (NewBrontideMachine c b si rp) = si" "initiator (NewBrontideMachine c b si rp) = b"
  "nextHeaderSend (NewBrontideMachine c b si rp) = []" "nextBodySend (NewBrontideMachine c b si rp) = []"
  by (simp_all add: NewBrontideMachine_def newHandshakeState_def Let_def)

subsection \<open>The exchange\<close>

lemma handshake_completes:
  assumes "crypto_laws c"
  shows "\<exists>a1 a2 a3 i r.
    length a1 = ActOneSize \<and> length a2 = ActTwoSize \<and> length a3 = ActThreeSize \<and>
    ActiveHandshake c si (PrivKeyECDH_PubKey c sr) (Some ei) None None a2 = (Inr i, a1 @ a3, False) \<and>
    PassiveHandshake c sr (Some er) None (a1 @ a3) = (Inr r, a2, False) \<and>
    sendCipher i = recvCipher r \<and> recvCipher i = sendCipher r \<and>
    remoteStatic i = Some (PrivKeyECDH_PubKey c sr) \<and>
    remoteStatic r = Some (PrivKeyECDH_PubKey c si) \<and>
    nextHeaderSend i = [] \<and> nextBodySend i = [] \<and> nextHeaderSend r = [] \<and> nextBodySend r = []"
proof -
  let ?i0 = "NewBrontideMachine c True si (Some (PrivKeyECDH_PubKey c sr))"
  let ?r0 = "NewBrontideMachine c False sr None"
  obtain a1 i1 r1 where a1: "GenActOne c (Some ei) ?i0 = (Inr a1, i1)" "length a1 = ActOneSize"
    "RecvActOne c a1 ?r0 = (None, r1)" "symmetric i1 = symmetric r1"
    and i1: "i1 = ?i0\<lparr>localEphemeral := Some ei, symmetric := symmetric i1\<rparr>"
    and r1: "r1 = ?r0\<lparr>remoteEphemeral := Some (c_pubKey c ei), symmetric := symmetric r1\<rparr>"
    using act_one [OF assms new_machines(1) [of c si sr], of ei] by (auto simp: new_machines)
  have "localEphemeral i1 = Some ei" by (subst i1) simp
  moreover have "remoteEphemeral r1 = Some (c_pubKey c ei)" by (subst r1) simp
  ultimately obtain a2 i2 r2 where a2: "GenActTwo c (Some er) r1 = (Inr a2, r2)" "length a2 = ActTwoSize"
    "RecvActTwo c a2 i1 = (None, i2)" "symmetric i2 = symmetric r2"
    and r2: "r2 = r1\<lparr>localEphemeral := Some er, symmetric := symmetric r2\<rparr>"
    and i2: "i2 = i1\<lparr>remoteEphemeral := Some (c_pubKey c er), symmetric := symmetric i2\<rparr>"
    using act_two [OF assms a1(4), of ei er] by blast
  have i: "initiator i2" "localStatic i2 = si" "remoteStatic i2 = Some (PrivKeyECDH_PubKey c sr)"
    "nextHeaderSend i2 = []" "nextBodySend i2 = []" "remoteEphemeral i2 = Some (c_pubKey c er)"
    by (subst i2, subst i1, simp add: new_machines)+
  have r: "\<not> initiator r2" "nextHeaderSend r2 = []" "nextBodySend r2 = []" "localEphemeral r2 = Some er"
    by (subst r2, subst r1, simp add: new_machines)+
  obtain a3 i3 r3 where a3: "GenActThree c i2 = (Inr a3, i3)" "length a3 = ActThreeSize"
    "RecvActThree c a3 r2 = (None, r3)"
    and fin: "sendCipher i3 = recvCipher r3" "recvCipher i3 = sendCipher r3"
      "remoteStatic r3 = Some (PrivKeyECDH_PubKey c si)"
      "remoteStatic i3 = Some (PrivKeyECDH_PubKey c sr)"
      "nextHeaderSend i3 = []" "nextBodySend i3 = []" "nextHeaderSend r3 = []" "nextBodySend r3 = []"
    using act_three [OF assms a2(4) i(1) r(1) i(6) r(4)] i r by auto
  have "ActiveHandshake c si (PrivKeyECDH_PubKey c sr) (Some ei) None None a2 = (Inr i3, a1 @ a3, False)"
    by (simp add: ActiveHandshake_def a1 a2 a3 readFull_all)
  moreover have "PassiveHandshake c sr (Some er) None (a1 @ a3) = (Inr r3, a2, False)"
    by (simp add: PassiveHandshake_def readFull_append [OF a1(2)] a1 a2 a3 readFull_all)
  ultimately show ?thesis
    using a1(2) a2(2) a3(2) fin by blast
qed

subsection \<open>Properties\<close>

text \<open>
  The handshake completes and agrees.  For all keys, when each side reads what the other
  has written, both sides finish; the cipher each side sends with is the one the other receives
  with, in both directions; the initiator has kept the key it asked for, and the responder has
  learnt the initiator's static key; nothing is pending to be sent.
\<close>

lemma handshake_agrees:
  assumes "crypto_laws c"
  shows "\<exists>a1 a2 a3 i r.
    length a1 = ActOneSize \<and> length a2 = ActTwoSize \<and> length a3 = ActThreeSize \<and>
    ActiveHandshake c si (PrivKeyECDH_PubKey c sr) (Some ei) None None a2 = (Inr i, a1 @ a3, False) \<and>
    PassiveHandshake c sr (Some er) None (a1 @ a3) = (Inr r, a2, False) \<and>
    sendCipher i = recvCipher r \<and> recvCipher i = sendCipher r \<and>
    remoteStatic i = Some (PrivKeyECDH_PubKey c sr) \<and>
    remoteStatic r = Some (PrivKeyECDH_PubKey c si) \<and>
    nextHeaderSend i = [] \<and> nextBodySend i = [] \<and> nextHeaderSend r = [] \<and> nextBodySend r = []"
  by (rule handshake_completes [OF assms])

lemma handshake_agrees_witness:
  "\<exists>a1 a2 a3 i r.
    ActiveHandshake plain_crypto 3 (PrivKeyECDH_PubKey plain_crypto 4) (Some 5) None None a2 =
      (Inr i, a1 @ a3, False) \<and>
    PassiveHandshake plain_crypto 4 (Some 6) None (a1 @ a3) = (Inr r, a2, False) \<and>
    sendCipher i = recvCipher r \<and> recvCipher i = sendCipher r"
  using handshake_agrees [OF plain_crypto_laws, of 3 4 5 6] by blast

text \<open>
  A side that does not finish has closed its transport, and a side that finishes has not:
  every error of the handshake, of the peer's bytes, of a key or of the transport, ends with the
  connection closed and no machine.
\<close>

lemma handshake_failure_closes:
  "((\<exists>m. fst (ActiveHandshake c k rk gen w1 w2 inp) = Inr m) =
      (\<not> snd (snd (ActiveHandshake c k rk gen w1 w2 inp)))) \<and>
   ((\<exists>m. fst (PassiveHandshake c k gen w1 inp) = Inr m) =
      (\<not> snd (snd (PassiveHandshake c k gen w1 inp))))"
  by (auto simp: ActiveHandshake_def PassiveHandshake_def Let_def
      split: sum.splits prod.splits option.splits)

end
