(* ===== verification/Brontide_Transport.thy ===== *)
theory Brontide_Transport
  imports Brontide_Handshake
begin

section \<open>Messages and the byte stream over them (\<open>brontide/noise.go\<close>, \<open>brontide/conn.go\<close>)\<close>

text \<open>
  After the handshake a machine encrypts messages of at most 65535 bytes, each with an
  encrypted length before it, and a \<open>Conn\<close> makes a stream of bytes out of them.  The transport
  below takes writes like the \<open>sink\<close> of the prelude, which may cut a write short, and is read
  from a list of bytes.
\<close>

definition WriteMessage ::
  "('priv, 'pub) crypto \<Rightarrow> bytes \<Rightarrow> ('priv, 'pub) machine \<Rightarrow>
     brontide_err option \<times> ('priv, 'pub) machine" where
  "WriteMessage c p m =
     (if length p > 65535 then (Some ErrMaxMessageLengthExceeded, m)
      else if nextHeaderSend m \<noteq> [] \<or> nextBodySend m \<noteq> [] then (Some ErrMessageNotFlushed, m)
      else (let fullLength = (of_nat (length p) :: 16 word);
                pktLen = putUint BigEndian 2 (unat fullLength);
                (header, cs1) = Encrypt c [] pktLen (sendCipher m);
                (body, cs2) = Encrypt c [] p cs1
            in (None, m\<lparr>sendCipher := cs2, nextHeaderSend := header, nextBodySend := body\<rparr>)))"

definition Flush ::
  "('priv, 'pub) machine \<Rightarrow> sink \<Rightarrow> (nat \<times> io_err option) \<times> ('priv, 'pub) machine \<times> sink" where
  "Flush m w =
     (let (herr, m1, w1) =
            (if nextHeaderSend m \<noteq> []
             then (let (n, err, w') = sink_Write (nextHeaderSend m) w
                   in (err, m\<lparr>nextHeaderSend := drop n (nextHeaderSend m)\<rparr>, w'))
             else (None, m, w))
      in (if herr \<noteq> None then ((0, herr), m1, w1)
          else if nextBodySend m1 \<noteq> []
          then (let (n, err, w2) = sink_Write (nextBodySend m1) w1;
                    m2 = m1\<lparr>nextBodySend := drop n (nextBodySend m1)\<rparr>;
                    start = n + length (nextBodySend m2);
                    end' = length (nextBodySend m2);
                    nn = (if start > macSize \<and> end' \<le> macSize then n - (macSize - end')
                          else if start > macSize \<and> end' > macSize then n
                          else 0)
                in ((nn, err), m2, w2))
          else ((0, None), m1, w1)))"

definition ReadHeader ::
  "('priv, 'pub) crypto \<Rightarrow> ('priv, 'pub) machine \<Rightarrow> bytes \<Rightarrow>
     (brontide_err + 32 word) \<times> ('priv, 'pub) machine \<times> bytes" where
  "ReadHeader c m inp =
     (case readFull encHeaderSize inp of
        (_, Inl e, rest) \<Rightarrow> (Inl (IoErr e), m, rest)
      | (_, Inr h, rest) \<Rightarrow>
          (let (plain, cs) = Decrypt c [] h (recvCipher m);
               m' = m\<lparr>recvCipher := cs\<rparr>
           in (case plain of
                 None \<Rightarrow> (Inl ErrMac, m', rest)
               | Some pktLenBytes \<Rightarrow>
                   (if length pktLenBytes < 2 then Inl IndexRange
                    else Inr (of_nat (getUint BigEndian (take 2 pktLenBytes)) + of_nat macSize),
                    m', rest))))"

definition ReadBody ::
  "('priv, 'pub) crypto \<Rightarrow> nat \<Rightarrow> ('priv, 'pub) machine \<Rightarrow> bytes \<Rightarrow>
     (brontide_err + bytes) \<times> ('priv, 'pub) machine \<times> bytes" where
  "ReadBody c size_buf m inp =
     (case readFull size_buf inp of
        (_, Inl e, rest) \<Rightarrow> (Inl (IoErr e), m, rest)
      | (_, Inr buf, rest) \<Rightarrow>
          (let (plain, cs) = Decrypt c [] buf (recvCipher m);
               m' = m\<lparr>recvCipher := cs\<rparr>
           in (case plain of None \<Rightarrow> (Inl ErrMac, m', rest) | Some p \<Rightarrow> (Inr p, m', rest))))"

definition ReadMessage ::
  "('priv, 'pub) crypto \<Rightarrow> ('priv, 'pub) machine \<Rightarrow> bytes \<Rightarrow>
     (brontide_err + bytes) \<times> ('priv, 'pub) machine \<times> bytes" where
  "ReadMessage c m inp =
     (case ReadHeader c m inp of
        (Inl e, m', rest) \<Rightarrow> (Inl e, m', rest)
      | (Inr pktLen, m', rest) \<Rightarrow> ReadBody c (unat pktLen) m' rest)"

subsection \<open>The connection\<close>

record ('priv, 'pub) bconn =
  noise :: "('priv, 'pub) machine"
  readBuf :: bytes

text \<open>Each message that was read has taken at least its header off the transport.\<close>

lemma readFull_shrinks: "readFull k inp = (n, Inr bs, rest) \<Longrightarrow> length rest + k = length inp"
  by (auto simp: readFull_def split: if_splits)

lemma ReadMessage_shrinks:
  "ReadMessage c m inp = (Inr p, m', rest) \<Longrightarrow> length rest < length inp"
  by (auto simp: ReadMessage_def ReadHeader_def ReadBody_def encHeaderSize_def lengthHeaderSize_def
      Let_def split: prod.splits sum.splits option.splits dest!: readFull_shrinks)

function Conn_fill ::
  "('priv, 'pub) crypto \<Rightarrow> ('priv, 'pub) bconn \<Rightarrow> bytes \<Rightarrow>
     brontide_err option \<times> ('priv, 'pub) bconn \<times> bytes" where
  "Conn_fill c b inp =
     (if readBuf b \<noteq> [] then (None, b, inp)
      else (case ReadMessage c (noise b) inp of
              (Inl e, m', rest) \<Rightarrow> (Some e, b\<lparr>noise := m'\<rparr>, rest)
            | (Inr plain, m', rest) \<Rightarrow> Conn_fill c (b\<lparr>noise := m', readBuf := readBuf b @ plain\<rparr>) rest))"
  by pat_completeness auto
termination
  by (relation "measure (\<lambda>(c, b, inp). length inp)") (auto dest: ReadMessage_shrinks [OF sym])

declare Conn_fill.simps [simp del]

definition Conn_Read ::
  "('priv, 'pub) crypto \<Rightarrow> nat \<Rightarrow> ('priv, 'pub) bconn \<Rightarrow> bytes \<Rightarrow>
     (brontide_err + bytes) \<times> ('priv, 'pub) bconn \<times> bytes" where
  "Conn_Read c k b inp =
     (case Conn_fill c b inp of
        (Some e, b', rest) \<Rightarrow> (Inl e, b', rest)
      | (None, b', rest) \<Rightarrow> (Inr (take k (readBuf b')), b'\<lparr>readBuf := drop k (readBuf b')\<rparr>, rest))"

text \<open>
  The write loop.  Whether it makes progress depends on the length of what the cipher
  returns, so that it is a partial function; \<open>conn_write_stream\<close> shows that it returns.
\<close>

partial_function (option) Conn_writeLoop ::
  "('priv, 'pub) crypto \<Rightarrow> bytes \<Rightarrow> nat \<Rightarrow> nat \<Rightarrow> ('priv, 'pub) machine \<Rightarrow> sink \<Rightarrow>
     (nat \<times> brontide_err option \<times> ('priv, 'pub) machine \<times> sink) option" where
  "Conn_writeLoop c b bytesWritten chunkSize m w =
     (if bytesWritten \<ge> length b then Some (bytesWritten, None, m, w)
      else (let chunkSize' = (if bytesWritten + chunkSize > length b then length b - bytesWritten
                              else chunkSize);
                (err, m1) = WriteMessage c (take chunkSize' (drop bytesWritten b)) m
            in (if err \<noteq> None then Some (bytesWritten, err, m1, w)
                else (let ((n, ferr), m2, w2) = Flush m1 w
                      in (case ferr of
                            Some e \<Rightarrow> Some (bytesWritten + n, Some (IoErr e), m2, w2)
                          | None \<Rightarrow> Conn_writeLoop c b (bytesWritten + n) chunkSize' m2 w2)))))"

definition Conn_Write ::
  "('priv, 'pub) crypto \<Rightarrow> bytes \<Rightarrow> ('priv, 'pub) machine \<Rightarrow> sink \<Rightarrow>
     (nat \<times> brontide_err option \<times> ('priv, 'pub) machine \<times> sink) option" where
  "Conn_Write c b m w =
     (if length b \<le> 65535
      then (let (err, m1) = WriteMessage c b m
            in (if err \<noteq> None then Some (0, err, m1, w)
                else (let ((n, ferr), m2, w2) = Flush m1 w
                      in Some (n, map_option IoErr ferr, m2, w2))))
      else Conn_writeLoop c b 0 65535 m w)"

subsection \<open>Records on the wire\<close>

text \<open>What a message becomes, and a sequence of them, with the cipher state after it.\<close>

definition record_wire ::
  "('priv, 'pub) crypto \<Rightarrow> bytes \<Rightarrow> cipherState \<Rightarrow> bytes \<times> bytes \<times> cipherState" where
  "record_wire c p s =
     (let (header, s1) = Encrypt c [] (putUint BigEndian 2 (length p)) s;
          (body, s2) = Encrypt c [] p s1
      in (header, body, s2))"

fun msgs_wire ::
  "('priv, 'pub) crypto \<Rightarrow> cipherState \<Rightarrow> bytes list \<Rightarrow> bytes \<times> cipherState" where
  "msgs_wire c s [] = ([], s)"
| "msgs_wire c s (p # ps) =
     (case record_wire c p s of (header, body, s1) \<Rightarrow>
        (case msgs_wire c s1 ps of (rest, s2) \<Rightarrow> (header @ body @ rest, s2)))"

lemma msgs_wire_append:
  "msgs_wire c s (ps @ qs) =
     (case msgs_wire c s ps of (w1, s1) \<Rightarrow> (case msgs_wire c s1 qs of (w2, s2) \<Rightarrow> (w1 @ w2, s2)))"
  by (induction ps arbitrary: s) (auto split: prod.splits)

lemma record_wire_lengths:
  "crypto_laws c \<Longrightarrow> record_wire c p s = (h, b, s') \<Longrightarrow>
   length h = encHeaderSize \<and> length b = length p + macSize"
  using length_Encrypt [of c "[]" "putUint BigEndian 2 (length p)" s]
    length_Encrypt [of c "[]" p "snd (Encrypt c [] (putUint BigEndian 2 (length p)) s)"]
  by (auto simp: record_wire_def encHeaderSize_def lengthHeaderSize_def split: prod.splits)

lemma WriteMessage_ok:
  assumes "length p \<le> 65535" "nextHeaderSend m = []" "nextBodySend m = []"
    "record_wire c p (sendCipher m) = (h, b, s)"
  shows "WriteMessage c p m =
           (None, m\<lparr>sendCipher := s, nextHeaderSend := h, nextBodySend := b\<rparr>)"
proof -
  from assms(1) have "unat (of_nat (length p) :: 16 word) = length p"
    by (simp add: unat_of_nat take_bit_nat_eq_self)
  with assms show ?thesis
    by (auto simp: WriteMessage_def record_wire_def Let_def split: prod.splits)
qed

lemma ReadMessage_record:
  assumes c: "crypto_laws c" and len: "length p \<le> 65535"
    and w: "record_wire c p (recvCipher m) = (h, b, s)"
  shows "ReadMessage c m (h @ b @ rest) = (Inr p, m\<lparr>recvCipher := s\<rparr>, rest)"
proof -
  let ?len = "putUint BigEndian 2 (length p)"
  define s1 where "s1 = snd (Encrypt c [] ?len (recvCipher m))"
  from w have h: "h = fst (Encrypt c [] ?len (recvCipher m))" and b: "b = fst (Encrypt c [] p s1)"
    and s: "s = snd (Encrypt c [] p s1)"
    by (auto simp: record_wire_def s1_def split: prod.splits)
  have lens: "length h = encHeaderSize" "length b = length p + macSize"
    using record_wire_lengths [OF c w] by auto
  have g: "getUint BigEndian ?len = length p"
    using len by (simp add: getUint_putUint)
  have hd: "ReadHeader c m (h @ b @ rest) =
      (Inr (of_nat (length p) + of_nat macSize), m\<lparr>recvCipher := s1\<rparr>, b @ rest)"
    using Decrypt_Encrypt [OF c, of "[]" ?len "recvCipher m"] lens
    by (simp add: ReadHeader_def readFull_append h s1_def g)
  have "unat (of_nat (length p) + of_nat macSize :: 32 word) = unat (of_nat (length p + macSize) :: 32 word)"
    by simp
  also have "\<dots> = length p + macSize"
    using len by (simp add: unat_of_nat take_bit_nat_eq_self macSize_def del: of_nat_add)
  finally have n: "unat (of_nat (length p) + of_nat macSize :: 32 word) = length p + macSize" .
  show ?thesis
    unfolding ReadMessage_def hd using Decrypt_Encrypt [OF c, of "[]" p s1] lens
    by (simp add: n ReadBody_def readFull_append b s)
qed

subsection \<open>Flushing\<close>

text \<open>The bytes that wait to be written, and how many of them are of the message's text.\<close>

definition pending :: "('priv, 'pub) machine \<Rightarrow> bytes" where
  "pending m = nextHeaderSend m @ nextBodySend m"

definition textLeft :: "('priv, 'pub) machine \<Rightarrow> nat" where
  "textLeft m = length (nextBodySend m) - macSize"

lemma sink_Write_law:
  "sink_Write p w = (n, e, w') \<Longrightarrow>
   n \<le> length p \<and> written w' = written w @ take n p \<and> room w' = room w - n \<and> n \<le> room w \<and>
   (e = None \<longleftrightarrow> n = length p)"
  by (auto simp: sink_Write_def split: if_splits)

text \<open>The count of a write of \<open>n\<close> of \<open>len\<close> bytes of a body, its tag not counted.\<close>

definition flushed :: "nat \<Rightarrow> nat \<Rightarrow> nat" where
  "flushed len n =
     (if len > macSize \<and> len - n \<le> macSize then n - (macSize - (len - n))
      else if len > macSize \<and> len - n > macSize then n
      else 0)"

lemma flushed_left: "n \<le> len \<Longrightarrow> flushed len n + (len - n - macSize) = len - macSize"
  by (auto simp: flushed_def)

lemma Flush_body:
  assumes "nextHeaderSend m = []" and "sink_Write (nextBodySend m) w = (n, e, w')"
  shows "Flush m w = (if nextBodySend m = [] then ((0, None), m, w)
     else ((flushed (length (nextBodySend m)) n, e), m\<lparr>nextBodySend := drop n (nextBodySend m)\<rparr>, w'))"
  using assms sink_Write_law [OF assms(2)] by (simp add: Flush_def flushed_def Let_def)

lemma Flush_header:
  assumes "nextHeaderSend m \<noteq> []" and "sink_Write (nextHeaderSend m) w = (n, e, w')"
  shows "Flush m w = (if e \<noteq> None then ((0, e), m\<lparr>nextHeaderSend := drop n (nextHeaderSend m)\<rparr>, w')
     else Flush (m\<lparr>nextHeaderSend := []\<rparr>) w')"
  using assms sink_Write_law [OF assms(2)] by (cases e) (simp_all add: Flush_def)

lemma Flush_body_law:
  assumes "nextHeaderSend m = []" and "Flush m w = ((nn, e), m', w')"
  shows "written w' @ pending m' = written w @ pending m \<and> nn + textLeft m' = textLeft m \<and>
         (e = None \<longleftrightarrow> pending m' = []) \<and> sendCipher m' = sendCipher m \<and> recvCipher m' = recvCipher m"
proof -
  obtain n e1 w1 where b: "sink_Write (nextBodySend m) w = (n, e1, w1)"
    by (cases "sink_Write (nextBodySend m) w") auto
  note law = sink_Write_law [OF b]
  show ?thesis
  proof (cases "nextBodySend m = []")
    case True
    with assms Flush_body [OF assms(1) b] show ?thesis by (auto simp: pending_def)
  next
    case False
    then have "nn = flushed (length (nextBodySend m)) n" "e = e1" "w' = w1"
      "m' = m\<lparr>nextBodySend := drop n (nextBodySend m)\<rparr>"
      using assms Flush_body [OF assms(1) b] by simp_all
    then show ?thesis
      using law flushed_left [of n "length (nextBodySend m)"] assms(1)
      by (simp add: pending_def textLeft_def le_antisym) linarith
  qed
qed

lemma Flush_law:
  assumes "Flush m w = ((nn, e), m', w')"
  shows "written w' @ pending m' = written w @ pending m \<and> nn + textLeft m' = textLeft m \<and>
         (e = None \<longleftrightarrow> pending m' = []) \<and> sendCipher m' = sendCipher m \<and> recvCipher m' = recvCipher m"
proof (cases "nextHeaderSend m = []")
  case True
  from Flush_body_law [OF True assms] show ?thesis .
next
  case False
  obtain n e1 w1 where h: "sink_Write (nextHeaderSend m) w = (n, e1, w1)"
    by (cases "sink_Write (nextHeaderSend m) w") auto
  note law = sink_Write_law [OF h]
  show ?thesis
  proof (cases "e1 = None")
    case True
    let ?m = "m\<lparr>nextHeaderSend := []\<rparr>"
    have "Flush ?m w1 = ((nn, e), m', w')" using Flush_header [OF False h] True assms by simp
    from Flush_body_law [OF _ this] law True show ?thesis
      by (simp add: pending_def textLeft_def)
  next
    case err: False
    then have "nn = 0" "e = e1" "w' = w1" "m' = m\<lparr>nextHeaderSend := drop n (nextHeaderSend m)\<rparr>"
      using Flush_header [OF False h] assms by simp_all
    with law err False show ?thesis by (auto simp: pending_def textLeft_def)
  qed
qed

lemma Flush_whole:
  assumes "length (pending m) \<le> room w"
  shows "Flush m w =
    ((textLeft m, None), m\<lparr>nextHeaderSend := [], nextBodySend := []\<rparr>,
     w\<lparr>written := written w @ pending m, room := room w - length (pending m)\<rparr>)"
  using assms by (auto simp: Flush_def pending_def textLeft_def sink_Write_def Let_def)

text \<open>Flushing again and again, with as much room each time as the transport then has.\<close>

fun Flush_retry ::
  "nat list \<Rightarrow> ('priv, 'pub) machine \<Rightarrow> bytes \<Rightarrow> nat \<times> ('priv, 'pub) machine \<times> bytes" where
  "Flush_retry [] m out = (0, m, out)"
| "Flush_retry (r # rs) m out =
     (case Flush m \<lparr>written = out, room = r\<rparr> of ((nn, e), m', w') \<Rightarrow>
        (case Flush_retry rs m' (written w') of (k, m'', out') \<Rightarrow> (nn + k, m'', out')))"

lemma Flush_retry_law:
  "Flush_retry rs m out = (k, m', out') \<Longrightarrow>
   out' @ pending m' = out @ pending m \<and> k + textLeft m' = textLeft m"
proof (induction rs arbitrary: m out k m')
  case (Cons r rs)
  from Cons.prems obtain nn e m1 w1 k1 where
    f: "Flush m \<lparr>written = out, room = r\<rparr> = ((nn, e), m1, w1)"
    and g: "Flush_retry rs m1 (written w1) = (k1, m', out')" and k: "k = nn + k1"
    by (auto split: prod.splits)
  from Flush_law [OF f] Cons.IH [OF g] k show ?case by auto
qed simp

subsection \<open>Writing a stream\<close>

text \<open>The messages a write is cut into.\<close>

function chunks :: "bytes \<Rightarrow> bytes list" where
  "chunks b = (if b = [] then [] else take 65535 b # chunks (drop 65535 b))"
  by pat_completeness auto
termination by (relation "measure length") auto

declare chunks.simps [simp del]

definition conn_msgs :: "bytes \<Rightarrow> bytes list" where
  "conn_msgs b = (if length b \<le> 65535 then [b] else chunks b)"

lemma chunks_concat [simp]: "concat (chunks b) = b"
  by (induction b rule: chunks.induct) (subst chunks.simps, simp)

lemma chunks_bounded: "p \<in> set (chunks b) \<Longrightarrow> length p \<le> 65535"
  by (induction b rule: chunks.induct) (subst (asm) (2) chunks.simps, auto split: if_splits)

lemma conn_msgs_concat [simp]: "concat (conn_msgs b) = b"
  by (simp add: conn_msgs_def)

lemma conn_msgs_bounded: "p \<in> set (conn_msgs b) \<Longrightarrow> length p \<le> 65535"
  by (auto simp: conn_msgs_def dest: chunks_bounded split: if_splits)

definition idle :: "('priv, 'pub) machine \<Rightarrow> bool" where
  "idle m \<longleftrightarrow> nextHeaderSend m = [] \<and> nextBodySend m = []"

text \<open>One message: written, then flushed into a transport that takes it.\<close>

lemma write_flush:
  assumes c: "crypto_laws c" and p: "length p \<le> 65535" and m: "idle m"
    and w: "msgs_wire c (sendCipher m) [p] = (out, s)" and room: "length out \<le> room w"
  obtains m1 where "WriteMessage c p m = (None, m1)"
    "Flush m1 w = ((length p, None), m\<lparr>sendCipher := s\<rparr>,
                   w\<lparr>written := written w @ out, room := room w - length out\<rparr>)"
proof -
  obtain h b s' where r: "record_wire c p (sendCipher m) = (h, b, s')"
    by (cases "record_wire c p (sendCipher m)") auto
  with w have out: "out = h @ b" "s = s'" by auto
  let ?m1 = "m\<lparr>sendCipher := s, nextHeaderSend := h, nextBodySend := b\<rparr>"
  have 1: "WriteMessage c p m = (None, ?m1)"
    using WriteMessage_ok [OF p _ _ r] m out by (simp add: idle_def)
  have 2: "pending ?m1 = out" "textLeft ?m1 = length p"
    using record_wire_lengths [OF c r] out by (simp_all add: pending_def textLeft_def)
  have 3: "?m1\<lparr>nextHeaderSend := [], nextBodySend := []\<rparr> = m\<lparr>sendCipher := s\<rparr>"
    using m by (cases m) (simp add: idle_def)
  from Flush_whole [of ?m1 w] room have "Flush ?m1 w = ((length p, None), m\<lparr>sendCipher := s\<rparr>,
      w\<lparr>written := written w @ out, room := room w - length out\<rparr>)"
    unfolding 2 3 by simp
  with 1 show ?thesis by (rule that)
qed

lemma Conn_writeLoop_done:
  "length b \<le> k \<Longrightarrow> Conn_writeLoop c b k cs m w = Some (k, None, m, w)"
  by (simp add: Conn_writeLoop.simps)

lemma Conn_writeLoop_stream:
  assumes c: "crypto_laws c"
  shows "idle m \<Longrightarrow> k \<le> length b \<Longrightarrow> msgs_wire c (sendCipher m) (chunks (drop k b)) = (out, s) \<Longrightarrow>
    length out \<le> room w \<Longrightarrow>
    Conn_writeLoop c b k 65535 m w =
      Some (length b, None, m\<lparr>sendCipher := s\<rparr>,
            w\<lparr>written := written w @ out, room := room w - length out\<rparr>)"
proof (induction "length b - k" arbitrary: k m w out s rule: less_induct)
  case less
  show ?case
  proof (cases "k = length b")
    case True
    with less.prems show ?thesis by (simp add: chunks.simps Conn_writeLoop_done)
  next
    case False
    with less.prems have k: "k < length b" by simp
    define cs where "cs = (if k + 65535 > length b then length b - k else 65535)"
    define p where "p = take 65535 (drop k b)"
    have p: "take cs (drop k b) = p" "length p = cs" "length p \<le> 65535"
      using k by (auto simp: cs_def p_def min_def)
    have ch: "chunks (drop k b) = p # chunks (drop (k + length p) b)"
      using k p by (subst chunks.simps) (auto simp: p_def min_def add.commute)
    obtain o1 s1 o2 where o1: "msgs_wire c (sendCipher m) [p] = (o1, s1)"
      and o2: "msgs_wire c s1 (chunks (drop (k + length p) b)) = (o2, s)" and out: "out = o1 @ o2"
      using less.prems(3) unfolding ch by (auto split: prod.splits)
    let ?m = "m\<lparr>sendCipher := s1\<rparr>"
    let ?w = "w\<lparr>written := written w @ o1, room := room w - length o1\<rparr>"
    have r1: "length o1 \<le> room w" using less.prems(4) out by simp
    obtain m1 where m1: "WriteMessage c p m = (None, m1)" "Flush m1 w = ((length p, None), ?m, ?w)"
      using write_flush [OF c p(3) less.prems(1) o1 r1] by blast
    have step: "Conn_writeLoop c b k 65535 m w = Conn_writeLoop c b (k + length p) cs ?m ?w"
      using k m1 p by (subst Conn_writeLoop.simps) (simp add: cs_def)
    have cs: "Conn_writeLoop c b (k + length p) cs ?m ?w = Conn_writeLoop c b (k + length p) 65535 ?m ?w"
      using k p by (cases "cs = 65535") (auto simp: cs_def Conn_writeLoop_done split: if_splits)
    have "Conn_writeLoop c b (k + length p) 65535 ?m ?w =
        Some (length b, None, ?m\<lparr>sendCipher := s\<rparr>,
              ?w\<lparr>written := written ?w @ o2, room := room ?w - length o2\<rparr>)"
      using k p less.prems(1,4) o2 out
      by (intro less.hyps) (auto simp: idle_def cs_def split: if_splits)
    then show ?thesis unfolding step cs using out by simp
  qed
qed

lemma Conn_Write_stream:
  assumes c: "crypto_laws c" and m: "idle m"
    and w: "msgs_wire c (sendCipher m) (conn_msgs b) = (out, s)" and room: "length out \<le> room w"
  shows "Conn_Write c b m w =
    Some (length b, None, m\<lparr>sendCipher := s\<rparr>,
          w\<lparr>written := written w @ out, room := room w - length out\<rparr>)"
proof (cases "length b \<le> 65535")
  case True
  with w have "msgs_wire c (sendCipher m) [b] = (out, s)" by (simp add: conn_msgs_def)
  from write_flush [OF c True m this room] obtain m1 where "WriteMessage c b m = (None, m1)"
    "Flush m1 w = ((length b, None), m\<lparr>sendCipher := s\<rparr>,
       w\<lparr>written := written w @ out, room := room w - length out\<rparr>)" by blast
  with True show ?thesis by (simp add: Conn_Write_def)
next
  case False
  with Conn_writeLoop_stream [OF c m, of 0 b out s w] w room show ?thesis
    by (simp add: Conn_Write_def conn_msgs_def)
qed

subsection \<open>Reading it back\<close>

text \<open>The messages that are still on the wire, as the receiver will read them.\<close>

function records :: "('priv, 'pub) crypto \<Rightarrow> ('priv, 'pub) machine \<Rightarrow> bytes \<Rightarrow> bytes list" where
  "records c m inp =
     (case ReadMessage c m inp of
        (Inl e, m', rest) \<Rightarrow> []
      | (Inr p, m', rest) \<Rightarrow> p # records c m' rest)"
  by pat_completeness auto
termination
  by (relation "measure (\<lambda>(c, m, inp). length inp)") (auto dest: ReadMessage_shrinks [OF sym])

declare records.simps [simp del]

lemma ReadMessage_empty [simp]: "ReadMessage c m [] = (Inl (IoErr EOF), m, [])"
  by (simp add: ReadMessage_def ReadHeader_def readFull_def readErr_def encHeaderSize_def
      lengthHeaderSize_def)

lemma records_wire:
  assumes "crypto_laws c"
  shows "\<forall>p\<in>set ms. length p \<le> 65535 \<Longrightarrow> msgs_wire c (recvCipher m) ms = (wire, s) \<Longrightarrow>
         records c m wire = ms"
proof (induction ms arbitrary: m wire)
  case Nil
  then show ?case by (simp add: records.simps)
next
  case (Cons p ms)
  from Cons.prems obtain h b s1 rest where r: "record_wire c p (recvCipher m) = (h, b, s1)"
    and t: "msgs_wire c s1 ms = (rest, s)" and w: "wire = h @ b @ rest"
    by (auto split: prod.splits)
  have "records c (m\<lparr>recvCipher := s1\<rparr>) rest = ms"
    using Cons.prems t by (intro Cons.IH) auto
  moreover have "ReadMessage c m wire = (Inr p, m\<lparr>recvCipher := s1\<rparr>, rest)"
    unfolding w using Cons.prems by (intro ReadMessage_record [OF assms _ r]) auto
  ultimately show ?case by (simp add: records.simps [of c m wire])
qed

lemma Conn_fill_wire:
  assumes c: "crypto_laws c"
  shows "\<forall>p\<in>set ms. length p \<le> 65535 \<Longrightarrow> msgs_wire c (recvCipher (noise b)) ms = (wire, s) \<Longrightarrow>
    \<exists>r b' rest ms'. Conn_fill c b wire = (r, b', rest) \<and> set ms' \<subseteq> set ms \<and>
      msgs_wire c (recvCipher (noise b')) ms' = (rest, s) \<and>
      readBuf b' @ concat ms' = readBuf b @ concat ms \<and>
      (r = None \<longleftrightarrow> readBuf b @ concat ms \<noteq> []) \<and> (r = None \<longleftrightarrow> readBuf b' \<noteq> [])"
proof (induction ms arbitrary: b wire)
  case Nil
  then show ?case by (auto simp: Conn_fill.simps [of c b])
next
  case (Cons p ms)
  show ?case
  proof (cases "readBuf b = []")
    case False
    then have "Conn_fill c b wire = (None, b, wire)" by (simp add: Conn_fill.simps [of c b])
    with Cons.prems False show ?thesis
      by (intro exI [of _ None] exI [of _ b] exI [of _ wire] exI [of _ "p # ms"]) simp
  next
    case True
    from Cons.prems obtain h bd s1 rest where r: "record_wire c p (recvCipher (noise b)) = (h, bd, s1)"
      and t: "msgs_wire c s1 ms = (rest, s)" and w: "wire = h @ bd @ rest"
      by (auto split: prod.splits)
    let ?b = "b\<lparr>noise := noise b\<lparr>recvCipher := s1\<rparr>, readBuf := p\<rparr>"
    have "ReadMessage c (noise b) wire = (Inr p, noise b\<lparr>recvCipher := s1\<rparr>, rest)"
      unfolding w using Cons.prems by (intro ReadMessage_record [OF c _ r]) auto
    then have step: "Conn_fill c b wire = Conn_fill c ?b rest"
      using True by (simp add: Conn_fill.simps [of c b])
    have "\<exists>r b' rest' ms'. Conn_fill c ?b rest = (r, b', rest') \<and> set ms' \<subseteq> set ms \<and>
      msgs_wire c (recvCipher (noise b')) ms' = (rest', s) \<and>
      readBuf b' @ concat ms' = readBuf ?b @ concat ms \<and>
      (r = None \<longleftrightarrow> readBuf ?b @ concat ms \<noteq> []) \<and> (r = None \<longleftrightarrow> readBuf b' \<noteq> [])"
      using Cons.prems t by (intro Cons.IH) auto
    with True show ?thesis unfolding step by fastforce
  qed
qed

subsection \<open>The stream is a queue\<close>

text \<open>
  One direction of a connection: the writer, what it has put on the wire and the reader has
  not yet taken, and the reader.  \<open>paired\<close> says that the ciphers are in step.
\<close>

type_synonym ('priv, 'pub) direction =
  "('priv, 'pub) machine \<times> bytes \<times> ('priv, 'pub) bconn"

fun paired :: "('priv, 'pub) crypto \<Rightarrow> ('priv, 'pub) direction \<Rightarrow> bool" where
  "paired c (a, wire, b) \<longleftrightarrow>
     crypto_laws c \<and> idle a \<and>
     (\<exists>ms. (\<forall>p\<in>set ms. length p \<le> 65535) \<and>
           msgs_wire c (recvCipher (noise b)) ms = (wire, sendCipher a))"

fun in_flight :: "('priv, 'pub) crypto \<Rightarrow> ('priv, 'pub) direction \<Rightarrow> bytes" where
  "in_flight c (a, wire, b) = readBuf b @ concat (records c (noise b) wire)"

fun dir_Write :: "('priv, 'pub) crypto \<Rightarrow> bytes \<Rightarrow> ('priv, 'pub) direction \<Rightarrow>
    bool \<times> ('priv, 'pub) direction" where
  "dir_Write c p (a, wire, b) =
     (let need = length (fst (msgs_wire c (sendCipher a) (conn_msgs p)))
      in (case Conn_Write c p a \<lparr>written = wire, room = need\<rparr> of
            Some (n, None, a', w) \<Rightarrow> (True, (a', written w, b))
          | Some (n, Some e, a', w) \<Rightarrow> (False, (a', written w, b))
          | None \<Rightarrow> (False, (a, wire, b))))"

fun dir_Read :: "('priv, 'pub) crypto \<Rightarrow> nat \<Rightarrow> ('priv, 'pub) direction \<Rightarrow>
    bytes \<times> ('priv, 'pub) direction" where
  "dir_Read c k (a, wire, b) =
     (case Conn_Read c k b wire of
        (Inl e, b', rest) \<Rightarrow> ([], (a, rest, b'))
      | (Inr p, b', rest) \<Rightarrow> (p, (a, rest, b')))"

lemma dir_Write_law:
  assumes "paired c d"
  shows "\<exists>d'. dir_Write c p d = (True, d') \<and> paired c d' \<and> in_flight c d' = in_flight c d @ p"
proof -
  obtain a wire b where d: "d = (a, wire, b)" by (cases d) auto
  from assms d obtain ms where c: "crypto_laws c" and a: "idle a"
    and ms: "\<forall>p\<in>set ms. length p \<le> 65535" "msgs_wire c (recvCipher (noise b)) ms = (wire, sendCipher a)"
    by auto
  obtain out s where w: "msgs_wire c (sendCipher a) (conn_msgs p) = (out, s)"
    by (cases "msgs_wire c (sendCipher a) (conn_msgs p)") auto
  have ms': "\<forall>q\<in>set (ms @ conn_msgs p). length q \<le> 65535"
    "msgs_wire c (recvCipher (noise b)) (ms @ conn_msgs p) = (wire @ out, s)"
    using ms w by (auto simp: msgs_wire_append dest: conn_msgs_bounded)
  have wr: "dir_Write c p d = (True, a\<lparr>sendCipher := s\<rparr>, wire @ out, b)"
    using Conn_Write_stream [OF c a w, of "\<lparr>written = wire, room = length out\<rparr>"] w
    by (simp add: d)
  have "paired c (a\<lparr>sendCipher := s\<rparr>, wire @ out, b)" using c a ms'
    by (auto simp: idle_def intro!: exI [of _ "ms @ conn_msgs p"])
  with wr show ?thesis
    using records_wire [OF c ms] records_wire [OF c ms'] by (simp add: d)
qed

lemma dir_Read_law:
  assumes "paired c d"
  shows "\<exists>p d'. dir_Read c k d = (p, d') \<and> paired c d' \<and> in_flight c d = p @ in_flight c d' \<and>
           (in_flight c d \<noteq> [] \<and> 0 < k \<longrightarrow> p \<noteq> [])"
proof -
  obtain a wire b where d: "d = (a, wire, b)" by (cases d) auto
  from assms d obtain ms where c: "crypto_laws c" and a: "idle a"
    and ms: "\<forall>p\<in>set ms. length p \<le> 65535" "msgs_wire c (recvCipher (noise b)) ms = (wire, sendCipher a)"
    by auto
  from Conn_fill_wire [OF c ms] obtain r b' rest ms' where
    f: "Conn_fill c b wire = (r, b', rest)" and sub: "set ms' \<subseteq> set ms"
    and w': "msgs_wire c (recvCipher (noise b')) ms' = (rest, sendCipher a)"
    and v: "readBuf b' @ concat ms' = readBuf b @ concat ms"
    and r: "r = None \<longleftrightarrow> readBuf b @ concat ms \<noteq> []" "r = None \<longleftrightarrow> readBuf b' \<noteq> []" by blast
  have ms': "\<forall>p\<in>set ms'. length p \<le> 65535" using ms sub by auto
  note rec = records_wire [OF c ms] records_wire [OF c ms' w']
  show ?thesis
  proof (cases r)
    case None
    let ?b = "b'\<lparr>readBuf := drop k (readBuf b')\<rparr>"
    have rd: "dir_Read c k d = (take k (readBuf b'), a, rest, ?b)"
      using f None by (simp add: d Conn_Read_def)
    have "msgs_wire c (recvCipher (noise ?b)) ms' = (rest, sendCipher a)" using w' by simp
    from records_wire [OF c ms' this] rec v r None have
      "in_flight c d = take k (readBuf b') @ in_flight c (a, rest, ?b)"
      by (simp add: d) (metis append.assoc append_take_drop_id)
    moreover have "paired c (a, rest, ?b)" using c a ms' w' by auto
    ultimately show ?thesis using rd r None by auto
  next
    case (Some e)
    with f have rd: "dir_Read c k d = ([], a, rest, b')" by (simp add: d Conn_Read_def)
    moreover have "paired c (a, rest, b')" using c a ms' w' by auto
    moreover have "in_flight c d = []" "in_flight c (a, rest, b') = []"
      using Some r v rec by (auto simp: d)
    ultimately show ?thesis by auto
  qed
qed

interpretation noise_fifo: fifo "paired c" "in_flight c" "dir_Write c" "dir_Read c" "\<lambda>s s'. False"
  for c
proof unfold_locales
  fix s p b s' assume "paired c s" "dir_Write c p s = (b, s')"
  with dir_Write_law [of c s p] show "paired c s' \<and> in_flight c s' = in_flight c s @ (if b then p else [])"
    by auto
next
  fix s k p s' assume "paired c s" "dir_Read c k s = (p, s')"
  with dir_Read_law [of c s k] show "paired c s' \<and> in_flight c s = p @ in_flight c s'" by auto
qed auto

lemma paired_start:
  assumes "crypto_laws c" and "sendCipher a = recvCipher m" and "idle a"
  shows "paired c (a, [], \<lparr>noise = m, readBuf = []\<rparr>)"
    and "in_flight c (a, [], \<lparr>noise = m, readBuf = []\<rparr>) = []"
  using assms by (auto simp: records.simps intro!: exI [of _ "[]"])

text \<open>Every run from machines in step.\<close>

lemma run_stream:
  assumes "crypto_laws c" and "sendCipher a = recvCipher m" and "idle a"
    and "fifo_run (dir_Write c) (dir_Read c) (\<lambda>s s'. False) (a, [], \<lparr>noise = m, readBuf = []\<rparr>) d acc got"
  shows "paired c d" and "acc = got @ in_flight c d"
  using noise_fifo.run_fifo [OF assms(4) paired_start(1) [OF assms(1-3)]]
  by (simp_all only: paired_start(2) [OF assms(1-3)] append_Nil)

subsection \<open>Properties\<close>

text \<open>
  C3.  An encrypted connection is a faithful byte stream.  Take a writer and a reader whose
  ciphers agree and a transport that takes what is written.  After any sequence of \<open>Write\<close> and
  \<open>Read\<close> calls, of any sizes, across the splitting of long writes and the rotation of keys,
  what was written is what was read followed by what is in flight; a further write is accepted,
  and a read with room gets bytes as long as any are in flight, however many empty records are
  in front of them.
\<close>

theorem conn_is_stream:
  assumes "crypto_laws c" and "sendCipher a = recvCipher m" and "idle a"
    and "fifo_run (dir_Write c) (dir_Read c) (\<lambda>s s'. False)
           (a, [], \<lparr>noise = m, readBuf = []\<rparr>) d acc got"
  shows "acc = got @ in_flight c d \<and>
         fst (dir_Write c p d) \<and>
         (0 < k \<and> acc \<noteq> got \<longrightarrow> fst (dir_Read c k d) \<noteq> []) \<and>
         (\<exists>rest. in_flight c d = fst (dir_Read c k d) @ rest)"
proof -
  note run = run_stream [OF assms]
  from dir_Write_law [OF run(1), of p] dir_Read_law [OF run(1), of k] run(2) show ?thesis by auto
qed

text \<open>
  C25.  A flush that was cut short is resumed.  After a message was accepted, flush as often as
  needed, each time with whatever room the transport has: the transport gets the bytes of one
  record in order, none twice; the counts the calls return add up to the length of the message
  once all is out; and until then the next message is refused.
\<close>

theorem flush_resumes:
  assumes "crypto_laws c" and "length p \<le> 65535" and "idle m"
    and "WriteMessage c p m = (None, m1)" and "Flush_retry rs m1 out = (k, m2, out')"
  shows "out' @ pending m2 = out @ fst (msgs_wire c (sendCipher m) [p]) \<and>
         k + textLeft m2 = length p \<and>
         (if pending m2 = [] then k = length p \<and> out' = out @ fst (msgs_wire c (sendCipher m) [p])
          else fst (WriteMessage c q m2) \<noteq> None \<and> snd (WriteMessage c q m2) = m2)"
proof -
  obtain h b s where r: "record_wire c p (sendCipher m) = (h, b, s)"
    by (cases "record_wire c p (sendCipher m)") auto
  have m1: "m1 = m\<lparr>sendCipher := s, nextHeaderSend := h, nextBodySend := b\<rparr>"
    using WriteMessage_ok [OF assms(2) _ _ r] assms(3,4) by (simp add: idle_def)
  have "pending m1 = fst (msgs_wire c (sendCipher m) [p])" "textLeft m1 = length p"
    using record_wire_lengths [OF assms(1) r] r by (simp_all add: m1 pending_def textLeft_def)
  with Flush_retry_law [OF assms(5)]
  have "out' @ pending m2 = out @ fst (msgs_wire c (sendCipher m) [p])" "k + textLeft m2 = length p"
    by auto
  then show ?thesis by (auto simp: WriteMessage_def pending_def textLeft_def)
qed

definition witness_machine :: "(byte, byte) machine" where
  "witness_machine = NewBrontideMachine plain_crypto False 1 None"

lemma witness_machine_idle: "idle witness_machine" "sendCipher witness_machine = emptyCipher"
  "recvCipher witness_machine = emptyCipher"
  by (simp_all add: witness_machine_def idle_def NewBrontideMachine_def newHandshakeState_def Let_def)

theorem conn_is_stream_witness:
  "\<exists>d. [1, 2] = [] @ in_flight plain_crypto d \<and> fst (dir_Read plain_crypto 1 d) \<noteq> []"
proof -
  let ?c = plain_crypto and ?m = witness_machine
  let ?d0 = "(?m, [], \<lparr>noise = ?m, readBuf = []\<rparr>)"
  have p: "paired ?c ?d0"
    by (auto simp: plain_crypto_laws witness_machine_idle intro!: exI [of _ "[]"])
  obtain d where d: "dir_Write ?c [1, 2] ?d0 = (True, d)" using dir_Write_law [OF p] by blast
  have "fifo_run (dir_Write ?c) (dir_Read ?c) (\<lambda>s s'. False) ?d0 d ([] @ (if True then [1, 2] else [])) []"
    using d by (rule fr_put [OF fr_start])
  then have "fifo_run (dir_Write ?c) (dir_Read ?c) (\<lambda>s s'. False) ?d0 d [1, 2] []" by simp
  from conn_is_stream [OF plain_crypto_laws _ witness_machine_idle(1) this, of "[]" 1]
  have "[1, 2] = [] @ in_flight ?c d \<and> fst (dir_Read ?c 1 d) \<noteq> []"
    by (simp add: witness_machine_idle)
  then show ?thesis by blast
qed

theorem flush_resumes_witness:
  "\<exists>m1 k m2 out. WriteMessage plain_crypto [7, 8, 9] witness_machine = (None, m1) \<and>
     Flush_retry [5, 14, 100] m1 [] = (k, m2, out) \<and> k + textLeft m2 = 3"
proof -
  obtain h b s where r: "record_wire plain_crypto [7, 8, 9] (sendCipher witness_machine) = (h, b, s)"
    by (cases "record_wire plain_crypto [7, 8, 9] (sendCipher witness_machine)") auto
  let ?m1 = "witness_machine\<lparr>sendCipher := s, nextHeaderSend := h, nextBodySend := b\<rparr>"
  have w: "WriteMessage plain_crypto [7, 8, 9] witness_machine = (None, ?m1)"
    using witness_machine_idle(1) by (intro WriteMessage_ok [OF _ _ _ r]) (simp_all add: idle_def)
  obtain k m2 out where f: "Flush_retry [5, 14, 100] ?m1 [] = (k, m2, out)"
    by (cases "Flush_retry [5, 14, 100] ?m1 []") auto
  have "k + textLeft m2 = 3"
    using flush_resumes [OF plain_crypto_laws _ witness_machine_idle(1) w f, of "[]"] by simp
  with w f show ?thesis by blast
qed

end
