(* ===== verification/Link_Negotiation.thy ===== *)
theory Link_Negotiation
  imports Link_Pool Brontide_Transport
begin

section \<open>Establishing a link (\<open>link_negotiator.go\<close>, \<open>noise/\<close>)\<close>

text \<open>
  A link is made from a connection in three stages: the Noise handshake, the negotiation of
  the feature \<open>mux2\<close> over the encrypted channel, and the registration with the pool.

  The channel and the encoding of its objects are code of another library: a side receives the
  list of objects the peer sends, and \<open>fails i\<close> is the error, if any, of its send number \<open>i\<close>.
  An expectation fails on an object of another type, on an error object, and at the end.
\<close>

subsection \<open>The handshake under a context (\<open>noise/handshake.go\<close>)\<close>

datatype est_err =
    EKey nodes_err
  | ESelf
  | ECtx nodes_err
  | EBrontide brontide_err
  | ESend nodes_err
  | EUnexpectedEOF
  | EUnexpectedObject
  | EPassed string
  | ErrNoSupportedFeature
  | ErrUnsupportedSelectedFeature
  | ErrNegotiationRejected
  | EPool nodes_err

text \<open>
  The context's error, if it was over by the time the handshake returned; the goroutine that
  watches the context has then closed the connection.
\<close>

definition after_handshake ::
  "nodes_err option \<Rightarrow> ('priv, 'pub) hs_out \<Rightarrow> (est_err + ('priv, 'pub) machine) \<times> bytes \<times> bool" where
  "after_handshake ctxErr out =
     (case out of (r, snt, shut) \<Rightarrow>
        (case ctxErr of
           Some e \<Rightarrow> (Inl (ECtx e), snt, True)
         | None \<Rightarrow> (case r of Inl e \<Rightarrow> (Inl (EBrontide e), snt, shut) | Inr m \<Rightarrow> (Inr m, snt, shut))))"

definition HandshakeInbound ::
  "('priv, 'pub) crypto \<Rightarrow> nodes_err option \<Rightarrow> 'priv \<Rightarrow> 'priv option \<Rightarrow> io_err option \<Rightarrow> bytes \<Rightarrow>
     (est_err + ('priv, 'pub) machine) \<times> bytes \<times> bool" where
  "HandshakeInbound c ctxErr localKey gen w inp =
     after_handshake ctxErr (PassiveHandshake c localKey gen w inp)"

definition HandshakeOutbound ::
  "('priv, 'pub) crypto \<Rightarrow> nodes_err option \<Rightarrow> 'pub \<Rightarrow> 'priv \<Rightarrow> 'priv option \<Rightarrow> io_err option \<Rightarrow> io_err option \<Rightarrow>
     bytes \<Rightarrow> (est_err + ('priv, 'pub) machine) \<times> bytes \<times> bool" where
  "HandshakeOutbound c ctxErr remoteKey localKey gen w1 w2 inp =
     (if c_pubKey c localKey = remoteKey then (Inl ESelf, [], False)
      else after_handshake ctxErr (ActiveHandshake c localKey remoteKey gen w1 w2 inp))"

definition noise_LocalIdentity :: "('priv, 'pub) crypto \<Rightarrow> ('pub \<Rightarrow> 'id) \<Rightarrow> ('priv, 'pub) machine \<Rightarrow> 'id" where
  "noise_LocalIdentity c ident m = ident (PrivKeyECDH_PubKey c (localStatic m))"

definition noise_RemoteIdentity :: "('pub \<Rightarrow> 'id) \<Rightarrow> ('priv, 'pub) machine \<Rightarrow> 'id" where
  "noise_RemoteIdentity ident m = ident (the (remoteStatic m))"

subsection \<open>The negotiation\<close>

datatype nego_obj =
    NUint16 "16 word"
  | NString8 string
  | NUint8 "8 word"
  | NNonce nonce
  | NError string

definition featureMux2 :: string where "featureMux2 = ''mux2''"

definition expect :: "(nego_obj \<Rightarrow> 'a option) \<Rightarrow> nego_obj list \<Rightarrow> (est_err + 'a) \<times> nego_obj list" where
  "expect as inp =
     (case inp of
        [] \<Rightarrow> (Inl EUnexpectedEOF, [])
      | x # rest \<Rightarrow>
          (case as x of
             Some a \<Rightarrow> (Inr a, rest)
           | None \<Rightarrow> (case x of NError e \<Rightarrow> (Inl (EPassed e), rest) | _ \<Rightarrow> (Inl EUnexpectedObject, rest))))"

fun as_Uint16 :: "nego_obj \<Rightarrow> 16 word option" where
  "as_Uint16 (NUint16 k) = Some k" | "as_Uint16 _ = None"

fun as_String8 :: "nego_obj \<Rightarrow> string option" where
  "as_String8 (NString8 s) = Some s" | "as_String8 _ = None"

fun as_Uint8 :: "nego_obj \<Rightarrow> 8 word option" where
  "as_Uint8 (NUint8 k) = Some k" | "as_Uint8 _ = None"

fun as_Nonce :: "nego_obj \<Rightarrow> nonce option" where
  "as_Nonce (NNonce k) = Some k" | "as_Nonce _ = None"

fun read_features :: "nat \<Rightarrow> bool \<Rightarrow> nego_obj list \<Rightarrow> (est_err + bool) \<times> nego_obj list" where
  "read_features 0 supported inp = (Inr supported, inp)"
| "read_features (Suc k) supported inp =
     (case expect as_String8 inp of
        (Inl e, rest) \<Rightarrow> (Inl e, rest)
      | (Inr feature, rest) \<Rightarrow> read_features k (if feature = featureMux2 then True else supported) rest)"

definition NegotiateOutbound ::
  "(nat \<Rightarrow> nodes_err option) \<Rightarrow> nego_obj list \<Rightarrow> (est_err + nonce) \<times> nego_obj list" where
  "NegotiateOutbound fails inp =
     (case expect as_Uint16 inp of
        (Inl e, _) \<Rightarrow> (Inl e, [])
      | (Inr count, inp1) \<Rightarrow>
          (case read_features (unat count) False inp1 of
             (Inl e, _) \<Rightarrow> (Inl e, [])
           | (Inr supported, inp2) \<Rightarrow>
               (if \<not> supported then (Inl ErrNoSupportedFeature, [])
                else (case fails 0 of
                        Some e \<Rightarrow> (Inl (ESend e), [])
                      | None \<Rightarrow>
                          (let snt = [NString8 featureMux2] in
                           (case expect as_Uint8 inp2 of
                              (Inl e, _) \<Rightarrow> (Inl e, snt)
                            | (Inr status, inp3) \<Rightarrow>
                                (if status \<noteq> 0 then (Inl ErrNegotiationRejected, snt)
                                 else (case expect as_Nonce inp3 of
                                         (Inl e, _) \<Rightarrow> (Inl e, snt)
                                       | (Inr nonce, _) \<Rightarrow> (Inr nonce, snt)))))))))"

definition NegotiateInbound ::
  "(nat \<Rightarrow> nodes_err option) \<Rightarrow> nonce \<Rightarrow> nego_obj list \<Rightarrow> (est_err + nonce) \<times> nego_obj list" where
  "NegotiateInbound fails nonce inp =
     (case fails 0 of Some e \<Rightarrow> (Inl (ESend e), []) | None \<Rightarrow>
     (case fails 1 of Some e \<Rightarrow> (Inl (ESend e), [NUint16 1]) | None \<Rightarrow>
     (let snt = [NUint16 1, NString8 featureMux2] in
      (case expect as_String8 inp of
         (Inl e, _) \<Rightarrow> (Inl e, snt)
       | (Inr feature, _) \<Rightarrow>
           (if feature \<noteq> featureMux2
            then (case fails 2 of
                    Some e \<Rightarrow> (Inl (ESend e), snt)
                  | None \<Rightarrow> (Inl ErrUnsupportedSelectedFeature, snt @ [NUint8 1]))
            else (case fails 2 of
                    Some e \<Rightarrow> (Inl (ESend e), snt)
                  | None \<Rightarrow>
                      (case fails 3 of
                         Some e \<Rightarrow> (Inl (ESend e), snt @ [NUint8 0])
                       | None \<Rightarrow> (Inr nonce, snt @ [NUint8 0, NNonce nonce]))))))))"

subsection \<open>Establishing\<close>

text \<open>
  The three stages.  The new link gets the address \<open>l\<close>; its channel and the clock are
  arguments.  The result comes with whether the connection was closed.
\<close>

definition register_link ::
  "set_ops \<Rightarrow> err_swap \<Rightarrow> endpoints \<Rightarrow> nat \<Rightarrow> 'id link \<Rightarrow> ('id, 'st) LinkPool \<Rightarrow>
     (est_err + nat) \<times> bool \<times> ('id, 'st) LinkPool" where
  "register_link so swap ep l link p =
     (case AddLink so swap ep l (upd_node (upd_link l (\<lambda>_. link)) p) of
        (Some e, p') \<Rightarrow> (Inl (EPool e), True, p')
      | (None, p') \<Rightarrow> (Inr l, False, p'))"

definition EstablishOutboundLink ::
  "('priv, 'pub) crypto \<Rightarrow> ('pub \<Rightarrow> 'id) \<Rightarrow> set_ops \<Rightarrow> err_swap \<Rightarrow> endpoints \<Rightarrow>
     nodes_err option \<Rightarrow> 'pub \<Rightarrow> nodes_err + 'priv \<Rightarrow> 'priv option \<Rightarrow> io_err option \<Rightarrow> io_err option \<Rightarrow> bytes \<Rightarrow>
     (nat \<Rightarrow> nodes_err option) \<Rightarrow> nego_obj list \<Rightarrow> 'id chan \<Rightarrow> int \<Rightarrow> nat \<Rightarrow> ('id, 'st) LinkPool \<Rightarrow>
     (est_err + nat) \<times> bool \<times> ('id, 'st) LinkPool" where
  "EstablishOutboundLink c ident so swap ep ctxErr remoteKey privKey gen w1 w2 inp fails objs ch now l p =
     (case privKey of
        Inl e \<Rightarrow> (Inl (EKey e), True, p)
      | Inr key \<Rightarrow>
          (case HandshakeOutbound c ctxErr remoteKey key gen w1 w2 inp of
             (Inl e, _) \<Rightarrow> (Inl e, True, p)
           | (Inr m, _) \<Rightarrow>
               (case NegotiateOutbound fails objs of
                  (Inl e, _) \<Rightarrow> (Inl e, True, p)
                | (Inr nonce, _) \<Rightarrow>
                    register_link so swap ep l
                      (newLink ch (noise_LocalIdentity c ident m) (noise_RemoteIdentity ident m)
                         nonce True now) p)))"

definition EstablishInboundLink ::
  "('priv, 'pub) crypto \<Rightarrow> ('pub \<Rightarrow> 'id) \<Rightarrow> set_ops \<Rightarrow> err_swap \<Rightarrow> endpoints \<Rightarrow>
     nodes_err option \<Rightarrow> nodes_err + 'priv \<Rightarrow> 'priv option \<Rightarrow> io_err option \<Rightarrow> bytes \<Rightarrow>
     (nat \<Rightarrow> nodes_err option) \<Rightarrow> nonce \<Rightarrow> nego_obj list \<Rightarrow> 'id chan \<Rightarrow> int \<Rightarrow> nat \<Rightarrow> ('id, 'st) LinkPool \<Rightarrow>
     (est_err + nat) \<times> bool \<times> ('id, 'st) LinkPool" where
  "EstablishInboundLink c ident so swap ep ctxErr privKey gen w inp fails nonce objs ch now l p =
     (case privKey of
        Inl e \<Rightarrow> (Inl (EKey e), True, p)
      | Inr key \<Rightarrow>
          (case HandshakeInbound c ctxErr key gen w inp of
             (Inl e, _) \<Rightarrow> (Inl e, True, p)
           | (Inr m, _) \<Rightarrow>
               (case NegotiateInbound fails nonce objs of
                  (Inl e, _) \<Rightarrow> (Inl e, True, p)
                | (Inr n, _) \<Rightarrow>
                    register_link so swap ep l
                      (newLink ch (noise_LocalIdentity c ident m) (noise_RemoteIdentity ident m)
                         n False now) p)))"

subsection \<open>Who is at the other end\<close>

lemma split_keys_sel [simp]:
  "remoteStatic (split_keys c m) = remoteStatic m" "localStatic (split_keys c m) = localStatic m"
  by (simp_all add: split_keys_def Let_def)

lemma act_static:
  "GenActOne c gen m = (x, m') \<Longrightarrow> remoteStatic m' = remoteStatic m \<and> localStatic m' = localStatic m"
  "RecvActTwo c act m = (y, m') \<Longrightarrow> remoteStatic m' = remoteStatic m \<and> localStatic m' = localStatic m"
  "GenActThree c m = (z, m') \<Longrightarrow> remoteStatic m' = remoteStatic m \<and> localStatic m' = localStatic m"
  "RecvActOne c act m = (y, m') \<Longrightarrow> localStatic m' = localStatic m"
  "GenActTwo c gen m = (x, m') \<Longrightarrow> localStatic m' = localStatic m"
  "RecvActThree c act m = (y, m') \<Longrightarrow> localStatic m' = localStatic m"
  by (auto simp: act_defs upd_sym_def Let_def split: option.splits prod.splits if_splits)

lemma active_ends:
  assumes "ActiveHandshake c key remote gen w1 w2 inp = (Inr m, out, cl)"
  shows "remoteStatic m = Some remote \<and> localStatic m = key"
  using assms
  by (auto simp: ActiveHandshake_def Let_def new_machines
      split: prod.splits sum.splits option.splits dest!: act_static)

lemma outbound_ends:
  assumes "HandshakeOutbound c ctxErr remote key gen w1 w2 inp = (Inr m, out, cl)"
  shows "remoteStatic m = Some remote \<and> localStatic m = key \<and> c_pubKey c key \<noteq> remote \<and> ctxErr = None"
  using assms
  by (auto simp: HandshakeOutbound_def after_handshake_def
      split: if_splits prod.splits sum.splits option.splits dest: active_ends)

text \<open>When each side gets what the other sends, both end with the nonce of the inbound side.\<close>

lemma negotiation_lists:
  "\<exists>fromIn fromOut.
     NegotiateOutbound (\<lambda>_. None) fromIn = (Inr nonce, fromOut) \<and>
     NegotiateInbound (\<lambda>_. None) nonce fromOut = (Inr nonce, fromIn)"
  by (intro exI [of _ "[NUint16 1, NString8 featureMux2, NUint8 0, NNonce nonce]"]
      exI [of _ "[NString8 featureMux2]"])
    (simp add: NegotiateOutbound_def NegotiateInbound_def expect_def Let_def)

subsection \<open>Properties\<close>

lemma read_features_offered:
  "read_features k b inp = (Inr True, rest) \<Longrightarrow> b \<or> NString8 featureMux2 \<in> set inp"
proof (induction k arbitrary: b inp)
  case (Suc k)
  from Suc.prems obtain f tl where e: "expect as_String8 inp = (Inr f, tl)"
    and r: "read_features k (if f = featureMux2 then True else b) tl = (Inr True, rest)"
    by (auto split: prod.splits sum.splits)
  from e have "inp = NString8 f # tl"
    by (auto simp: expect_def split: list.splits option.splits nego_obj.splits elim: as_String8.elims)
  with Suc.IH [OF r] show ?case by (auto split: if_splits)
qed simp

text \<open>
  What a peer can bring about in a negotiation.  Whatever it sends: the outbound side says
  nothing but its choice of \<open>mux2\<close>, and that only if \<open>mux2\<close> was offered; it takes a nonce only
  from a peer that offered \<open>mux2\<close>.  The inbound side hands out its nonce only to a peer that chose
  \<open>mux2\<close>, and answers any other choice with a rejection.
\<close>

lemma negotiation_safe:
  "(case NegotiateOutbound fails inp of (r, out) \<Rightarrow>
      (out = [] \<or> out = [NString8 featureMux2] \<and> NString8 featureMux2 \<in> set inp) \<and>
      (\<forall>n. r = Inr n \<longrightarrow> NNonce n \<in> set inp \<and> NUint8 0 \<in> set inp \<and> out \<noteq> [])) \<and>
   (case NegotiateInbound fails nonce inp of (r, out) \<Rightarrow>
      (NNonce nonce \<in> set out \<longrightarrow> r = Inr nonce \<and> hd inp = NString8 featureMux2 \<and> inp \<noteq> []) \<and>
      (\<forall>n. r = Inr n \<longrightarrow> n = nonce \<and> NNonce n \<in> set out) \<and>
      (r = Inl ErrUnsupportedSelectedFeature \<longrightarrow> last out = NUint8 1))"
proof -
  have e: "expect as_Nonce xs = (Inr n, ys) \<Longrightarrow> xs = NNonce n # ys"
    "expect as_Uint8 xs = (Inr k, ys) \<Longrightarrow> xs = NUint8 k # ys"
    "expect as_String8 xs = (Inr f, ys) \<Longrightarrow> xs = NString8 f # ys"
    "expect as_Uint16 xs = (Inr c, ys) \<Longrightarrow> xs = NUint16 c # ys" for xs ys n k f c
    by (auto simp: expect_def split: list.splits option.splits nego_obj.splits
        elim: as_Nonce.elims as_Uint8.elims as_String8.elims as_Uint16.elims)
  have rf: "set rest \<subseteq> set xs" if "read_features k b xs = (r, rest)" for k b xs r rest
    using that by (induction k arbitrary: b xs)
      (fastforce simp: expect_def split: list.splits option.splits nego_obj.splits prod.splits sum.splits)+
  have ns: "expect as_String8 xs \<noteq> (Inl ErrUnsupportedSelectedFeature, ys)" for xs ys
    by (auto simp: expect_def split: list.splits option.splits nego_obj.splits)
  have out: "case NegotiateOutbound fails inp of (r, out) \<Rightarrow>
      (out = [] \<or> out = [NString8 featureMux2] \<and> NString8 featureMux2 \<in> set inp) \<and>
      (\<forall>n. r = Inr n \<longrightarrow> NNonce n \<in> set inp \<and> NUint8 0 \<in> set inp \<and> out \<noteq> [])"
    unfolding NegotiateOutbound_def Let_def
    by (fastforce split: prod.splits sum.splits option.splits if_splits
        dest!: e dest: rf read_features_offered)
  have inb: "case NegotiateInbound fails nonce inp of (r, out) \<Rightarrow>
      (NNonce nonce \<in> set out \<longrightarrow> r = Inr nonce \<and> hd inp = NString8 featureMux2 \<and> inp \<noteq> []) \<and>
      (\<forall>n. r = Inr n \<longrightarrow> n = nonce \<and> NNonce n \<in> set out) \<and>
      (r = Inl ErrUnsupportedSelectedFeature \<longrightarrow> last out = NUint8 1)"
    unfolding NegotiateInbound_def Let_def
    by (auto simp: ns split: prod.splits sum.splits option.splits if_splits dest: e)
  from out inb show ?thesis by blast
qed

lemma register_link_ok:
  assumes "set_ops_law so" and "distinct (pl_links p)" and "l \<notin> set (pl_links p)" and "\<not> pl_closed p"
  shows "\<exists>p'. register_link so swap ep l link p = (Inr l, False, p') \<and> l \<in> set (pl_links p') \<and>
           lk_remote (pl_node p') l = remoteIdentity (lk_mux link) \<and>
           lk_id (n_links (pl_node p') l) = lk_id link \<and> lk_err (n_links (pl_node p') l) = lk_err link"
proof -
  let ?p = "upd_node (upd_link l (\<lambda>_. link)) p"
  have links: "pl_links ?p = pl_links p" by (simp add: upd_link_def)
  obtain ls where a: "ss_Add so l (pl_links ?p) = Some ls"
    using set_ops_lawD(2) [OF assms(1,2), of l] assms(3) links by (cases "ss_Add so l (pl_links p)") auto
  have "l \<in> set ls" using set_ops_lawD(1) [OF assms(1), of "pl_links ?p" l ls] assms(2) a links by simp
  moreover have "lk_id (n_links (SetRouter l m) l) = lk_id (n_links m l)" for m :: "'a node"
    by (simp add: SetRouter_def upd_link_def)
  ultimately show ?thesis
    using assms(4) a
    by (simp add: register_link_def AddLink_def addCounted_def AddLink_check_def Let_def upd_link_def)
qed


lemma AddLink_ends:
  assumes "AddLink so swap ep l p = (None, p')"
  shows "lk_remote (pl_node p') l = lk_remote (pl_node p) l \<and> \<not> pl_closed p \<and>
         lk_err (n_links (pl_node p') l) = lk_err (n_links (pl_node p) l)"
  using assms
  by (auto simp: AddLink_def addCounted_def AddLink_check_def Let_def split: option.splits if_splits prod.splits)


lemma negotiation_safe_witness:
  "NegotiateOutbound (\<lambda>_. None) [NUint16 1, NString8 ''mux1'', NUint8 0, NNonce 5] =
     (Inl ErrNoSupportedFeature, [])"
  using negotiation_safe [where fails = "\<lambda>_. None" and
      inp = "[NUint16 1, NString8 ''mux1'', NUint8 0, NNonce 5]" and nonce = 0]
  by (simp add: NegotiateOutbound_def expect_def featureMux2_def)

definition demo_chan :: "nat chan" where
  "demo_chan = \<lparr>ch_log = [], ch_send = (\<lambda>_ _. None), ch_closed = False\<rparr>"



end
