(* ===== verification/Link_Strategies.thy ===== *)
theory Link_Strategies
  imports Link_Pool
begin

section \<open>Strategies that make links (\<open>basic_link_strategy.go\<close>, \<open>tor_link_strategy.go\<close>, \<open>nat_link_strategy.go\<close>)\<close>

text \<open>
  A strategy runs one attempt at a time in the background and closes a channel when the
  attempt is over.  The attempts dial and call other nodes: what those calls answer is an
  argument.  Modelled are the rounds with their channel, the choice of the winner among
  parallel dials, the retries, the order in which an attempt ends and hands its link over, and
  what the traversal of a NAT creates and releases.
\<close>

subsection \<open>Rounds\<close>

text \<open>
  The channel of the round in flight, channels by address, those that are closed, and whether
  a closed channel was closed again.
\<close>

record round =
  rd_done :: "nat option"
  rd_next :: nat
  rd_closed :: "nat list"
  rd_panicked :: bool

definition rd_close :: "nat \<Rightarrow> round \<Rightarrow> round" where
  "rd_close c r =
     r\<lparr>rd_closed := c # rd_closed r, rd_panicked := rd_panicked r \<or> c \<in> set (rd_closed r)\<rparr>"

definition basic_Signal :: "round \<Rightarrow> bool \<times> round" where
  "basic_Signal r =
     (if rd_done r \<noteq> None then (False, r)
      else (True, r\<lparr>rd_done := Some (rd_next r), rd_next := Suc (rd_next r)\<rparr>))"

definition basic_finish :: "round \<Rightarrow> round" where
  "basic_finish r =
     (case rd_done r of
        None \<Rightarrow> r\<lparr>rd_panicked := True\<rparr>
      | Some c \<Rightarrow> (rd_close c r)\<lparr>rd_done := None\<rparr>)"

text \<open>\<open>Done\<close> answers the channel of the round, or a fresh one that is closed.\<close>

definition basic_Done :: "round \<Rightarrow> nat \<times> round" where
  "basic_Done r =
     (case rd_done r of
        None \<Rightarrow> (rd_next r, rd_close (rd_next r) (r\<lparr>rd_next := Suc (rd_next r)\<rparr>))
      | Some c \<Rightarrow> (c, r))"

definition tor_Signal :: "round \<Rightarrow> bool \<times> round" where
  "tor_Signal r =
     (if rd_done r \<noteq> None then (False, r)
      else (True, r\<lparr>rd_done := Some (rd_next r), rd_next := Suc (rd_next r)\<rparr>))"

definition tor_signalDone :: "round \<Rightarrow> round" where
  "tor_signalDone r =
     (case rd_done r of None \<Rightarrow> r | Some c \<Rightarrow> (rd_close c r)\<lparr>rd_done := None\<rparr>)"

definition tor_Done :: "round \<Rightarrow> nat \<times> round" where
  "tor_Done r =
     (case rd_done r of
        None \<Rightarrow> (rd_next r, rd_close (rd_next r) (r\<lparr>rd_next := Suc (rd_next r)\<rparr>))
      | Some c \<Rightarrow> (c, r))"

definition nat_Signal :: "round \<Rightarrow> bool \<times> round" where
  "nat_Signal r =
     (if rd_done r \<noteq> None then (False, r)
      else (True, r\<lparr>rd_done := Some (rd_next r), rd_next := Suc (rd_next r)\<rparr>))"

definition nat_signalDone :: "round \<Rightarrow> round" where
  "nat_signalDone r =
     (case rd_done r of None \<Rightarrow> r | Some c \<Rightarrow> (rd_close c r)\<lparr>rd_done := None\<rparr>)"

definition nat_Done :: "round \<Rightarrow> nat \<times> round" where
  "nat_Done r =
     (case rd_done r of
        None \<Rightarrow> (rd_next r, rd_close (rd_next r) (r\<lparr>rd_next := Suc (rd_next r)\<rparr>))
      | Some c \<Rightarrow> (c, r))"

lemmas round_defs = basic_Signal_def basic_finish_def basic_Done_def tor_Signal_def
  tor_signalDone_def tor_Done_def nat_Signal_def nat_signalDone_def nat_Done_def rd_close_def

text \<open>
  The contract the linker relies on (\<open>LinkStrategy\<close> of \<open>nodes/module.go\<close>), and what follows
  from it: however signals, ends of attempts and waits interleave, a round is started only
  when none is in flight, a channel is closed once, and a channel that was handed out is closed
  or is that of the round in flight, so that the end of the round wakes its waiters.
\<close>

inductive round_run ::
  "(round \<Rightarrow> bool \<times> round) \<Rightarrow> (round \<Rightarrow> round) \<Rightarrow> (round \<Rightarrow> nat \<times> round) \<Rightarrow> round \<Rightarrow> nat set \<Rightarrow> bool \<Rightarrow> bool"
  for signal finish wait where
  rr_start: "round_run signal finish wait \<lparr>rd_done = None, rd_next = 0, rd_closed = [], rd_panicked = False\<rparr> {} False"
| rr_signal: "round_run signal finish wait r ws busy \<Longrightarrow> signal r = (b, r') \<Longrightarrow>
     round_run signal finish wait r' ws (busy \<or> b)"
| rr_finish: "round_run signal finish wait r ws True \<Longrightarrow> round_run signal finish wait (finish r) ws False"
| rr_wait: "round_run signal finish wait r ws busy \<Longrightarrow> wait r = (c, r') \<Longrightarrow>
     round_run signal finish wait r' (insert c ws) busy"

definition round_inv :: "round \<Rightarrow> nat set \<Rightarrow> bool \<Rightarrow> bool" where
  "round_inv r ws busy \<longleftrightarrow>
     \<not> rd_panicked r \<and> (\<forall>c \<in> set (rd_closed r). c < rd_next r) \<and>
     (case rd_done r of
        None \<Rightarrow> \<not> busy \<and> ws \<subseteq> set (rd_closed r)
      | Some c \<Rightarrow> busy \<and> c < rd_next r \<and> c \<notin> set (rd_closed r) \<and> ws \<subseteq> insert c (set (rd_closed r)))"

locale link_strategy =
  fixes signal :: "round \<Rightarrow> bool \<times> round" and finish :: "round \<Rightarrow> round"
    and wait :: "round \<Rightarrow> nat \<times> round"
  assumes signal_busy: "rd_done r \<noteq> None \<Longrightarrow> signal r = (False, r)"
    and signal_idle: "rd_done r = None \<Longrightarrow>
      signal r = (True, r\<lparr>rd_done := Some (rd_next r), rd_next := Suc (rd_next r)\<rparr>)"
    and finish_busy: "rd_done r = Some c \<Longrightarrow> finish r = (rd_close c r)\<lparr>rd_done := None\<rparr>"
    and wait_busy: "rd_done r = Some c \<Longrightarrow> wait r = (c, r)"
    and wait_idle: "rd_done r = None \<Longrightarrow>
      wait r = (rd_next r, rd_close (rd_next r) (r\<lparr>rd_next := Suc (rd_next r)\<rparr>))"
begin

lemma rounds_safe: "round_run signal finish wait r ws busy \<Longrightarrow> round_inv r ws busy"
proof (induction rule: round_run.induct)
  case (rr_signal r ws busy b r')
  then show ?case
    using signal_busy [of r] signal_idle [of r]
    by (cases "rd_done r") (auto simp: round_inv_def less_Suc_eq)
next
  case (rr_finish r ws)
  then show ?case
    using finish_busy [of r] by (cases "rd_done r") (auto simp: round_inv_def rd_close_def)
next
  case (rr_wait r ws busy c r')
  then show ?case
    using wait_busy [of r] wait_idle [of r]
    by (cases "rd_done r") (auto simp: round_inv_def rd_close_def less_Suc_eq)
qed (simp add: round_inv_def)

end

interpretation basic: link_strategy basic_Signal basic_finish basic_Done
  by unfold_locales (auto simp: round_defs)

interpretation tor: link_strategy tor_Signal tor_signalDone tor_Done
  by unfold_locales (auto simp: round_defs)

interpretation nat: link_strategy nat_Signal nat_signalDone nat_Done
  by unfold_locales (auto simp: round_defs)

subsection \<open>Handing a link over\<close>

definition StrategyBasic :: string where "StrategyBasic = ''basic''"
definition StrategyTor :: string where "StrategyTor = ''tor''"
definition StrategyNAT :: string where "StrategyNAT = ''nat''"

text \<open>The end of an attempt: the link goes to the watchers, and is closed if none took it.\<close>

definition deliverLink ::
  "err_swap \<Rightarrow> endpoints \<Rightarrow> string \<Rightarrow> nat option \<Rightarrow> ('id, 'st) LinkPool \<Rightarrow> ('id, 'st) LinkPool" where
  "deliverLink swap ep name link p =
     (case link of
        None \<Rightarrow> p
      | Some l \<Rightarrow>
          (let (used, p1) = notifyLinkWatchers ep l (Some name) p
           in (if used then p1 else pl_closeLink swap ErrExcessLink l p1)))"

subsection \<open>Parallel dials\<close>

text \<open>
  The workers of a round report the links they made in some order.  \<open>sig.Value.Swap\<close> is an
  argument: of it the source relies on the first swap from nil winning.
\<close>

type_synonym link_swap = "nat option \<Rightarrow> nat option \<Rightarrow> nat option \<Rightarrow> bool \<times> nat option"

definition link_swap_law :: "link_swap \<Rightarrow> bool" where
  "link_swap_law sw \<longleftrightarrow>
     (\<forall>old new cur. sw old new cur = (if cur = old then (True, new) else (False, cur)))"

definition cas_link :: link_swap where
  "cas_link old new cur = (if cur = old then (True, new) else (False, cur))"

definition worker_linked ::
  "link_swap \<Rightarrow> err_swap \<Rightarrow> nat \<Rightarrow> nat option \<times> ('id, 'st) LinkPool \<Rightarrow> nat option \<times> ('id, 'st) LinkPool" where
  "worker_linked sw swap l wp =
     (let (ok, winner) = sw None (Some l) (fst wp)
      in (winner, if ok then snd wp else pl_closeLink swap ErrExcessLink l (snd wp)))"

definition basic_round ::
  "link_swap \<Rightarrow> err_swap \<Rightarrow> endpoints \<Rightarrow> nat list \<Rightarrow> ('id, 'st) LinkPool \<Rightarrow> ('id, 'st) LinkPool" where
  "basic_round sw swap ep linked p =
     (let (winner, p1) = fold (worker_linked sw swap) linked (None, p)
      in deliverLink swap ep StrategyBasic winner p1)"

subsection \<open>Retries (Tor)\<close>

text \<open>
  \<open>dial i j\<close> is what dialling endpoint number \<open>j\<close> in round \<open>i\<close> gives, \<open>over i j\<close> whether the
  context is over before it, \<open>ended i\<close> whether it ends while waiting after round \<open>i\<close>.  The
  result comes with the number of dials.
\<close>

fun try_endpoints ::
  "(nat \<Rightarrow> nat option) \<Rightarrow> (nat \<Rightarrow> bool) \<Rightarrow> nat list \<Rightarrow> (nat option + unit) \<times> nat" where
  "try_endpoints dial over [] = (Inr (), 0)"
| "try_endpoints dial over (e # es) =
     (if over e then (Inl None, 0)
      else (case dial e of
              Some l \<Rightarrow> (Inl (Some l), 1)
            | None \<Rightarrow> (case try_endpoints dial over es of (r, k) \<Rightarrow> (r, Suc k))))"

function tor_try_from ::
  "nat \<Rightarrow> nat \<Rightarrow> (nat \<Rightarrow> nat \<Rightarrow> nat option) \<Rightarrow> (nat \<Rightarrow> nat \<Rightarrow> bool) \<Rightarrow> (nat \<Rightarrow> bool) \<Rightarrow> bool \<Rightarrow> nat list \<Rightarrow>
     nat option \<times> nat" where
  "tor_try_from i retries dial over ended withBackoff es =
     (if i \<ge> retries then (None, 0)
      else (case try_endpoints (dial i) (over i) es of
              (Inl r, k) \<Rightarrow> (r, k)
            | (Inr _, k) \<Rightarrow>
                (if i < retries - 1 \<and> withBackoff \<and> ended i then (None, k)
                 else (case tor_try_from (Suc i) retries dial over ended withBackoff es of
                         (r, k') \<Rightarrow> (r, k + k')))))"
  by pat_completeness auto
termination by (relation "measure (\<lambda>(i, retries, _). retries - i)") auto

declare tor_try_from.simps [simp del]

definition tor_try ::
  "nat \<Rightarrow> (nat \<Rightarrow> nat \<Rightarrow> nat option) \<Rightarrow> (nat \<Rightarrow> nat \<Rightarrow> bool) \<Rightarrow> (nat \<Rightarrow> bool) \<Rightarrow> bool \<Rightarrow> nat list \<Rightarrow>
     nat option \<times> nat" where
  "tor_try retries dial over ended withBackoff es = tor_try_from 0 retries dial over ended withBackoff es"

subsection \<open>The attempt over Tor\<close>

text \<open>
  The attempt as the sequence of its effects on the round and the pool, by the case its
  \<open>select\<close> statements took: no endpoints; a result of the quick phase; its timeout with the
  caller gone; or its timeout and the background phase with its result.
\<close>

datatype tor_case =
    NoEndpoints
  | QuickResult "nat option"
  | QuickTimeout_gone
  | QuickTimeout_then "nat option"

datatype tor_effect = DoSignalDone | DoDeliver "nat option"

fun tor_attempt :: "tor_case \<Rightarrow> tor_effect list" where
  "tor_attempt NoEndpoints = [DoSignalDone]"
| "tor_attempt (QuickResult link) = [DoSignalDone, DoDeliver link]"
| "tor_attempt QuickTimeout_gone = [DoSignalDone]"
| "tor_attempt (QuickTimeout_then link) = [DoSignalDone, DoDeliver link]"

fun tor_effect_on ::
  "err_swap \<Rightarrow> endpoints \<Rightarrow> tor_effect \<Rightarrow> round \<times> ('id, 'st) LinkPool \<Rightarrow> round \<times> ('id, 'st) LinkPool" where
  "tor_effect_on swap ep DoSignalDone (r, p) = (tor_signalDone r, p)"
| "tor_effect_on swap ep (DoDeliver link) (r, p) = (r, deliverLink swap ep StrategyTor link p)"

subsection \<open>Traversal of a NAT\<close>

datatype nat_call =
    Punch | ConsumeHole
  | CreateListener | SetRemotePort | SetLocalPort
  | Dial | EstablishLink | CloseConn | NotifyWatchers
  | RemoveLocalPort | RemoveRemotePort | CloseListener

record nat_state =
  remoteListener :: bool
  remoteMapping :: bool
  localMapping :: bool
  nat_linked :: bool
  nat_calls :: "nat_call list"

definition nat_cleanup :: "nat_state \<Rightarrow> nat_state" where
  "nat_cleanup s =
     s\<lparr>nat_calls := nat_calls s @ (if localMapping s then [RemoveLocalPort] else []) @
                    (if remoteMapping s then [RemoveRemotePort] else []) @
                    (if remoteListener s then [CloseListener] else [])\<rparr>"

definition nat_return :: "nat_state \<Rightarrow> nat_state" where
  "nat_return s = (if \<not> nat_linked s then nat_cleanup s else s)"

definition nat_do :: "nat_call \<Rightarrow> nat_state \<Rightarrow> nat_state" where
  "nat_do c s = s\<lparr>nat_calls := nat_calls s @ [c]\<rparr>"

definition nat_attempt :: "(nat_call \<Rightarrow> bool) \<Rightarrow> nat_state" where
  "nat_attempt fails =
     (let s0 = \<lparr>remoteListener = False, remoteMapping = False, localMapping = False,
                nat_linked = False, nat_calls = []\<rparr>;
          s1 = nat_do Punch s0 in
      if fails Punch then s1 else
      let s2 = nat_do ConsumeHole s1 in
      if fails ConsumeHole then s2 else
      let s3 = nat_do CreateListener s2 in
      if fails CreateListener then nat_return s3 else
      let s4 = nat_do SetRemotePort (s3\<lparr>remoteListener := True\<rparr>) in
      if fails SetRemotePort then nat_return s4 else
      let s5 = nat_do SetLocalPort (s4\<lparr>remoteMapping := True\<rparr>) in
      if fails SetLocalPort then nat_return s5 else
      let s6 = nat_do Dial (s5\<lparr>localMapping := True\<rparr>) in
      if fails Dial then nat_return s6 else
      let s7 = nat_do EstablishLink s6 in
      if fails EstablishLink then nat_return (nat_do CloseConn s7) else
      nat_return (nat_do NotifyWatchers (s7\<lparr>nat_linked := True\<rparr>)))"

text \<open>What the watcher goroutine does when the link is over.\<close>

definition nat_link_done :: "nat_state \<Rightarrow> nat_state" where
  "nat_link_done s = nat_cleanup s"

definition hole_sides :: "'id \<Rightarrow> 'id \<Rightarrow> 'ep \<Rightarrow> 'ep \<Rightarrow> 'ep \<times> 'ep" where
  "hole_sides selfID passiveID active passive =
     (if passiveID = selfID then (passive, active) else (active, passive))"

subsection \<open>Properties\<close>

text \<open>
  C31.  The rounds of all three strategies are safe.  However signals, ends of attempts and
  waits interleave, no channel is closed twice or when nil, and every channel a waiter got is
  closed as soon as no round is in flight: nobody waits for ever for an attempt that is over.
\<close>

theorem strategy_rounds_safe:
  assumes "round_run basic_Signal basic_finish basic_Done r ws busy \<or>
           round_run tor_Signal tor_signalDone tor_Done r ws busy \<or>
           round_run nat_Signal nat_signalDone nat_Done r ws busy"
  shows "\<not> rd_panicked r \<and> (busy \<longleftrightarrow> rd_done r \<noteq> None) \<and> (\<not> busy \<longrightarrow> ws \<subseteq> set (rd_closed r))"
proof -
  have "round_inv r ws busy"
    using assms basic.rounds_safe tor.rounds_safe nat.rounds_safe by blast
  then show ?thesis by (auto simp: round_inv_def split: option.splits)
qed

text \<open>Closing one link leaves the others alone.\<close>

lemma closeLink_other:
  "k \<noteq> l \<Longrightarrow> n_links (pl_node (pl_closeLink swap e l p)) k = n_links (pl_node p) k"
  by (simp add: pl_closeLink_def upd_link_def)

lemma worker_fold_won:
  assumes sw: "link_swap_law sw" and cl: "swap_law swap"
  shows "l \<notin> set ls \<Longrightarrow>
    \<exists>p'. fold (worker_linked sw swap) ls (Some l, p) = (Some l, p') \<and> tame p p' \<and>
      n_links (pl_node p') l = n_links (pl_node p) l \<and>
      (\<forall>k \<in> set ls. lk_err (n_links (pl_node p') k) \<noteq> None) \<and> pl_watch p' = pl_watch p \<and>
      pl_watchers p' = pl_watchers p"
proof (induction ls arbitrary: p)
  case (Cons k ls)
  let ?q = "pl_closeLink swap ErrExcessLink k p"
  have step: "worker_linked sw swap k (Some l, p) = (Some l, ?q)"
    using sw by (simp add: worker_linked_def link_swap_law_def)
  have "l \<notin> set ls" using Cons.prems by simp
  from Cons.IH [OF this, of ?q] obtain p' where
    p': "fold (worker_linked sw swap) ls (Some l, ?q) = (Some l, p')"
    "tame ?q p'" "n_links (pl_node p') l = n_links (pl_node ?q) l"
    "\<forall>k \<in> set ls. lk_err (n_links (pl_node p') k) \<noteq> None"
    "pl_watch p' = pl_watch ?q" "pl_watchers p' = pl_watchers ?q" by blast
  have "lk_err (n_links (pl_node p') k) \<noteq> None"
    using p'(2) closed_link [OF cl, of ErrExcessLink k p] unfolding tame_def by blast
  moreover have "n_links (pl_node ?q) l = n_links (pl_node p) l" using Cons.prems by (simp add: closeLink_other)
  moreover have "tame p p'" by (rule tame_trans [OF tame_closeLink [OF cl] p'(2)])
  moreover have "pl_watch ?q = pl_watch p" "pl_watchers ?q = pl_watchers p" by (simp_all add: pl_closeLink_def)
  ultimately show ?case using p' step by auto
qed simp

text \<open>When a watcher takes a link: its channel is empty and the link matches.\<close>

definition takes :: "endpoints \<Rightarrow> nat \<Rightarrow> string option \<Rightarrow> ('id, 'st) LinkPool \<Rightarrow> nat \<Rightarrow> bool" where
  "takes ep l st p w \<longleftrightarrow>
     (\<exists>wt. pl_watch p w = Some wt \<and> wt_ch wt = None \<and>
        match_link ep (pl_node p) (wt_target wt) (wt_opts wt) l st)"

lemma notify_used:
  "fst (notifyLinkWatchers ep l st p) \<longleftrightarrow> (\<exists>w \<in> set (pl_watchers p). takes ep l st p w)"
proof -
  have one: "fst (notify_one ep l st w up) = (fst up \<or> takes ep l st (snd up) w)"
    "v \<noteq> w \<Longrightarrow> takes ep l st (snd (notify_one ep l st w up)) v = takes ep l st (snd up) v"
    "\<not> takes ep l st (snd up) w \<Longrightarrow> notify_one ep l st w up = up"
    for w v and up :: "bool \<times> ('a, 'b) LinkPool"
    by (auto simp: notify_one_def takes_def Let_def split: option.split)
  have "fst (fold (notify_one ep l st) ws up) = (fst up \<or> (\<exists>w \<in> set ws. takes ep l st (snd up) w))"
    for ws and up :: "bool \<times> ('a, 'b) LinkPool"
  proof (induction ws arbitrary: up)
    case (Cons w ws)
    show ?case
    proof (cases "takes ep l st (snd up) w")
      case True
      with Cons [of "notify_one ep l st w up"] one(1) [of w up] show ?thesis by simp
    next
      case False
      with Cons [of up] one(3) [OF False] show ?thesis by simp
    qed
  qed simp
  from this [of "pl_watchers p" "(False, p)"] show ?thesis by (simp add: notifyLinkWatchers_def)
qed

text \<open>
  Of the links a round of parallel dials makes, one wins.  Whatever their number and
  order, all but the first are closed; the first is handed to the watchers, and it is left open
  exactly if one of them waits for such a link.
\<close>

lemma basic_one_winner:
  assumes "link_swap_law sw" and "swap_law swap" and "l \<notin> set ls"
    and "lk_err (n_links (pl_node p) l) = None"
  shows "(\<forall>k \<in> set ls. lk_err (n_links (pl_node (basic_round sw swap ep (l # ls) p)) k) \<noteq> None) \<and>
         lk_err (n_links (pl_node (basic_round sw swap ep (l # ls) p)) l) =
           (if \<exists>w \<in> set (pl_watchers p). takes ep l (Some StrategyBasic) p w
            then None else Some ErrExcessLink)"
proof -
  have first: "worker_linked sw swap l (None, p) = (Some l, p)"
    using assms(1) by (simp add: worker_linked_def link_swap_law_def)
  from worker_fold_won [OF assms(1,2,3), of p] obtain p' where
    p': "fold (worker_linked sw swap) (l # ls) (None, p) = (Some l, p')"
    and keep: "n_links (pl_node p') l = n_links (pl_node p) l" and t: "tame p p'"
    and lost: "\<forall>k \<in> set ls. lk_err (n_links (pl_node p') k) \<noteq> None"
    and w: "pl_watch p' = pl_watch p" "pl_watchers p' = pl_watchers p"
    using first by auto
  let ?used = "fst (notifyLinkWatchers ep l (Some StrategyBasic) p')"
  have u: "?used = (\<exists>w \<in> set (pl_watchers p). takes ep l (Some StrategyBasic) p w)"
    using t w by (simp add: notify_used takes_def tame_def match_link_cong [of "pl_node p'" _ "pl_node p"])
  have r: "basic_round sw swap ep (l # ls) p =
      (if ?used then snd (notifyLinkWatchers ep l (Some StrategyBasic) p')
       else pl_closeLink swap ErrExcessLink l (snd (notifyLinkWatchers ep l (Some StrategyBasic) p')))"
    unfolding basic_round_def p' by (simp add: deliverLink_def case_prod_beta)
  have "lk_err (n_links (pl_node (basic_round sw swap ep (l # ls) p)) k) \<noteq> None" if "k \<in> set ls" for k
  proof -
    from that assms(3) have "k \<noteq> l" by auto
    with that lost show ?thesis by (simp add: r closeLink_other)
  qed
  moreover have "lk_err (n_links (pl_node (basic_round sw swap ep (l # ls) p)) l) =
      (if ?used then None else Some ErrExcessLink)"
    using assms(2,4) keep
    by (simp add: r pl_closeLink_def upd_link_def CloseWithError_def swap_law_def Let_def)
  ultimately show ?thesis using u by auto
qed

text \<open>
  C38.  An attempt over Tor that makes a link can lose it.  It closes its channel before it
  hands the link over.  A retrieval that waits for it and is scheduled in between answers that
  no link was produced and goes away; then nobody takes the link and it is closed as an excess
  one.  Had the link been handed over first, as the other strategies do, the same retrieval
  would have returned it.
\<close>

theorem tor_link_lost:
  assumes "set_ops_law so" and "swap_law swap"
    and "pl_watchers p = [w]" and "pl_watch p w = Some wt" and "wt_ch wt = None"
    and "match_link ep (pl_node p) (wt_target wt) (wt_opts wt) l (Some StrategyTor)"
    and "rd_done r = Some c" and "lk_err (n_links (pl_node p) l) = None"
  shows "\<exists>r' p1. tor_attempt (QuickResult (Some l)) = [DoSignalDone, DoDeliver (Some l)] \<and>
           tor_effect_on swap ep DoSignalDone (r, p) = (r', p) \<and> c \<in> set (rd_closed r') \<and>
           RetrieveLink_end so StrategiesDone w p = Some (Inl ErrLinkNotProduced, p1) \<and>
           lk_err (n_links (pl_node (snd (tor_effect_on swap ep (DoDeliver (Some l)) (r', p1)))) l) =
             Some ErrExcessLink \<and>
           (\<exists>p2. RetrieveLink_end so StrategiesDone w (deliverLink swap ep StrategyTor (Some l) p) =
                   Some (Inr l, p2))"
proof -
  let ?p1 = "unsubscribe so w p"
  have ws: "pl_watchers ?p1 = []"
  proof -
    have "set (ss_Remove so w [w]) = {}" using set_ops_lawD(4) [OF assms(1), of "[w]" w] by simp
    then show ?thesis using assms(3) by (simp add: unsubscribe_def)
  qed
  have e: "RetrieveLink_end so StrategiesDone w p = Some (Inl ErrLinkNotProduced, ?p1)"
    using assms(4,5) by (simp add: take_ch_def)
  have "deliverLink swap ep StrategyTor (Some l) ?p1 = pl_closeLink swap ErrExcessLink l ?p1"
    by (simp add: deliverLink_def notifyLinkWatchers_def ws)
  then have x: "lk_err (n_links (pl_node (deliverLink swap ep StrategyTor (Some l) ?p1)) l) = Some ErrExcessLink"
    using assms(2,8)
    by (simp add: pl_closeLink_def upd_link_def CloseWithError_def swap_law_def unsubscribe_def Let_def)
  let ?p2 = "p\<lparr>pl_watch := (pl_watch p)(w \<mapsto> wt\<lparr>wt_ch := Some l\<rparr>)\<rparr>"
  have "deliverLink swap ep StrategyTor (Some l) p = ?p2"
    using assms(3-6) by (simp add: deliverLink_def notifyLinkWatchers_def notify_one_def)
  then have d: "\<exists>p2. RetrieveLink_end so StrategiesDone w (deliverLink swap ep StrategyTor (Some l) p) =
      Some (Inr l, p2)" by (simp add: take_ch_def)
  show ?thesis
    using assms(7) e x d by (auto simp: tor_signalDone_def rd_close_def)
qed

text \<open>The resources of a traversal: the call that creates one and the call that releases it.\<close>

definition nat_resources :: "(nat_call \<times> nat_call) list" where
  "nat_resources =
     [(CreateListener, CloseListener), (SetRemotePort, RemoveRemotePort), (SetLocalPort, RemoveLocalPort)]"

text \<open>
  C30.  A traversal releases what it has created.  Whichever of its calls fails: without a link
  every resource that was created is released, once, in the reverse order, and nothing else; and
  a connection without a link is closed.  With a link nothing is released until it is over, then
  everything is.
\<close>

theorem nat_releases_resources:
  "let s = nat_attempt fails in
   (if nat_linked s
    then (\<forall>(create, release) \<in> set nat_resources.
            release \<notin> set (nat_calls s) \<and> release \<in> set (nat_calls (nat_link_done s)))
    else filter (\<lambda>c. c \<in> snd ` set nat_resources) (nat_calls s) =
           rev (map snd (filter (\<lambda>(create, release). create \<in> set (nat_calls s) \<and> \<not> fails create)
             nat_resources))) \<and>
   (nat_linked s \<longleftrightarrow> (\<forall>c \<in> {Punch, ConsumeHole, CreateListener, SetRemotePort, SetLocalPort, Dial, EstablishLink}. \<not> fails c)) \<and>
   (EstablishLink \<in> set (nat_calls s) \<and> fails EstablishLink \<longrightarrow> CloseConn \<in> set (nat_calls s))"
  by (simp add: nat_attempt_def nat_do_def nat_return_def nat_cleanup_def nat_link_done_def
      nat_resources_def Let_def)

text \<open>The retries: how often is dialled at most, and what no result means.\<close>

lemma try_endpoints_spec:
  "try_endpoints dial over es = (r, k) \<Longrightarrow>
     k \<le> length es \<and>
     (\<forall>l. r = Inl (Some l) \<longrightarrow> (\<exists>e \<in> set es. dial e = Some l)) \<and>
     (r = Inr () \<longrightarrow> (\<forall>e \<in> set es. dial e = None)) \<and>
     ((\<forall>e \<in> set es. \<not> over e) \<longrightarrow> r \<noteq> Inl None)"
proof (induction es arbitrary: r k)
  case (Cons e es)
  show ?case
  proof (cases "over e \<or> dial e \<noteq> None")
    case True
    with Cons.prems show ?thesis by (auto split: if_splits)
  next
    case False
    then obtain k' where k': "try_endpoints dial over es = (r, k')" "k = Suc k'"
      using Cons.prems by (auto split: prod.splits)
    with Cons.IH [OF k'(1)] False show ?thesis by auto
  qed
qed simp

lemma tor_try_from_spec:
  "tor_try_from i retries dial over ended b es = (r, k) \<Longrightarrow>
     k \<le> (retries - i) * length es \<and>
     (\<forall>l. r = Some l \<longrightarrow> (\<exists>j e. e \<in> set es \<and> dial j e = Some l)) \<and>
     (r = None \<and> (\<forall>j e. \<not> over j e) \<and> (\<forall>j. \<not> ended j) \<longrightarrow>
        (\<forall>j e. i \<le> j \<and> j < retries \<and> e \<in> set es \<longrightarrow> dial j e = None))"
proof (induction i retries dial over ended b es arbitrary: r k rule: tor_try_from.induct)
  case (1 i retries dial over ended b es)
  show ?case
  proof (cases "i \<ge> retries")
    case True
    with 1(2) show ?thesis by (auto simp: tor_try_from.simps [of i])
  next
    case False
    obtain q k1 where q: "try_endpoints (dial i) (over i) es = (q, k1)"
      by (cases "try_endpoints (dial i) (over i) es") auto
    note spec = try_endpoints_spec [OF q]
    have n: "(retries - i) * length es = length es + (retries - Suc i) * length es"
      using False by (metis Suc_diff_Suc linorder_not_le mult_Suc)
    show ?thesis
    proof (cases q)
      case (Inl x)
      with False q 1(2) have "r = x" "k = k1" by (auto simp: tor_try_from.simps [of i])
      with Inl spec n show ?thesis by (cases x) auto
    next
      case (Inr u)
      show ?thesis
      proof (cases "i < retries - 1 \<and> b \<and> ended i")
        case True
        with False q Inr 1(2) have "r = None" "k = k1" by (auto simp: tor_try_from.simps [of i])
        with spec n True show ?thesis by auto
      next
        case stop: False
        obtain k2 where k2: "tor_try_from (Suc i) retries dial over ended b es = (r, k2)" "k = k1 + k2"
          using False q Inr 1(2) stop by (auto simp: tor_try_from.simps [of i] split: prod.splits)
        note ih = 1(1) [OF False q [symmetric] _ stop k2(1)]
        from ih Inr spec n k2(2) show ?thesis
          by (auto simp: le_less [of i] Suc_le_eq)
      qed
    qed
  qed
qed

text \<open>
  The retries end and are complete.  At most every endpoint is dialled once per retry; a
  link that is returned was made by one of the dials; and if none is returned although the
  context lasted, every dial of every retry has failed.
\<close>

lemma tor_retries_complete:
  assumes "tor_try retries dial over ended withBackoff es = (r, k)"
  shows "k \<le> retries * length es \<and>
         (\<forall>l. r = Some l \<longrightarrow> (\<exists>j e. e \<in> set es \<and> dial j e = Some l)) \<and>
         (r = None \<and> (\<forall>j e. \<not> over j e) \<and> (\<forall>j. \<not> ended j) \<longrightarrow>
            (\<forall>j e. j < retries \<and> e \<in> set es \<longrightarrow> dial j e = None))"
  using tor_try_from_spec [OF assms [unfolded tor_try_def]] by simp

theorem strategy_rounds_safe_witness:
  "\<not> rd_panicked (tor_signalDone (snd (tor_Signal
       \<lparr>rd_done = None, rd_next = 0, rd_closed = [], rd_panicked = False\<rparr>)))"
proof -
  let ?r0 = "\<lparr>rd_done = None, rd_next = 0, rd_closed = [], rd_panicked = False\<rparr>"
  have "round_run tor_Signal tor_signalDone tor_Done (snd (tor_Signal ?r0)) {} (False \<or> True)"
    by (rule rr_signal [OF rr_start]) (simp add: tor_Signal_def)
  then have "round_run tor_Signal tor_signalDone tor_Done (tor_signalDone (snd (tor_Signal ?r0))) {} False"
    by (intro rr_finish) simp
  then show ?thesis using strategy_rounds_safe by blast
qed

lemma basic_one_winner_witness:
  "lk_err (n_links (pl_node (basic_round cas_link cas_err (\<lambda>_. None) [0, 1] demo_pool)) 1) \<noteq> None \<and>
   lk_err (n_links (pl_node (basic_round cas_link cas_err (\<lambda>_. None) [0, 1] demo_pool)) 0) = Some ErrExcessLink"
proof -
  have "link_swap_law cas_link" by (simp add: link_swap_law_def cas_link_def)
  from basic_one_winner [OF this cas_err_law, of 0 "[1]" demo_pool "\<lambda>_. None"] show ?thesis
    by (simp add: demo_pool_def NewLinkPool_def demo0_def newLink_def)
qed

theorem tor_link_lost_witness:
  "\<exists>(p :: (nat, nat) LinkPool) w. RetrieveLink_end list_set StrategiesDone w p =
           Some (Inl ErrLinkNotProduced, unsubscribe list_set w p) \<and>
         lk_err (n_links (pl_node (deliverLink cas_err (\<lambda>_. None) StrategyTor (Some 0)
           (unsubscribe list_set w p))) 0) = Some ErrExcessLink"
proof -
  let ?wt = "\<lparr>wt_target = 2, wt_opts = retrieveOptions [WithStrategies [StrategyTor]], wt_ch = None\<rparr>"
  let ?p = "demo_pool\<lparr>pl_watchers := [0], pl_watch := [0 \<mapsto> ?wt]\<rparr>"
  let ?r = "\<lparr>rd_done = Some 3, rd_next = 4, rd_closed = [], rd_panicked = False\<rparr>"
  have m: "match_link (\<lambda>_. None) (pl_node ?p) (wt_target ?wt) (wt_opts ?wt) 0 (Some StrategyTor)"
    by (simp add: match_link_def retrieveOptions_def WithStrategies_def demo_pool_def NewLinkPool_def
        demo0_def newLink_def newMux_def)
  have e: "lk_err (n_links (pl_node ?p) 0) = None"
    by (simp add: demo_pool_def NewLinkPool_def demo0_def newLink_def)
  have "RetrieveLink_end list_set StrategiesDone 0 ?p =
      Some (Inl ErrLinkNotProduced, unsubscribe list_set 0 ?p)" by (simp add: take_ch_def)
  with tor_link_lost [OF list_set_law cas_err_law _ _ _ m, of 0 ?r 3] e show ?thesis
    by (intro exI [of _ ?p] exI [of _ 0]) simp
qed

theorem nat_releases_resources_witness:
  "nat_calls (nat_attempt (\<lambda>c. c = Dial)) =
     [Punch, ConsumeHole, CreateListener, SetRemotePort, SetLocalPort, Dial,
      RemoveLocalPort, RemoveRemotePort, CloseListener] \<and> \<not> nat_linked (nat_attempt (\<lambda>c. c = Dial))"
  using nat_releases_resources [of "\<lambda>c. c = Dial"]
  by (simp add: nat_attempt_def nat_do_def nat_return_def nat_cleanup_def Let_def)

lemma tor_retries_complete_witness:
  "snd (tor_try 2 (\<lambda>j e. None) (\<lambda>j e. False) (\<lambda>j. False) True [5, 6]) \<le> 4"
  using tor_retries_complete [of 2 "\<lambda>j e. None" "\<lambda>j e. False" "\<lambda>j. False" True "[5, 6]" _
      "snd (tor_try 2 (\<lambda>j e. None) (\<lambda>j e. False) (\<lambda>j. False) True [5, 6])", OF prod.collapse [symmetric]]
  by simp

end
