(* ===== verification/Query_Routing.thy ===== *)
theory Query_Routing
  imports Link_Strategies
begin

section \<open>Routing of queries to other nodes (\<open>query_router.go\<close>)\<close>

text \<open>
  A query goes over a link to its target, or over a new link, or through the relays it names.
  What a link answers to a query, what a retrieval yields and whether the push of a proof
  succeeds are arguments; the log keeps the proofs pushed and the links asked, in order.  The
  generic code of a rejection is a constant of another library and an argument.
\<close>

datatype 'w route_answer =
    RouteOk 'w
  | RouteRejected "8 word"
  | RouteNotFound
  | RouteErr nodes_err

datatype 'id route_event = ProofPushed 'id | Asked nat

text \<open>What the query carries in \<open>Extra\<close>: its caller's proof and its relays.\<close>

datatype 'id extra_relays = NoRelays | OtherType | RelayVia "'id list"

record ('id, 'w) route_env =
  re_select :: "'id \<Rightarrow> nat option"
  re_retrieve :: "'id \<Rightarrow> nodes_err + nat"
  re_link :: "nat \<Rightarrow> 'w route_answer"
  re_push :: "'id \<Rightarrow> nodes_err option"
  re_proof :: "bool option"
  re_ctxIdentity :: 'id
  re_self :: 'id
  re_zoneNetwork :: bool
  re_ctxDone :: bool
  re_defaultCode :: "8 word"

record 'id in_query =
  iq_Caller :: 'id
  iq_Target :: 'id
  iq_Relays :: "'id extra_relays"

text \<open>
  The proof: \<open>None\<close> where \<open>Extra\<close> has none, \<open>Some False\<close> for a nil object.
\<close>

definition sendCallerProof ::
  "('id, 'w) route_env \<Rightarrow> 'id \<Rightarrow> 'id route_event list \<Rightarrow> nodes_err option \<times> 'id route_event list" where
  "sendCallerProof env target evs =
     (case re_proof env of
        None \<Rightarrow> (Some (ErrMsg ''missing caller proof''), evs)
      | Some False \<Rightarrow> (Some (ErrMsg ''missing caller proof''), evs)
      | Some True \<Rightarrow>
          (case re_push env target of
             Some e \<Rightarrow> (Some (ErrMsg ''push failed''), evs)
           | None \<Rightarrow> (None, evs @ [ProofPushed target])))"

definition reachRelay ::
  "('id, 'w) route_env \<Rightarrow> 'id in_query \<Rightarrow> 'id \<Rightarrow> 'id route_event list \<Rightarrow>
     (nodes_err + nat) \<times> 'id route_event list" where
  "reachRelay env q relayID evs =
     (if relayID = iq_Target q then (Inl (ErrMsg ''the target is not its own relay''), evs)
      else (case (case re_select env relayID of Some l \<Rightarrow> Inr l | None \<Rightarrow> re_retrieve env relayID) of
              Inl e \<Rightarrow> (Inl e, evs)
            | Inr link \<Rightarrow>
                (if re_ctxIdentity env \<noteq> iq_Caller q
                 then (case sendCallerProof env relayID evs of
                         (Some e, evs') \<Rightarrow> (Inl e, evs')
                       | (None, evs') \<Rightarrow> (Inr link, evs'))
                 else (Inr link, evs))))"

definition ask ::
  "('id, 'w) route_env \<Rightarrow> 'id in_query \<Rightarrow> 'id \<Rightarrow> 'id route_event list \<Rightarrow>
     'w route_answer \<times> 'id route_event list" where
  "ask env q relayID evs =
     (case reachRelay env q relayID evs of
        (Inl e, evs') \<Rightarrow> (RouteNotFound, evs')
      | (Inr link, evs') \<Rightarrow> (re_link env link, evs' @ [Asked link]))"

fun route_loop ::
  "('id, 'w) route_env \<Rightarrow> 'id in_query \<Rightarrow> 8 word option \<Rightarrow> 'id list \<Rightarrow> 'id route_event list \<Rightarrow>
     'w route_answer \<times> 'id route_event list" where
  "route_loop env q rejected [] evs =
     (case rejected of Some c \<Rightarrow> (RouteRejected c, evs) | None \<Rightarrow> (RouteNotFound, evs))"
| "route_loop env q rejected (relayID # rs) evs =
     (case ask env q relayID evs of
        (RouteOk w, evs') \<Rightarrow> (RouteOk w, evs')
      | (RouteRejected c, evs') \<Rightarrow>
          route_loop env q (if rejected = None \<and> c \<noteq> re_defaultCode env then Some c else rejected) rs evs'
      | (_, evs') \<Rightarrow> route_loop env q rejected rs evs')"

definition route ::
  "('id, 'w) route_env \<Rightarrow> 'id in_query \<Rightarrow> 'id list \<Rightarrow> 'id route_event list \<Rightarrow>
     'w route_answer \<times> 'id route_event list" where
  "route env q relays evs = route_loop env q None relays evs"

definition RouteQuery ::
  "('id, 'w) route_env \<Rightarrow> 'id in_query \<Rightarrow> 'w route_answer \<times> 'id route_event list" where
  "RouteQuery env q =
     (if \<not> re_zoneNetwork env then (RouteNotFound, [])
      else if iq_Target q = re_self env then (RouteNotFound, [])
      else (case re_select env (iq_Target q) of
              Some link \<Rightarrow> (re_link env link, [Asked link])
            | None \<Rightarrow>
                (if re_ctxDone env then (RouteNotFound, [])
                 else (case re_retrieve env (iq_Target q) of
                         Inr link \<Rightarrow> (re_link env link, [Asked link])
                       | Inl e \<Rightarrow>
                           (case iq_Relays q of
                              RelayVia relays \<Rightarrow> route env q relays []
                            | _ \<Rightarrow> (RouteNotFound, []))))))"

subsection \<open>What the relays answer\<close>

text \<open>The answer of one relay, apart from the log, and the outcome over all of them.\<close>

definition relay_answer :: "('id, 'w) route_env \<Rightarrow> 'id in_query \<Rightarrow> 'id \<Rightarrow> 'w route_answer" where
  "relay_answer env q r = fst (ask env q r [])"

lemma ask_answer: "fst (ask env q r evs) = relay_answer env q r"
  by (simp add: relay_answer_def ask_def reachRelay_def sendCallerProof_def
      split: sum.split option.split bool.split)

text \<open>
  The specification: the first acceptance, else the first rejection with a code of its own,
  else no route.
\<close>

fun is_ok :: "'w route_answer \<Rightarrow> bool" where
  "is_ok (RouteOk w) = True" | "is_ok _ = False"

fun telling :: "8 word \<Rightarrow> 'w route_answer \<Rightarrow> bool" where
  "telling d (RouteRejected c) = (c \<noteq> d)" | "telling d _ = False"

definition relays_outcome :: "8 word \<Rightarrow> 'w route_answer list \<Rightarrow> 'w route_answer" where
  "relays_outcome d as =
     (case find is_ok as of
        Some a \<Rightarrow> a
      | None \<Rightarrow> (case find (telling d) as of Some a \<Rightarrow> a | None \<Rightarrow> RouteNotFound))"

lemma route_loop_answer:
  "fst (route_loop env q rejected rs evs) =
     (let as = map (relay_answer env q) rs in
      case find is_ok as of
        Some a \<Rightarrow> a
      | None \<Rightarrow> (case rejected of Some c \<Rightarrow> RouteRejected c
                 | None \<Rightarrow> relays_outcome (re_defaultCode env) as))"
proof (induction rs arbitrary: rejected evs)
  case Nil
  then show ?case by (simp add: relays_outcome_def split: option.split)
next
  case (Cons r rs)
  have a: "fst (ask env q r evs) = relay_answer env q r" by (rule ask_answer)
  obtain x evs' where x: "ask env q r evs = (x, evs')" by (cases "ask env q r evs") auto
  with a have ra: "relay_answer env q r = x" by simp
  show ?case by (cases x) (simp_all add: x ra Cons relays_outcome_def Let_def split: option.split)
qed

text \<open>What is in the log: who was asked, and that proofs come first.\<close>

definition proof_first :: "('id, 'w) route_env \<Rightarrow> 'id in_query \<Rightarrow> 'id route_event list \<Rightarrow> bool" where
  "proof_first env q evs \<longleftrightarrow>
     (re_ctxIdentity env \<noteq> iq_Caller q \<longrightarrow>
        (\<forall>i l. i < length evs \<longrightarrow> evs ! i = Asked l \<longrightarrow>
           0 < i \<and> (\<exists>r. evs ! (i - 1) = ProofPushed r \<and>
             (re_select env r = Some l \<or> re_retrieve env r = Inr l) \<and> r \<noteq> iq_Target q)))"

lemma proof_first_empty: "proof_first env q []"
  by (simp add: proof_first_def)

lemma ask_proof_first:
  assumes "proof_first env q evs"
  shows "proof_first env q (snd (ask env q r evs))"
proof -
  have app: "proof_first env q (evs @ [ProofPushed r])"
    using assms by (auto simp: proof_first_def nth_append less_Suc_eq)
  have both: "proof_first env q (evs @ [ProofPushed r, Asked l])"
    if "re_select env r = Some l \<or> re_retrieve env r = Inr l" "r \<noteq> iq_Target q" for l
    using assms that by (auto simp: proof_first_def nth_append less_Suc_eq nth_Cons split: nat.splits)
  have same: "proof_first env q (evs @ [Asked l])" if "re_ctxIdentity env = iq_Caller q" for l
    using that by (simp add: proof_first_def)
  show ?thesis
    using assms app both same
    by (auto simp: ask_def reachRelay_def sendCallerProof_def split: sum.splits option.splits bool.splits if_splits)
qed

lemma route_loop_proof_first:
  "proof_first env q evs \<Longrightarrow> proof_first env q (snd (route_loop env q rejected rs evs))"
proof (induction rs arbitrary: rejected evs)
  case (Cons r rs)
  obtain x evs' where x: "ask env q r evs = (x, evs')" by (cases "ask env q r evs") auto
  with ask_proof_first [OF Cons.prems, of r] Cons.IH show ?case
    by (cases x) auto
qed (simp split: option.split)

text \<open>A relay behind the first that accepts is not asked.\<close>

lemma route_loop_stops:
  "is_ok (relay_answer env q r) \<Longrightarrow> \<forall>x \<in> set as. \<not> is_ok (relay_answer env q x) \<Longrightarrow>
   route_loop env q rejected (as @ r # bs) evs = route_loop env q rejected (as @ [r]) evs"
proof (induction as arbitrary: rejected evs)
  case Nil
  obtain x evs' where x: "ask env q r evs = (x, evs')" by (cases "ask env q r evs") auto
  with ask_answer [of env q r evs] Nil(1) have "is_ok x" by simp
  then show ?case by (cases x) (simp_all add: x)
next
  case (Cons y as)
  obtain x evs' where x: "ask env q y evs = (x, evs')" by (cases "ask env q y evs") auto
  from Cons.prems have "\<forall>x \<in> set as. \<not> is_ok (relay_answer env q x)" by simp
  note ih = Cons.IH [OF Cons.prems(1) this]
  show ?case by (cases x) (simp_all add: x ih)
qed

subsection \<open>Properties\<close>

text \<open>
  C28.  The outcome of routing through relays.  The answer is the first acceptance in the order
  of the relays; without one, the first rejection with a code of its own; without one, that there
  is no route.  The relays behind the first that accepts are never asked.  A relay that was not
  reached counts as no route, and so does the target itself as a relay.
\<close>

theorem relay_outcome:
  assumes "q = \<lparr>iq_Caller = caller, iq_Target = target, iq_Relays = RelayVia relays\<rparr>"
    and "re_zoneNetwork env" and "target \<noteq> re_self env" and "re_select env target = None"
    and "\<not> re_ctxDone env" and "re_retrieve env target = Inl e"
  shows "fst (RouteQuery env q) = relays_outcome (re_defaultCode env) (map (relay_answer env q) relays) \<and>
         relay_answer env q target = RouteNotFound \<and>
         (\<forall>as r bs. relays = as @ r # bs \<and> is_ok (relay_answer env q r) \<and>
            (\<forall>x \<in> set as. \<not> is_ok (relay_answer env q x)) \<longrightarrow>
            RouteQuery env q = route env q (as @ [r]) [])"
proof -
  have r: "RouteQuery env q = route env q relays []" using assms by (simp add: RouteQuery_def)
  have "relay_answer env q target = RouteNotFound"
    using assms(1) by (simp add: relay_answer_def ask_def reachRelay_def)
  moreover have "fst (RouteQuery env q) = relays_outcome (re_defaultCode env) (map (relay_answer env q) relays)"
    unfolding r route_def route_loop_answer
    by (simp add: relays_outcome_def Let_def split: option.split)
  moreover have "RouteQuery env q = route env q (as @ [x]) []"
    if "relays = as @ x # bs" "is_ok (relay_answer env q x)" "\<forall>y \<in> set as. \<not> is_ok (relay_answer env q y)"
    for as x bs
    using route_loop_stops [OF that(2,3)] that(1) by (simp add: r route_def)
  ultimately show ?thesis by blast
qed

text \<open>
  C29.  A relay is asked on somebody's behalf only with proof.  If the caller of a query is not
  the identity of the context, every link that is asked through \<open>route\<close> leads to a relay that
  is not the target, and the caller's proof was pushed to that relay just before.
\<close>

theorem relays_get_proof:
  assumes "re_ctxIdentity env \<noteq> iq_Caller q" and "i < length (snd (route env q relays []))"
    and "snd (route env q relays []) ! i = Asked l"
  shows "0 < i \<and> (\<exists>r. snd (route env q relays []) ! (i - 1) = ProofPushed r \<and> r \<noteq> iq_Target q \<and>
           (re_select env r = Some l \<or> re_retrieve env r = Inr l))"
  using route_loop_proof_first [OF proof_first_empty, of env q None relays] assms
  by (auto simp: proof_first_def route_def)

definition demo_env :: "(nat, nat) route_env" where
  "demo_env =
     \<lparr>re_select = (\<lambda>i. if i = 9 then None else Some (10 * i)), re_retrieve = (\<lambda>_. Inl ErrLinkNotProduced),
      re_link = (\<lambda>l. if l = 10 then RouteRejected 4 else if l = 20 then RouteOk 5 else RouteNotFound),
      re_push = (\<lambda>_. None), re_proof = Some True, re_ctxIdentity = 0, re_self = 7,
      re_zoneNetwork = True, re_ctxDone = False, re_defaultCode = 1\<rparr>"

definition demo_query :: "nat list \<Rightarrow> nat in_query" where
  "demo_query relays = \<lparr>iq_Caller = 8, iq_Target = 9, iq_Relays = RelayVia relays\<rparr>"

theorem relay_outcome_witness:
  "fst (RouteQuery demo_env (demo_query [9, 1])) = RouteRejected 4 \<and>
   fst (RouteQuery demo_env (demo_query [9, 1, 2, 3])) = RouteOk 5"
  using relay_outcome [of "demo_query [9, 1]" 8 9 "[9, 1]" demo_env ErrLinkNotProduced]
    relay_outcome [of "demo_query [9, 1, 2, 3]" 8 9 "[9, 1, 2, 3]" demo_env ErrLinkNotProduced]
  by (simp add: demo_query_def demo_env_def relays_outcome_def relay_answer_def ask_def reachRelay_def
      sendCallerProof_def)

theorem relays_get_proof_witness:
  "snd (route demo_env (demo_query [1]) [1] []) = [ProofPushed 1, Asked 10] \<and> 0 < (1 :: nat)"
proof -
  have s: "snd (route demo_env (demo_query [1]) [1] []) = [ProofPushed 1, Asked 10]"
    by (simp add: route_def demo_query_def demo_env_def ask_def reachRelay_def sendCallerProof_def)
  with relays_get_proof [of demo_env "demo_query [1]" 1 "[1]" 10] show ?thesis
    by (simp add: demo_env_def demo_query_def)
qed

end
