(* ===== verification/Connectivity.thy ===== *)
theory Connectivity
  imports Link_Strategies
begin

section \<open>Upgrades, observed endpoints and link events (\<open>connectivity_upgrade.go\<close>, \<open>ip_candidate_finder.go\<close>, \<open>object_receiver.go\<close>)\<close>

text \<open>
  What the node does when a link comes under pressure, the cache of the addresses its peers
  have observed, and the dispatch of the objects it receives.  The order in which Go ranges over
  a map and the sort of the standard library, which is not stable, are arguments with what the
  language promises of them.
\<close>

subsection \<open>Choosing a better link\<close>

definition upgrade_alternatives :: "'id \<Rightarrow> nonce \<Rightarrow> ('id, 'st) LinkPool \<Rightarrow> nat list" where
  "upgrade_alternatives remote linkID p =
     filter (\<lambda>l. lk_remote (pl_node p) l = remote \<and> lk_id (n_links (pl_node p) l) \<noteq> linkID) (pl_links p)"

text \<open>\<open>slices.SortFunc\<close>: some permutation in which no later element compares less.\<close>

type_synonym sort_func = "(nat \<Rightarrow> nat \<Rightarrow> int) \<Rightarrow> nat list \<Rightarrow> nat list"

definition sort_law :: "sort_func \<Rightarrow> bool" where
  "sort_law sortf \<longleftrightarrow>
     (\<forall>cmp xs. set (sortf cmp xs) = set xs \<and> length (sortf cmp xs) = length xs) \<and>
     (\<forall>key xs. sorted (map (key :: nat \<Rightarrow> int) (sortf (\<lambda>a b. key a - key b) xs)))"

definition pressure_cmp :: "'id node \<Rightarrow> nat \<Rightarrow> nat \<Rightarrow> int" where
  "pressure_cmp n a b =
     (if (lk_pressure (n_links n a) = None) = (lk_pressure (n_links n b) = None) then 0
      else if lk_pressure (n_links n a) = None then - 1
      else 1)"

definition upgrade_target ::
  "sort_func \<Rightarrow> nodes_err + nat \<Rightarrow> 'id \<Rightarrow> nonce \<Rightarrow> ('id, 'st) LinkPool \<Rightarrow> nat option" where
  "upgrade_target sortf retrieved remote linkID p =
     (case sortf (pressure_cmp (pl_node p)) (upgrade_alternatives remote linkID p) of
        t # _ \<Rightarrow> Some t
      | [] \<Rightarrow> (case retrieved of Inl e \<Rightarrow> None | Inr t \<Rightarrow> Some t))"

text \<open>
  Moving the sessions: \<open>keys\<close> is the order of the map, \<open>migrate\<close> the outcome of one migration.
  The result is the sessions tried, in order, and how many were moved.
\<close>

definition migrateSessions ::
  "(nat \<Rightarrow> nodes_err option) \<Rightarrow> nonce list \<Rightarrow> nonce \<Rightarrow> 'id node \<Rightarrow> nat list \<times> nat" where
  "migrateSessions migrate keys oldLinkID n =
     (case getLinkByID oldLinkID n of
        None \<Rightarrow> ([], 0)
      | Some oldLink \<Rightarrow>
          (let ss = migratable keys oldLink n
           in (ss, length (filter (\<lambda>s. migrate s = None) ss))))"

definition connectivityUpgrade ::
  "sort_func \<Rightarrow> nodes_err + nat \<Rightarrow> (nat \<Rightarrow> nat \<Rightarrow> nodes_err option) \<Rightarrow> nonce list \<Rightarrow> 'id \<Rightarrow> nonce \<Rightarrow>
     ('id, 'st) LinkPool \<Rightarrow> (nat \<times> nat list \<times> nat) option" where
  "connectivityUpgrade sortf retrieved migrate keys remote linkID p =
     (case upgrade_target sortf retrieved remote linkID p of
        None \<Rightarrow> None
      | Some t \<Rightarrow> Some (t, migrateSessions (migrate t) keys linkID (pl_node p)))"

lemma pressure_cmp_key:
  "pressure_cmp n = (\<lambda>a b. (if lk_pressure (n_links n a) = None then 0 else 1) -
                            (if lk_pressure (n_links n b) = None then 0 else 1))"
  by (auto simp: pressure_cmp_def fun_eq_iff)

lemma sorted_target:
  assumes "sort_law sortf" and "sortf (pressure_cmp n) xs = t # ts"
  shows "t \<in> set xs \<and> (lk_pressure (n_links n t) \<noteq> None \<longrightarrow> (\<forall>x \<in> set xs. lk_pressure (n_links n x) \<noteq> None))"
proof -
  define key where "key a = (if lk_pressure (n_links n a) = None then 0 else (1 :: int))" for a
  have cmp: "pressure_cmp n = (\<lambda>a b. key a - key b)" by (simp add: pressure_cmp_key key_def)
  have "set (t # ts) = set xs" "sorted (map key (t # ts))"
    using assms unfolding sort_law_def cmp by metis+
  then have "t \<in> set xs" "\<And>x. x \<in> set xs \<Longrightarrow> key t \<le> key x" by auto
  then show ?thesis by (fastforce simp: key_def split: if_splits)
qed

subsection \<open>Observed endpoints\<close>

definition ipCacheSize :: nat where "ipCacheSize = 8"

record 'ip ObservedEndpoint =
  oe_IP :: 'ip
  oe_Observed :: int

type_synonym 'ip observed = "string \<rightharpoonup> 'ip ObservedEndpoint"

type_synonym 'ip observed_set = "'ip observed \<Rightarrow> string \<Rightarrow> 'ip ObservedEndpoint \<Rightarrow> 'ip observed"

text \<open>\<open>sig.Map.Set\<close>, as for sessions: an entry that is there stays.\<close>

definition observed_set_law :: "'ip observed_set \<Rightarrow> bool" where
  "observed_set_law oset \<longleftrightarrow>
     (\<forall>m k v. oset m k v = (case m k of Some x \<Rightarrow> m | None \<Rightarrow> m(k \<mapsto> v)))"

text \<open>The order of a clone: every key once.\<close>

definition order_law :: "('ip observed \<Rightarrow> string list) \<Rightarrow> bool" where
  "order_law order \<longleftrightarrow> (\<forall>m. finite (dom m) \<longrightarrow> distinct (order m) \<and> set (order m) = dom m)"

definition PublicIPCandidates :: "('ip observed \<Rightarrow> string list) \<Rightarrow> 'ip observed \<Rightarrow> 'ip list" where
  "PublicIPCandidates order cache = map (\<lambda>k. oe_IP (the (cache k))) (order cache)"

fun oldest_loop :: "'ip observed \<Rightarrow> string \<Rightarrow> string list \<Rightarrow> string \<times> int \<times> bool \<Rightarrow> string" where
  "oldest_loop cache key [] (oldestKey, oldestTime, first) = oldestKey"
| "oldest_loop cache key (k # ks) (oldestKey, oldestTime, first) =
     (if k = key then oldest_loop cache key ks (oldestKey, oldestTime, first)
      else if first \<or> oe_Observed (the (cache k)) < oldestTime
      then oldest_loop cache key ks (k, oe_Observed (the (cache k)), False)
      else oldest_loop cache key ks (oldestKey, oldestTime, first))"

definition AddObservedEndpoint ::
  "'ip observed_set \<Rightarrow> ('ip observed \<Rightarrow> string list) \<Rightarrow> string \<Rightarrow> 'ip \<Rightarrow> int \<Rightarrow> 'ip observed \<Rightarrow> 'ip observed" where
  "AddObservedEndpoint oset order key ip now cache =
     (let cache1 = oset cache key \<lparr>oe_IP = ip, oe_Observed = now\<rparr>
      in (if length (order cache1) > ipCacheSize
          then (let oldestKey = oldest_loop cache1 key (order cache1) ([], 0, True)
                in (if oldestKey \<noteq> [] then cache1(oldestKey := None) else cache1))
          else cache1))"

lemma oldest_loop_spec:
  assumes "\<forall>k \<in> set ks. k \<noteq> key \<longrightarrow> k \<noteq> []"
  shows "(fst3 \<noteq> [] \<and> \<not> first \<or> fst3 = [] \<and> first) \<Longrightarrow>
    (let r = oldest_loop cache key ks (fst3, t, first) in
     (r = [] \<longleftrightarrow> first \<and> (\<forall>k \<in> set ks. k = key)) \<and>
     (r \<noteq> [] \<longrightarrow> (r = fst3 \<and> \<not> first \<and> (\<forall>k \<in> set ks. k \<noteq> key \<longrightarrow> t \<le> oe_Observed (the (cache k)))) \<or>
        (r \<in> set ks \<and> r \<noteq> key \<and> (\<not> first \<longrightarrow> oe_Observed (the (cache r)) < t) \<and>
         (\<forall>k \<in> set ks. k \<noteq> key \<longrightarrow> oe_Observed (the (cache r)) \<le> oe_Observed (the (cache k))))))"
  using assms
proof (induction ks arbitrary: fst3 t first)
  case Nil
  then show ?case by (auto simp: Let_def)
next
  case (Cons k ks)
  have ks: "\<forall>k \<in> set ks. k \<noteq> key \<longrightarrow> k \<noteq> []" using Cons.prems(2) by simp
  show ?case
  proof (cases "k = key")
    case True
    with Cons.IH [OF Cons.prems(1) ks, of t] show ?thesis by (simp add: Let_def) blast
  next
    case False
    then have k: "k \<noteq> []" using Cons.prems(2) by simp
    show ?thesis
    proof (cases "first \<or> oe_Observed (the (cache k)) < t")
      case True
      have "k \<noteq> [] \<and> \<not> False \<or> k = [] \<and> False" using k by simp
      from Cons.IH [OF this ks, of "oe_Observed (the (cache k))"] True False k Cons.prems(1)
      show ?thesis by (fastforce simp: Let_def)
    next
      case other: False
      with Cons.IH [OF Cons.prems(1) ks, of t] False show ?thesis by (fastforce simp: Let_def)
    qed
  qed
qed

subsection \<open>Objects that arrive\<close>

text \<open>
  The objects the node acts on: an observation with its TCP endpoint, if it has one, with its
  address and whether its IP is public; and events about links.
\<close>

datatype ('id, 'ip) drop_object =
    ObservedEndpointMessage "(string \<times> 'ip \<times> bool) option"
  | LinkPressure 'id nonce
  | LinkCreated 'id "32 word"
  | OtherEvent
  | OtherObject

datatype ('id, 'ip) receive_action =
    AcceptDrop
  | AddObserved string 'ip
  | StartUpgrade 'id nonce
  | RefreshEndpoints 'id

definition receiveObservedEndpointMessage ::
  "('id \<Rightarrow> bool) \<Rightarrow> 'id \<Rightarrow> ('id, 'st) LinkPool \<Rightarrow> 'id \<Rightarrow> (string \<times> 'ip \<times> bool) option \<Rightarrow>
     ('id, 'ip) receive_action list option" where
  "receiveObservedEndpointMessage isZero self p source ep =
     (if isZero source \<or> source = self \<or> \<not> IsLinked source p then None
      else (case ep of
              None \<Rightarrow> None
            | Some (addr, ip, public) \<Rightarrow> (if \<not> public then None else Some [AddObserved addr ip])))"

fun ReceiveObject ::
  "('id \<Rightarrow> bool) \<Rightarrow> 'id \<Rightarrow> 'id list \<Rightarrow> ('id, 'st) LinkPool \<Rightarrow> 'id \<Rightarrow> ('id, 'ip) drop_object \<Rightarrow>
     ('id, 'ip) receive_action list" where
  "ReceiveObject isZero self swarm p sender (ObservedEndpointMessage ep) =
     (case receiveObservedEndpointMessage isZero self p sender ep of
        Some as \<Rightarrow> as @ [AcceptDrop]
      | None \<Rightarrow> [])"
| "ReceiveObject isZero self swarm p sender (LinkPressure remote linkID) =
     (if sender \<noteq> self then [] else [StartUpgrade remote linkID])"
| "ReceiveObject isZero self swarm p sender (LinkCreated remote linkCount) =
     (if sender \<noteq> self then []
      else if linkCount = 1 \<and> remote \<in> set swarm then [RefreshEndpoints remote] else [])"
| "ReceiveObject isZero self swarm p sender OtherEvent = []"
| "ReceiveObject isZero self swarm p sender OtherObject = []"

subsection \<open>Properties\<close>

text \<open>
  Where sessions go when a link is under pressure.  The target of an upgrade among the
  existing links is another link to the same peer, one that is watched for pressure itself only
  if all of them are; and a new link is asked for only when there is no other.
\<close>

lemma upgrade_target_better:
  assumes "sort_law sortf" and "upgrade_target sortf retrieved remote linkID p = Some t"
  shows "if upgrade_alternatives remote linkID p = [] then retrieved = Inr t
         else t \<in> set (pl_links p) \<and> lk_remote (pl_node p) t = remote \<and>
           lk_id (n_links (pl_node p) t) \<noteq> linkID \<and>
           (lk_pressure (n_links (pl_node p) t) \<noteq> None \<longrightarrow>
              (\<forall>x \<in> set (upgrade_alternatives remote linkID p). lk_pressure (n_links (pl_node p) x) \<noteq> None))"
proof (cases "sortf (pressure_cmp (pl_node p)) (upgrade_alternatives remote linkID p)")
  case Nil
  then have "upgrade_alternatives remote linkID p = []"
    using assms(1) unfolding sort_law_def by (metis length_0_conv)
  with Nil assms(2) show ?thesis by (simp add: upgrade_target_def split: sum.splits)
next
  case (Cons x xs)
  with assms(2) have "x = t" by (simp add: upgrade_target_def)
  with sorted_target [OF assms(1) Cons]
  have t: "t \<in> set (upgrade_alternatives remote linkID p)"
    "lk_pressure (n_links (pl_node p) t) \<noteq> None \<longrightarrow>
      (\<forall>x \<in> set (upgrade_alternatives remote linkID p). lk_pressure (n_links (pl_node p) x) \<noteq> None)" by auto
  then have "upgrade_alternatives remote linkID p \<noteq> []" by auto
  moreover have "t \<in> set (pl_links p) \<and> lk_remote (pl_node p) t = remote \<and> lk_id (n_links (pl_node p) t) \<noteq> linkID"
    using t(1) by (simp add: upgrade_alternatives_def)
  ultimately show ?thesis using t(2) by simp
qed

text \<open>
  The cache of observed endpoints stays within its size.  From a cache of at most eight
  entries an addition leads to one of at most eight, with the new address in it; and if an entry
  is evicted it is another one, of the oldest among the others.
\<close>

lemma observed_cache_bounded:
  assumes "observed_set_law oset" and "order_law order" and "finite (dom cache)" and "card (dom cache) \<le> ipCacheSize"
    and "[] \<notin> insert key (dom cache)"
  shows "card (dom (AddObservedEndpoint oset order key ip now cache)) \<le> ipCacheSize \<and>
         key \<in> dom (AddObservedEndpoint oset order key ip now cache) \<and>
         (\<forall>k \<in> dom cache - dom (AddObservedEndpoint oset order key ip now cache).
            k \<noteq> key \<and> (\<forall>x \<in> dom cache - {key}. oe_Observed (the (cache k)) \<le> oe_Observed (the (cache x))))"
proof -
  define c1 where "c1 = oset cache key \<lparr>oe_IP = ip, oe_Observed = now\<rparr>"
  have c1: "dom c1 = insert key (dom cache)" "\<And>k. k \<in> dom cache \<Longrightarrow> c1 k = cache k"
    using assms(1) by (auto simp: c1_def observed_set_law_def split: option.splits if_splits)
  then have fin: "finite (dom c1)" using assms(3) by simp
  then have ord: "distinct (order c1)" "set (order c1) = dom c1" using assms(2) by (auto simp: order_law_def)
  have len: "length (order c1) = card (dom c1)" using ord by (metis distinct_card)
  show ?thesis
  proof (cases "length (order c1) > ipCacheSize")
    case False
    then have r: "AddObservedEndpoint oset order key ip now cache = c1"
      by (simp add: AddObservedEndpoint_def c1_def)
    show ?thesis unfolding r using False len c1(1) by auto
  next
    case True
    let ?r = "oldest_loop c1 key (order c1) ([], 0, True)"
    have ks: "\<forall>k \<in> set (order c1). k \<noteq> key \<longrightarrow> k \<noteq> []" using ord c1(1) assms(5) by auto
    have new: "key \<notin> dom cache"
    proof
      assume "key \<in> dom cache"
      then have "dom c1 = dom cache" using c1(1) by (simp only: insert_absorb)
      with True len assms(4) show False by simp
    qed
    have "\<exists>k \<in> set (order c1). k \<noteq> key"
    proof (rule ccontr)
      assume "\<not> ?thesis"
      then have "dom c1 \<subseteq> {key}" using ord by auto
      then have "card (dom c1) \<le> card {key}" by (intro card_mono) simp_all
      with True len show False by (simp add: ipCacheSize_def)
    qed
    with oldest_loop_spec [OF ks, of "[]" True c1 0] have
      v: "?r \<noteq> []" "?r \<in> dom c1" "?r \<noteq> key"
      "\<And>k. k \<in> dom c1 \<Longrightarrow> k \<noteq> key \<Longrightarrow> oe_Observed (the (c1 ?r)) \<le> oe_Observed (the (c1 k))"
      using ord by (auto simp: Let_def)
    have r: "AddObservedEndpoint oset order key ip now cache = c1(?r := None)"
      using True v(1) by (simp add: AddObservedEndpoint_def c1_def Let_def)
    have dom: "dom (c1(?r := None)) = dom c1 - {?r}" by simp
    have card: "card (dom c1) = Suc (card (dom cache))" using c1(1) new assms(3) by simp
    have "card (dom c1 - {?r}) = card (dom cache)" using v(2) fin card by simp
    then have 1: "card (dom c1 - {?r}) \<le> ipCacheSize" using assms(4) by simp
    have 2: "key \<in> dom c1 - {?r}" using c1(1) v(3) by auto
    have "?r \<in> dom cache" using v(2,3) c1(1) by auto
    then have 3: "k \<noteq> key \<and> (\<forall>x \<in> dom cache - {key}. oe_Observed (the (cache k)) \<le> oe_Observed (the (cache x)))"
      if "k \<in> dom cache - (dom c1 - {?r})" for k
    proof -
      from that c1(1) have k: "k = ?r" by auto
      have "oe_Observed (the (c1 k)) \<le> oe_Observed (the (c1 x))" if "x \<in> dom cache - {key}" for x
        using v(4) [of x] that c1(1) by (simp add: k)
      then show ?thesis using v(3) \<open>?r \<in> dom cache\<close> by (simp add: k c1(2))
    qed
    show ?thesis unfolding r dom using 1 2 3 by blast
  qed
qed

text \<open>
  Observing a known address again changes nothing: neither the stored IP nor the time of
  the observation is renewed.
\<close>

lemma observed_not_renewed:
  assumes "observed_set_law oset" and "key \<in> dom cache" and "length (order cache) \<le> ipCacheSize"
  shows "AddObservedEndpoint oset order key ip now cache = cache"
  using assms by (auto simp: AddObservedEndpoint_def observed_set_law_def)

text \<open>
  Only the node itself reports its links, and only linked peers report its address.  An
  event of another sender has no effect at all; an observation has one exactly if it comes from
  another node that is linked right now and names a public address, and only then is the object
  accepted.
\<close>

lemma forged_objects_ignored:
  "(sender \<noteq> self \<longrightarrow>
      ReceiveObject isZero self swarm p sender (LinkPressure remote i) = [] \<and>
      ReceiveObject isZero self swarm p sender (LinkCreated remote k) = []) \<and>
   (ReceiveObject isZero self swarm p sender (ObservedEndpointMessage ep) \<noteq> [] \<longleftrightarrow>
      \<not> isZero sender \<and> sender \<noteq> self \<and> SelectLinkWith sender p \<noteq> None \<and>
      (\<exists>addr ip. ep = Some (addr, ip, True))) \<and>
   (AcceptDrop \<in> set (ReceiveObject isZero self swarm p sender obj) \<longrightarrow>
      (\<exists>addr ip. obj = ObservedEndpointMessage (Some (addr, ip, True)) \<and>
         AddObserved addr ip \<in> set (ReceiveObject isZero self swarm p sender obj)))"
  by (cases obj)
    (auto simp: receiveObservedEndpointMessage_def IsLinked_def split: option.splits if_splits)

text \<open>Instances for the witnesses: an insertion sort, and the library's map.\<close>

fun ins_by :: "(nat \<Rightarrow> nat \<Rightarrow> int) \<Rightarrow> nat \<Rightarrow> nat list \<Rightarrow> nat list" where
  "ins_by cmp x [] = [x]"
| "ins_by cmp x (y # ys) = (if cmp x y \<le> 0 then x # y # ys else y # ins_by cmp x ys)"

definition isort_by :: sort_func where
  "isort_by cmp xs = foldr (ins_by cmp) xs []"

lemma ins_by_set [simp]: "set (ins_by cmp x ys) = insert x (set ys)" "length (ins_by cmp x ys) = Suc (length ys)"
  by (induction ys) auto

lemma ins_by_sorted: "sorted (map key ys) \<Longrightarrow> sorted (map key (ins_by (\<lambda>a b. key a - key b) x ys))"
  by (induction ys) auto

lemma isort_by_law: "sort_law isort_by"
proof -
  have "set (isort_by cmp xs) = set xs \<and> length (isort_by cmp xs) = length xs" for cmp xs
    by (induction xs) (auto simp: isort_by_def)
  moreover have "sorted (map key (isort_by (\<lambda>a b. key a - key b) xs))" for key :: "nat \<Rightarrow> int" and xs
    by (induction xs) (auto simp: isort_by_def ins_by_sorted)
  ultimately show ?thesis by (simp add: sort_law_def)
qed

definition set_absent :: "'ip observed_set" where
  "set_absent m k v = (case m k of Some x \<Rightarrow> m | None \<Rightarrow> m(k \<mapsto> v))"

lemma set_absent_law: "observed_set_law set_absent"
  by (simp add: observed_set_law_def set_absent_def)

lemma upgrade_target_better_witness:
  "\<exists>t. upgrade_target isort_by (Inl ErrLinkNotProduced) 2 0 (upd_node (\<lambda>_. demo0) demo_pool) = Some t \<and>
     lk_remote demo0 t = 2 \<and> lk_id (n_links demo0 t) \<noteq> 0"
proof -
  let ?p = "upd_node (\<lambda>_. demo0) demo_pool"
  have a: "upgrade_alternatives 2 0 ?p = [1]"
    by (simp add: upgrade_alternatives_def demo0_def newLink_def newMux_def)
  then have "upgrade_target isort_by (Inl ErrLinkNotProduced) 2 0 ?p = Some 1"
    by (simp add: upgrade_target_def isort_by_def)
  with upgrade_target_better [OF isort_by_law this] a show ?thesis by auto
qed

lemma observed_cache_bounded_witness:
  "\<exists>order. card (dom (AddObservedEndpoint set_absent order ''a'' (1 :: nat) 5 Map.empty)) \<le> ipCacheSize"
proof -
  have "\<exists>xs. distinct xs \<and> set xs = dom m" if "finite (dom m)" for m :: "nat observed"
    using finite_distinct_list [OF that] by blast
  then obtain order :: "nat observed \<Rightarrow> string list" where "order_law order"
    unfolding order_law_def by metis
  from observed_cache_bounded [OF set_absent_law this, of Map.empty "''a''" 1 5] show ?thesis by auto
qed

lemma observed_not_renewed_witness:
  "AddObservedEndpoint set_absent (\<lambda>_. [''a'']) ''a'' 2 9 [''a'' \<mapsto> \<lparr>oe_IP = (1 :: nat), oe_Observed = 5\<rparr>] =
     [''a'' \<mapsto> \<lparr>oe_IP = 1, oe_Observed = 5\<rparr>]"
  using observed_not_renewed [OF set_absent_law, of "''a''" "[''a'' \<mapsto> \<lparr>oe_IP = (1 :: nat), oe_Observed = 5\<rparr>]"
      "\<lambda>_. [''a'']" 2 9]
  by (simp add: ipCacheSize_def)

lemma forged_objects_ignored_witness:
  "ReceiveObject (\<lambda>_. False) 1 [2] demo_pool 2 (LinkPressure 2 0 :: (nat, nat) drop_object) = []"
  using forged_objects_ignored [of 2 1 "\<lambda>_. False" "[2]" demo_pool 2 0 1 None OtherEvent] by simp

end
