(* ===== verification/Object_Store.thy ===== *)
theory Object_Store
  imports Prelude
begin

section \<open>The in-memory object repository (\<open>mod/objects\<close>, \<open>mod/objects/mem\<close>)\<close>

text \<open>
  Objects are byte strings named by their size and the hash of their content.  The
  in-memory repository keeps them in a map from hash to content under a quota; a writer
  buffers an object, charging the quota as it goes, and stores it on commit; a reader serves
  a window of a stored object.

  The hash and \<open>sig.Map\<close> are code of another library.  The hash is an argument.  Of the map,
  \<open>Set\<close> and \<open>Delete\<close> are arguments with the laws the comments of the source rely on: \<open>Set\<close>
  keeps an entry that is there and says whether it stored, and \<open>Delete\<close> answers the entry to
  one caller only.  \<open>int64\<close> arithmetic is written with its wrap-around.

  A method is a function that runs it whole, composed of its atomic actions; theory
  \<open>Object_Runs\<close> interleaves those actions.
\<close>

named_theorems mem_defs \<open>unfolding of the repository operations\<close>

subsection \<open>Signed 64-bit integers\<close>

definition MaxInt64 :: int where "MaxInt64 = 2 ^ 63 - 1"

definition int64 :: "int \<Rightarrow> int" where
  "int64 x = (x + 2 ^ 63) mod 2 ^ 64 - 2 ^ 63"

lemma int64_id: "- (2 ^ 63) \<le> x \<Longrightarrow> x < 2 ^ 63 \<Longrightarrow> int64 x = x"
  by (simp add: int64_def)

lemma int64_range: "- (2 ^ 63) \<le> int64 x \<and> int64 x < 2 ^ 63"
  unfolding int64_def using pos_mod_bound [of "2 ^ 64" "x + 2 ^ 63"] pos_mod_sign [of "2 ^ 64" "x + 2 ^ 63"]
  by simp

subsection \<open>Names, errors, contexts\<close>

record 'h ObjectID =
  oid_Size :: "64 word"
  oid_Hash :: 'h

datatype obj_err =
    ErrNotFound | ErrObjectTooLarge | ErrOutOfBounds | ErrNoSpaceLeft | ErrClosedPipe
  | ErrHashLookupUnsupported | ErrAmbiguousObjectID | ErrUnsupported | ErrZoneExcluded
  | ErrOsClosed | ErrEOF | ErrContext | ErrRepoGroupEmpty | ErrRepoNotFound string
  | ErrAlreadyAdded string | ErrNotAGroup string | ErrNameEmpty | ErrSetMember
  | ErrJoined "obj_err list"

text \<open>\<open>errors.Is\<close> looks through joined errors.\<close>

fun errors_Is :: "obj_err \<Rightarrow> obj_err \<Rightarrow> bool" where
  "errors_Is (ErrJoined es) target \<longleftrightarrow> ErrJoined es = target \<or> (\<exists>e \<in> set es. errors_Is e target)"
| "errors_Is e target \<longleftrightarrow> e = target"

text \<open>
  What a repository sees of an \<open>astral.Context\<close>: whether its zone includes the device, and
  what the successive calls of \<open>Err\<close> answer.
\<close>

record Context =
  cx_device :: bool
  cx_Err :: "nat \<Rightarrow> obj_err option"

text \<open>\<open>astral.Resolve\<close> names a content by its length and its hash.\<close>

definition Resolve :: "(bytes \<Rightarrow> 'h) \<Rightarrow> bytes \<Rightarrow> 'h ObjectID" where
  "Resolve hash data = \<lparr>oid_Size = of_nat (length data), oid_Hash = hash data\<rparr>"

definition ResolveReadLimit :: "'h ObjectID \<Rightarrow> int \<Rightarrow> int \<Rightarrow> obj_err + int" where
  "ResolveReadLimit objectID offset limit =
     (if uint (oid_Size objectID) > MaxInt64 \<or> offset < 0 \<or> limit < 0 then Inl ErrOutOfBounds
      else let remaining = int64 (uint (oid_Size objectID) - offset)
           in if remaining < 0 then Inl ErrOutOfBounds
              else if limit = 0 then Inr remaining
              else Inr (min limit remaining))"

definition IsOffsetLimitValid :: "'h ObjectID \<Rightarrow> int \<Rightarrow> int \<Rightarrow> bool" where
  "IsOffsetLimitValid objectID offset limit =
     (if offset < 0 \<or> offset > int64 (uint (oid_Size objectID)) then False
      else if limit < 0 \<or> int64 (offset + limit) > int64 (uint (oid_Size objectID)) then False
      else True)"

subsection \<open>Maps of the library\<close>

record ('k, 'v) map_ops =
  mp_Set :: "'k \<Rightarrow> 'v \<Rightarrow> ('k \<rightharpoonup> 'v) \<Rightarrow> bool \<times> ('k \<rightharpoonup> 'v)"
  mp_Delete :: "'k \<Rightarrow> ('k \<rightharpoonup> 'v) \<Rightarrow> 'v option \<times> ('k \<rightharpoonup> 'v)"

definition map_ops_law :: "('k, 'v) map_ops \<Rightarrow> bool" where
  "map_ops_law mo \<longleftrightarrow>
     (\<forall>k v m. mp_Set mo k v m = (case m k of None \<Rightarrow> (True, m(k \<mapsto> v)) | Some _ \<Rightarrow> (False, m))) \<and>
     (\<forall>k m. mp_Delete mo k m = (m k, m(k := None)))"

definition go_map :: "('k, 'v) map_ops" where
  "go_map =
     \<lparr>mp_Set = (\<lambda>k v m. if m k = None then (True, m(k \<mapsto> v)) else (False, m)),
      mp_Delete = (\<lambda>k m. (m k, m(k := None)))\<rparr>"

lemma go_map_law: "map_ops_law go_map"
  by (simp add: map_ops_law_def go_map_def split: option.split)

lemma map_ops_lawD:
  assumes "map_ops_law mo"
  shows "mp_Set mo k v m = (case m k of None \<Rightarrow> (True, m(k \<mapsto> v)) | Some _ \<Rightarrow> (False, m))"
    and "mp_Delete mo k m = (m k, m(k := None))"
  using assms by (simp_all add: map_ops_law_def)

subsection \<open>The repository\<close>

definition DefaultSize :: int where "DefaultSize = 64 * 1024 * 1024"

record 'h Repository =
  mr_objects :: "'h \<rightharpoonup> bytes"
  mr_used :: int
  mr_size :: int
  mr_name :: string
  mr_addQueue :: "'h ObjectID list"

definition mem_New :: "string \<Rightarrow> int \<Rightarrow> 'h Repository" where
  "mem_New name size' =
     \<lparr>mr_objects = Map.empty, mr_used = 0,
      mr_size = (if size' = 0 then DefaultSize else size'),
      mr_name = (if name = [] then ''Memory'' else name), mr_addQueue = []\<rparr>"

definition mem_Label :: "'h Repository \<Rightarrow> string" where
  "mem_Label repo = mr_name repo"

definition mem_Used :: "'h Repository \<Rightarrow> int" where
  "mem_Used repo = mr_used repo"

definition mem_Free :: "'h Repository \<Rightarrow> int" where
  "mem_Free repo = int64 (mr_size repo - mr_used repo)"

text \<open>
  One round of the loop of \<open>reserve\<close>, with the count it has loaded: \<open>None\<close> when the
  compare-and-swap failed and the loop goes round again.
\<close>

definition CompareAndSwap_used :: "int \<Rightarrow> int \<Rightarrow> 'h Repository \<Rightarrow> bool \<times> 'h Repository" where
  "CompareAndSwap_used old new repo =
     (if mr_used repo = old then (True, repo\<lparr>mr_used := new\<rparr>) else (False, repo))"

definition reserve_round :: "int \<Rightarrow> int \<Rightarrow> 'h Repository \<Rightarrow> bool option \<times> 'h Repository" where
  "reserve_round n used repo =
     (if int64 (used + n) > mr_size repo then (Some False, repo)
      else case CompareAndSwap_used used (int64 (used + n)) repo of
             (True, repo') \<Rightarrow> (Some True, repo')
           | (False, repo') \<Rightarrow> (None, repo'))"

definition reserve :: "int \<Rightarrow> 'h Repository \<Rightarrow> bool \<times> 'h Repository" where
  "reserve n repo = (case reserve_round n (mr_used repo) repo of (b, repo') \<Rightarrow> (b = Some True, repo'))"

definition release :: "int \<Rightarrow> 'h Repository \<Rightarrow> 'h Repository" where
  "release n repo = repo\<lparr>mr_used := int64 (mr_used repo - n)\<rparr>"

definition pushAdded :: "'h ObjectID \<Rightarrow> 'h Repository \<Rightarrow> 'h Repository" where
  "pushAdded i repo = repo\<lparr>mr_addQueue := mr_addQueue repo @ [i]\<rparr>"

record 'h storedObject =
  so_id :: "'h ObjectID"
  so_data :: bytes

definition findObject :: "'h ObjectID \<Rightarrow> 'h Repository \<Rightarrow> obj_err + 'h storedObject" where
  "findObject objectID repo =
     (case mr_objects repo (oid_Hash objectID) of
        None \<Rightarrow> Inl ErrNotFound
      | Some data \<Rightarrow>
          (let object = \<lparr>so_id = \<lparr>oid_Size = of_nat (length data), oid_Hash = oid_Hash objectID\<rparr>,
                         so_data = data\<rparr>
           in if oid_Size objectID \<noteq> 0 \<and> oid_Size objectID \<noteq> oid_Size (so_id object)
              then Inl ErrNotFound else Inr object))"

definition mem_Contains :: "'h ObjectID \<Rightarrow> 'h Repository \<Rightarrow> obj_err + bool" where
  "mem_Contains objectID repo =
     (case findObject objectID repo of
        Inl ErrNotFound \<Rightarrow> Inr False
      | Inl e \<Rightarrow> Inl e
      | Inr _ \<Rightarrow> Inr True)"

definition delete_entry :: "('h, bytes) map_ops \<Rightarrow> 'h ObjectID \<Rightarrow> 'h Repository \<Rightarrow> bytes option \<times> 'h Repository" where
  "delete_entry mo i repo =
     (case mp_Delete mo (oid_Hash i) (mr_objects repo) of
        (old, objs) \<Rightarrow> (old, repo\<lparr>mr_objects := objs\<rparr>))"

definition mem_Delete :: "('h, bytes) map_ops \<Rightarrow> 'h ObjectID \<Rightarrow> 'h Repository \<Rightarrow> obj_err option \<times> 'h Repository" where
  "mem_Delete mo objectID repo =
     (case findObject objectID repo of
        Inl e \<Rightarrow> (Some e, repo)
      | Inr object \<Rightarrow>
          (case delete_entry mo (so_id object) repo of
             (None, repo') \<Rightarrow> (Some ErrNotFound, repo')
           | (Some old, repo') \<Rightarrow> (None, release (int (length old)) repo')))"

subsection \<open>Readers\<close>

record 'h Reader =
  mrd_r :: bytes
  mrd_bytes :: bytes
  mrd_objectID :: "'h ObjectID"
  mrd_closed :: bool

definition NewReader :: "bytes \<Rightarrow> 'h ObjectID \<Rightarrow> 'h Reader" where
  "NewReader buf objectID = \<lparr>mrd_r = buf, mrd_bytes = buf, mrd_objectID = objectID, mrd_closed = False\<rparr>"

text \<open>\<open>bytes.Reader.Read\<close>: end of file once nothing is left, else what fits.\<close>

definition bytesReader_Read :: "nat \<Rightarrow> bytes \<Rightarrow> (bytes \<times> obj_err option) \<times> bytes" where
  "bytesReader_Read k r = (if r = [] then (([], Some ErrEOF), r) else ((take k r, None), drop k r))"

definition Reader_Read :: "nat \<Rightarrow> 'h Reader \<Rightarrow> (bytes \<times> obj_err option) \<times> 'h Reader" where
  "Reader_Read k r =
     (if mrd_closed r then (([], Some ErrOsClosed), r)
      else case bytesReader_Read k (mrd_r r) of (out, rest) \<Rightarrow> (out, r\<lparr>mrd_r := rest\<rparr>))"

definition Reader_Seek :: "int \<Rightarrow> nat \<Rightarrow> 'h Reader \<Rightarrow> int \<times> obj_err option" where
  "Reader_Seek offset whence r = (0, Some ErrUnsupported)"

definition Reader_Close :: "'h Reader \<Rightarrow> 'h Reader" where
  "Reader_Close r = r\<lparr>mrd_closed := True\<rparr>"

definition Reader_ID :: "'h Reader \<Rightarrow> 'h ObjectID" where
  "Reader_ID r = mrd_objectID r"

definition mem_Read :: "Context \<Rightarrow> 'h ObjectID \<Rightarrow> int \<Rightarrow> int \<Rightarrow> 'h Repository \<Rightarrow> obj_err + 'h Reader" where
  "mem_Read ctx objectID offset limit repo =
     (if \<not> cx_device ctx then Inl ErrZoneExcluded
      else case findObject objectID repo of
             Inl e \<Rightarrow> Inl e
           | Inr object \<Rightarrow>
               (case ResolveReadLimit (so_id object) offset limit of
                  Inl e \<Rightarrow> Inl e
                | Inr n \<Rightarrow> Inr (NewReader (take (nat n) (drop (nat offset) (so_data object))) (so_id object))))"

subsection \<open>Writers\<close>

record Writer =
  mw_buf :: "bytes option"
  mw_closed :: bool

definition NewWriter :: Writer where
  "NewWriter = \<lparr>mw_buf = Some [], mw_closed = False\<rparr>"

text \<open>\<open>Create\<close> with the \<open>Alloc\<close> of its options, when it is given some.\<close>

definition mem_Create :: "int option \<Rightarrow> 'h Repository \<Rightarrow> obj_err + Writer" where
  "mem_Create alloc repo =
     (case alloc of
        Some a \<Rightarrow> (if a > mem_Free repo then Inl ErrNoSpaceLeft else Inr NewWriter)
      | None \<Rightarrow> Inr NewWriter)"

definition buf_bytes :: "Writer \<Rightarrow> bytes" where
  "buf_bytes w = (case mw_buf w of None \<Rightarrow> [] | Some b \<Rightarrow> b)"

text \<open>\<open>bytes.Buffer.Write\<close> takes all of its input.\<close>

definition buf_Write :: "bytes \<Rightarrow> Writer \<Rightarrow> nat \<times> Writer" where
  "buf_Write p w = (length p, w\<lparr>mw_buf := Some (buf_bytes w @ p)\<rparr>)"

definition Writer_Write ::
  "bytes \<Rightarrow> Writer \<Rightarrow> 'h Repository \<Rightarrow> (nat \<times> obj_err option) \<times> Writer \<times> 'h Repository" where
  "Writer_Write p w repo =
     (if mw_closed w then ((0, Some ErrClosedPipe), w, repo)
      else case reserve (int (length p)) repo of
             (False, repo') \<Rightarrow> ((0, Some ErrNoSpaceLeft), w, repo')
           | (True, repo') \<Rightarrow>
               (case buf_Write p w of
                  (n, w') \<Rightarrow>
                    ((n, None), w',
                     if n < length p then release (int (length p) - int n) repo' else repo')))"

text \<open>The three atomic actions of \<open>Commit\<close>: closing the writer, storing, and the end.\<close>

definition close_writer :: "Writer \<Rightarrow> (bytes \<times> Writer) option" where
  "close_writer w = (if mw_closed w then None else Some (buf_bytes w, w\<lparr>mw_closed := True, mw_buf := None\<rparr>))"

definition commit_set :: "(bytes \<Rightarrow> 'h) \<Rightarrow> ('h, bytes) map_ops \<Rightarrow> bytes \<Rightarrow> 'h Repository \<Rightarrow> bool \<times> 'h Repository" where
  "commit_set hash mo buf repo =
     (case mp_Set mo (oid_Hash (Resolve hash buf)) buf (mr_objects repo) of
        (stored, objs) \<Rightarrow> (stored, repo\<lparr>mr_objects := objs\<rparr>))"

definition Writer_Commit ::
  "(bytes \<Rightarrow> 'h) \<Rightarrow> ('h, bytes) map_ops \<Rightarrow> Writer \<Rightarrow> 'h Repository \<Rightarrow>
     (obj_err + 'h ObjectID) \<times> Writer \<times> 'h Repository" where
  "Writer_Commit hash mo w repo =
     (case close_writer w of
        None \<Rightarrow> (Inl ErrClosedPipe, w, repo)
      | Some (buf, w') \<Rightarrow>
          (let objectID = Resolve hash buf
           in case commit_set hash mo buf repo of
                (False, repo') \<Rightarrow> (Inr objectID, w', release (int (length buf)) repo')
              | (True, repo') \<Rightarrow> (Inr objectID, w', pushAdded objectID repo')))"

definition Writer_Discard :: "Writer \<Rightarrow> 'h Repository \<Rightarrow> Writer \<times> 'h Repository" where
  "Writer_Discard w repo =
     (case close_writer w of
        None \<Rightarrow> (w, repo)
      | Some (buf, w') \<Rightarrow> (w', release (int (length buf)) repo))"

lemmas mem_op_defs [mem_defs] =
  mem_New_def mem_Label_def mem_Used_def mem_Free_def CompareAndSwap_used_def reserve_round_def reserve_def
  release_def pushAdded_def mem_Contains_def delete_entry_def mem_Delete_def NewReader_def
  Reader_Read_def Reader_Close_def Reader_ID_def NewWriter_def mem_Create_def
  buf_bytes_def buf_Write_def Writer_Write_def close_writer_def commit_set_def Writer_Commit_def Writer_Discard_def

subsection \<open>Scanning\<close>

text \<open>
  A scan that follows takes its place in the queue of additions first and clones the map
  second; \<open>Clone\<close> hands the entries out in any order.  What the scan emits, if its context
  does not end: the identifiers of the clone and, when it follows, the \<open>nil\<close> sentinel and what
  is pushed after its place.
\<close>

datatype 'h scan = ScanIdle | ScanSubscribed nat | ScanCloned nat "'h ObjectID list"

definition clone_ids :: "'h list \<Rightarrow> 'h Repository \<Rightarrow> 'h ObjectID list" where
  "clone_ids order repo =
     map (\<lambda>h. \<lparr>oid_Size = of_nat (length (case mr_objects repo h of Some d \<Rightarrow> d | None \<Rightarrow> [])),
               oid_Hash = h\<rparr>) order"

definition Scan_emits :: "bool \<Rightarrow> nat \<Rightarrow> 'h ObjectID list \<Rightarrow> 'h Repository \<Rightarrow> 'h ObjectID option list" where
  "Scan_emits follow pos snap repo =
     map Some snap @ (if follow then None # map Some (drop pos (mr_addQueue repo)) else [])"

end
