(* ===== verification/Object_Runs.thy ===== *)
theory Object_Runs
  imports Object_Store "HOL-Library.Multiset"
begin

section \<open>Concurrent use of the in-memory repository\<close>

text \<open>
  The writers of \<open>mod/objects/mem\<close>, deletions and a scan run in goroutines that share one
  repository without a lock around a whole method: the quota is kept by a compare-and-swap
  loop, the closing of a writer by another, the entries by the map.  The step relation
  interleaves these atomic actions.  Its invariants: the quota accounts for every byte that is
  stored, buffered or about to be released, and is never exceeded; every object is stored under
  the hash of its content; a scan that follows misses no object.
\<close>

subsection \<open>Interleavings\<close>

text \<open>
  The goroutines inside a method, each between two atomic actions.  Calls on one writer come
  one after the other, as for every \<open>io.Writer\<close>; calls on different writers, deletions and a
  scan interleave at every atomic action.
\<close>

datatype 'h call =
    WriteLoad nat bytes
  | WriteCAS nat bytes int
  | WriteBuf nat bytes
  | CommitSet nat bytes
  | CommitRelease nat int
  | CommitPush nat "'h ObjectID"
  | DiscardRelease nat int
  | DeleteEntry "'h ObjectID"
  | DeleteRelease int

fun call_writer :: "'h call \<Rightarrow> nat option" where
  "call_writer (WriteLoad w p) = Some w"
| "call_writer (WriteCAS w p u) = Some w"
| "call_writer (WriteBuf w p) = Some w"
| "call_writer (CommitSet w b) = Some w"
| "call_writer (CommitRelease w n) = Some w"
| "call_writer (CommitPush w i) = Some w"
| "call_writer (DiscardRelease w n) = Some w"
| "call_writer (DeleteEntry i) = None"
| "call_writer (DeleteRelease n) = None"

record 'h mem_run =
  mu_repo :: "'h Repository"
  mu_writers :: "nat \<Rightarrow> Writer"
  mu_next :: nat
  mu_calls :: "'h call multiset"
  mu_scan :: "'h scan"

definition writer_idle :: "nat \<Rightarrow> 'h mem_run \<Rightarrow> bool" where
  "writer_idle w s \<longleftrightarrow> w < mu_next s \<and> (\<forall>c \<in># mu_calls s. call_writer c \<noteq> Some w)"

text \<open>A slice of bytes is far below the range of \<open>int64\<close>: it fits the address space.\<close>

definition maxSlice :: nat where "maxSlice = 2 ^ 62"

inductive mem_step :: "(bytes \<Rightarrow> 'h) \<Rightarrow> ('h, bytes) map_ops \<Rightarrow> 'h mem_run \<Rightarrow> 'h mem_run \<Rightarrow> bool"
  for hash mo where
  ms_create: "mem_Create alloc (mu_repo s) = Inr w \<Longrightarrow>
     mem_step hash mo s (s\<lparr>mu_writers := (mu_writers s)(mu_next s := w), mu_next := Suc (mu_next s)\<rparr>)"
| ms_write: "writer_idle w s \<Longrightarrow> \<not> mw_closed (mu_writers s w) \<Longrightarrow> length p < maxSlice \<Longrightarrow>
     mem_step hash mo s (s\<lparr>mu_calls := add_mset (WriteLoad w p) (mu_calls s)\<rparr>)"
| ms_load: "mu_calls s = add_mset (WriteLoad w p) cs \<Longrightarrow>
     mem_step hash mo s (s\<lparr>mu_calls := add_mset (WriteCAS w p (mr_used (mu_repo s))) cs\<rparr>)"
| ms_cas_retry: "mu_calls s = add_mset (WriteCAS w p u) cs \<Longrightarrow>
     reserve_round (int (length p)) u (mu_repo s) = (None, r) \<Longrightarrow>
     mem_step hash mo s (s\<lparr>mu_repo := r, mu_calls := add_mset (WriteLoad w p) cs\<rparr>)"
| ms_cas_full: "mu_calls s = add_mset (WriteCAS w p u) cs \<Longrightarrow>
     reserve_round (int (length p)) u (mu_repo s) = (Some False, r) \<Longrightarrow>
     mem_step hash mo s (s\<lparr>mu_repo := r, mu_calls := cs\<rparr>)"
| ms_cas_ok: "mu_calls s = add_mset (WriteCAS w p u) cs \<Longrightarrow>
     reserve_round (int (length p)) u (mu_repo s) = (Some True, r) \<Longrightarrow>
     mem_step hash mo s (s\<lparr>mu_repo := r, mu_calls := add_mset (WriteBuf w p) cs\<rparr>)"
| ms_buf: "mu_calls s = add_mset (WriteBuf w p) cs \<Longrightarrow> buf_Write p (mu_writers s w) = (n, wr) \<Longrightarrow>
     mem_step hash mo s (s\<lparr>mu_writers := (mu_writers s)(w := wr), mu_calls := cs\<rparr>)"
| ms_commit: "writer_idle w s \<Longrightarrow> close_writer (mu_writers s w) = Some (b, wr) \<Longrightarrow>
     mem_step hash mo s (s\<lparr>mu_writers := (mu_writers s)(w := wr),
        mu_calls := add_mset (CommitSet w b) (mu_calls s)\<rparr>)"
| ms_set_new: "mu_calls s = add_mset (CommitSet w b) cs \<Longrightarrow> commit_set hash mo b (mu_repo s) = (True, r) \<Longrightarrow>
     mem_step hash mo s (s\<lparr>mu_repo := r, mu_calls := add_mset (CommitPush w (Resolve hash b)) cs\<rparr>)"
| ms_set_dup: "mu_calls s = add_mset (CommitSet w b) cs \<Longrightarrow> commit_set hash mo b (mu_repo s) = (False, r) \<Longrightarrow>
     mem_step hash mo s (s\<lparr>mu_repo := r, mu_calls := add_mset (CommitRelease w (int (length b))) cs\<rparr>)"
| ms_commit_release: "mu_calls s = add_mset (CommitRelease w n) cs \<Longrightarrow>
     mem_step hash mo s (s\<lparr>mu_repo := release n (mu_repo s), mu_calls := cs\<rparr>)"
| ms_push: "mu_calls s = add_mset (CommitPush w i) cs \<Longrightarrow>
     mem_step hash mo s (s\<lparr>mu_repo := pushAdded i (mu_repo s), mu_calls := cs\<rparr>)"
| ms_discard: "writer_idle w s \<Longrightarrow> close_writer (mu_writers s w) = Some (b, wr) \<Longrightarrow>
     mem_step hash mo s (s\<lparr>mu_writers := (mu_writers s)(w := wr),
        mu_calls := add_mset (DiscardRelease w (int (length b))) (mu_calls s)\<rparr>)"
| ms_discard_release: "mu_calls s = add_mset (DiscardRelease w n) cs \<Longrightarrow>
     mem_step hash mo s (s\<lparr>mu_repo := release n (mu_repo s), mu_calls := cs\<rparr>)"
| ms_delete: "findObject i (mu_repo s) = Inr ob \<Longrightarrow>
     mem_step hash mo s (s\<lparr>mu_calls := add_mset (DeleteEntry (so_id ob)) (mu_calls s)\<rparr>)"
| ms_entry_gone: "mu_calls s = add_mset (DeleteEntry i) cs \<Longrightarrow> delete_entry mo i (mu_repo s) = (None, r) \<Longrightarrow>
     mem_step hash mo s (s\<lparr>mu_repo := r, mu_calls := cs\<rparr>)"
| ms_entry: "mu_calls s = add_mset (DeleteEntry i) cs \<Longrightarrow> delete_entry mo i (mu_repo s) = (Some old, r) \<Longrightarrow>
     mem_step hash mo s (s\<lparr>mu_repo := r, mu_calls := add_mset (DeleteRelease (int (length old))) cs\<rparr>)"
| ms_delete_release: "mu_calls s = add_mset (DeleteRelease n) cs \<Longrightarrow>
     mem_step hash mo s (s\<lparr>mu_repo := release n (mu_repo s), mu_calls := cs\<rparr>)"
| ms_subscribe: "mu_scan s = ScanIdle \<Longrightarrow>
     mem_step hash mo s (s\<lparr>mu_scan := ScanSubscribed (length (mr_addQueue (mu_repo s)))\<rparr>)"
| ms_clone: "mu_scan s = ScanSubscribed pos \<Longrightarrow> distinct order \<Longrightarrow> set order = dom (mr_objects (mu_repo s)) \<Longrightarrow>
     mem_step hash mo s (s\<lparr>mu_scan := ScanCloned pos (clone_ids order (mu_repo s))\<rparr>)"

definition mem_start :: "'h mem_run \<Rightarrow> bool" where
  "mem_start s \<longleftrightarrow>
     (\<exists>name size'. 0 \<le> size' \<and> size' \<le> 2 ^ 62 \<and> mu_repo s = mem_New name size') \<and>
     mu_next s = 0 \<and> mu_calls s = {#} \<and> mu_scan s = ScanIdle"

subsection \<open>The quota\<close>

definition stored_bytes :: "'h Repository \<Rightarrow> int" where
  "stored_bytes repo = (\<Sum>h \<in> dom (mr_objects repo). int (length (the (mr_objects repo h))))"

definition buffered_bytes :: "'h mem_run \<Rightarrow> int" where
  "buffered_bytes s = (\<Sum>w < mu_next s. int (length (buf_bytes (mu_writers s w))))"

text \<open>What a goroutine inside a method has reserved or has still to release.\<close>

fun call_charge :: "'h call \<Rightarrow> int" where
  "call_charge (WriteLoad w p) = 0"
| "call_charge (WriteCAS w p u) = 0"
| "call_charge (WriteBuf w p) = int (length p)"
| "call_charge (CommitSet w b) = int (length b)"
| "call_charge (CommitRelease w n) = n"
| "call_charge (CommitPush w i) = 0"
| "call_charge (DiscardRelease w n) = n"
| "call_charge (DeleteEntry i) = 0"
| "call_charge (DeleteRelease n) = n"

definition in_calls :: "'h mem_run \<Rightarrow> int" where
  "in_calls s = (\<Sum>c \<in># mu_calls s. call_charge c)"

fun call_ok :: "(nat \<Rightarrow> Writer) \<Rightarrow> nat \<Rightarrow> 'h call \<Rightarrow> bool" where
  "call_ok ws k (WriteLoad w p) \<longleftrightarrow> w < k \<and> \<not> mw_closed (ws w) \<and> length p < maxSlice"
| "call_ok ws k (WriteCAS w p u) \<longleftrightarrow> w < k \<and> \<not> mw_closed (ws w) \<and> length p < maxSlice \<and> 0 \<le> u \<and> u \<le> 2 ^ 62"
| "call_ok ws k (WriteBuf w p) \<longleftrightarrow> w < k \<and> \<not> mw_closed (ws w)"
| "call_ok ws k (CommitRelease w n) \<longleftrightarrow> 0 \<le> n"
| "call_ok ws k (DiscardRelease w n) \<longleftrightarrow> 0 \<le> n"
| "call_ok ws k (DeleteRelease n) \<longleftrightarrow> 0 \<le> n"
| "call_ok ws k _ \<longleftrightarrow> True"

definition quota_inv :: "'h mem_run \<Rightarrow> bool" where
  "quota_inv s \<longleftrightarrow>
     finite (dom (mr_objects (mu_repo s))) \<and>
     0 \<le> mr_size (mu_repo s) \<and> mr_size (mu_repo s) \<le> 2 ^ 62 \<and>
     mr_used (mu_repo s) = stored_bytes (mu_repo s) + buffered_bytes s + in_calls s \<and>
     mr_used (mu_repo s) \<le> mr_size (mu_repo s) \<and>
     (\<forall>c \<in># mu_calls s. call_ok (mu_writers s) (mu_next s) c)"

lemma call_charge_nonneg: "call_ok ws k c \<Longrightarrow> 0 \<le> call_charge c"
  by (cases c) auto

lemma charges_nonneg: "\<forall>c \<in># cs. call_ok ws k c \<Longrightarrow> 0 \<le> (\<Sum>c \<in># cs. call_charge c)"
  by (induction cs) (auto dest: call_charge_nonneg)

lemma stored_nonneg: "0 \<le> stored_bytes repo"
  by (auto simp: stored_bytes_def intro: sum_nonneg)

lemma buffered_nonneg: "0 \<le> buffered_bytes s"
  by (auto simp: buffered_bytes_def intro: sum_nonneg)

lemma quota_parts:
  assumes "quota_inv s" and "mu_calls s = add_mset c cs"
  shows "0 \<le> call_charge c" and "0 \<le> in_calls s - call_charge c"
    and "in_calls s = call_charge c + (\<Sum>c \<in># cs. call_charge c)"
    and "call_ok (mu_writers s) (mu_next s) c" and "\<forall>c \<in># cs. call_ok (mu_writers s) (mu_next s) c"
  using assms charges_nonneg [of cs "mu_writers s" "mu_next s"]
    call_charge_nonneg [of "mu_writers s" "mu_next s" c]
  by (auto simp: quota_inv_def in_calls_def)

lemma stored_insert:
  assumes "finite (dom (mr_objects r))" and "mr_objects r h = None"
  shows "stored_bytes (r\<lparr>mr_objects := (mr_objects r)(h \<mapsto> b)\<rparr>) = stored_bytes r + int (length b)"
proof -
  have "h \<notin> dom (mr_objects r)" using assms(2) by auto
  then show ?thesis
    using assms(1) by (simp add: stored_bytes_def) (intro sum.cong refl, auto)
qed

lemma stored_delete:
  assumes "finite (dom (mr_objects r))" and "mr_objects r h = Some b"
  shows "stored_bytes (r\<lparr>mr_objects := (mr_objects r)(h := None)\<rparr>) = stored_bytes r - int (length b)"
proof -
  have h: "h \<in> dom (mr_objects r)" using assms(2) by auto
  have "stored_bytes (r\<lparr>mr_objects := (mr_objects r)(h := None)\<rparr>) =
      (\<Sum>k \<in> dom (mr_objects r) - {h}. int (length (the (mr_objects r k))))"
    by (auto simp: stored_bytes_def intro: sum.cong)
  then show ?thesis
    using sum.remove [OF assms(1) h, of "\<lambda>k. int (length (the (mr_objects r k)))"] assms(2)
    by (simp add: stored_bytes_def)
qed

lemma buffered_upd:
  assumes "w < mu_next s"
  shows "buffered_bytes (s\<lparr>mu_writers := (mu_writers s)(w := wr), mu_calls := cs\<rparr>) =
    buffered_bytes s - int (length (buf_bytes (mu_writers s w))) + int (length (buf_bytes wr))"
proof -
  let ?f = "\<lambda>v. int (length (buf_bytes (mu_writers s v)))"
  have w: "w \<in> {..<mu_next s}" using assms by simp
  have "(\<Sum>v \<in> {..<mu_next s} - {w}. int (length (buf_bytes (((mu_writers s)(w := wr)) v)))) =
      (\<Sum>v \<in> {..<mu_next s} - {w}. ?f v)"
    by (rule sum.cong) auto
  then show ?thesis
    using sum.remove [OF _ w, of ?f] sum.remove [OF _ w, of "\<lambda>v. int (length (buf_bytes (((mu_writers s)(w := wr)) v)))"]
    by (simp add: buffered_bytes_def)
qed

lemma quota_replace:
  assumes "quota_inv s" and "mu_calls s = add_mset c cs"
    and "finite (dom (mr_objects r))" and "mr_size r = mr_size (mu_repo s)"
    and "mr_used r - stored_bytes r - (\<Sum>c \<in># new. call_charge c) =
           mr_used (mu_repo s) - stored_bytes (mu_repo s) - call_charge c"
    and "mr_used r \<le> mr_size r" and "\<forall>c \<in># new. call_ok (mu_writers s) (mu_next s) c"
  shows "quota_inv (s\<lparr>mu_repo := r, mu_calls := new + cs\<rparr>)"
  using assms quota_parts [OF assms(1,2)]
  by (auto simp: quota_inv_def in_calls_def buffered_bytes_def)

lemma quota_release:
  assumes "quota_inv s" and "mu_calls s = add_mset c cs" and "call_charge c = n"
  shows "quota_inv (s\<lparr>mu_repo := release n (mu_repo s), mu_calls := cs\<rparr>)"
proof -
  let ?r = "mu_repo s"
  note parts = quota_parts [OF assms(1,2)]
  have "0 \<le> n" "n \<le> mr_used ?r" "mr_used ?r \<le> mr_size ?r" "mr_size ?r \<le> 2 ^ 62"
    using assms(1,3) parts(1,2) stored_nonneg [of ?r] buffered_nonneg [of s]
    by (auto simp: quota_inv_def)
  moreover from this have "int64 (mr_used ?r - n) = mr_used ?r - n"
    by (intro int64_id) auto
  ultimately show ?thesis
    using quota_replace [OF assms(1,2), of "release n ?r" "{#}"] assms
    by (simp add: release_def stored_bytes_def quota_inv_def)
qed

lemma reserve_roundD:
  assumes "reserve_round n u r = (b, r')"
  shows "b = Some True \<Longrightarrow> mr_used r = u \<and> int64 (u + n) \<le> mr_size r \<and> r' = r\<lparr>mr_used := int64 (u + n)\<rparr>"
    and "b \<noteq> Some True \<Longrightarrow> r' = r"
  using assms by (auto simp: reserve_round_def CompareAndSwap_used_def split: if_splits)

lemma quota_cas_ok:
  assumes "quota_inv s" and "mu_calls s = add_mset (WriteCAS w p u) cs"
    and "reserve_round (int (length p)) u (mu_repo s) = (Some True, r)"
  shows "quota_inv (s\<lparr>mu_repo := r, mu_calls := add_mset (WriteBuf w p) cs\<rparr>)"
proof -
  note parts = quota_parts [OF assms(1,2)]
  have ok: "w < mu_next s" "\<not> mw_closed (mu_writers s w)" "length p < maxSlice" "0 \<le> u" "u \<le> 2 ^ 62"
    using parts(4) by auto
  then have "int64 (u + int (length p)) = u + int (length p)"
    by (intro int64_id) (auto simp: maxSlice_def)
  with reserve_roundD(1) [OF assms(3)] have r: "mr_used (mu_repo s) = u"
    "u + int (length p) \<le> mr_size (mu_repo s)" "r = mu_repo s\<lparr>mr_used := u + int (length p)\<rparr>" by auto
  then show ?thesis
    using quota_replace [OF assms(1,2), of r "{#WriteBuf w p#}"] assms(1) ok
    by (simp add: stored_bytes_def quota_inv_def)
qed

lemma quota_set:
  assumes "map_ops_law mo" and "quota_inv s" and "mu_calls s = add_mset (CommitSet w b) cs"
    and "commit_set hash mo b (mu_repo s) = (True, r)"
  shows "quota_inv (s\<lparr>mu_repo := r, mu_calls := add_mset (CommitPush w i) cs\<rparr>)"
proof -
  let ?h = "hash b"
  have h: "mr_objects (mu_repo s) ?h = None" and r: "r = mu_repo s\<lparr>mr_objects := (mr_objects (mu_repo s))(?h \<mapsto> b)\<rparr>"
    using assms(4) by (auto simp: commit_set_def map_ops_lawD(1) [OF assms(1)] Resolve_def split: option.splits)
  have f: "finite (dom (mr_objects (mu_repo s)))" using assms(2) by (simp add: quota_inv_def)
  show ?thesis
    using quota_replace [OF assms(2,3), of r "{#CommitPush w i#}"] stored_insert [OF f h, of b] f r assms(2)
    by (simp add: quota_inv_def)
qed

lemma quota_entry:
  assumes "map_ops_law mo" and "quota_inv s" and "mu_calls s = add_mset (DeleteEntry i) cs"
    and "delete_entry mo i (mu_repo s) = (Some old, r)"
  shows "quota_inv (s\<lparr>mu_repo := r, mu_calls := add_mset (DeleteRelease (int (length old))) cs\<rparr>)"
proof -
  let ?h = "oid_Hash i"
  have h: "mr_objects (mu_repo s) ?h = Some old" and r: "r = mu_repo s\<lparr>mr_objects := (mr_objects (mu_repo s))(?h := None)\<rparr>"
    using assms(4) by (auto simp: delete_entry_def map_ops_lawD(2) [OF assms(1)])
  have f: "finite (dom (mr_objects (mu_repo s)))" using assms(2) by (simp add: quota_inv_def)
  show ?thesis
    using quota_replace [OF assms(2,3), of r "{#DeleteRelease (int (length old))#}"] stored_delete [OF f h] f r assms(2)
    by (simp add: quota_inv_def)
qed

lemma call_ok_writer:
  assumes "call_ok ws k c" and "call_writer c \<noteq> Some w"
  shows "call_ok (ws(w := x)) k c"
  using assms by (cases c) auto

lemma quota_close:
  assumes "quota_inv s" and "writer_idle w s" and "close_writer (mu_writers s w) = Some (b, wr)"
    and "call_charge c = int (length b)" and "\<And>ws k. call_ok ws k c"
  shows "quota_inv (s\<lparr>mu_writers := (mu_writers s)(w := wr), mu_calls := add_mset c (mu_calls s)\<rparr>)"
proof -
  have w: "w < mu_next s" and b: "b = buf_bytes (mu_writers s w)" "buf_bytes wr = []"
    using assms(2,3) by (auto simp: writer_idle_def close_writer_def buf_bytes_def split: if_splits)
  show ?thesis
    using assms buffered_upd [OF w, where wr = wr and cs = "add_mset c (mu_calls s)"] b
    by (auto simp: quota_inv_def in_calls_def writer_idle_def intro: call_ok_writer)
qed

lemma quota_buf:
  assumes "quota_inv s" and "mu_calls s = add_mset (WriteBuf w p) cs" and "buf_Write p (mu_writers s w) = (n, wr)"
  shows "quota_inv (s\<lparr>mu_writers := (mu_writers s)(w := wr), mu_calls := cs\<rparr>)"
proof -
  note parts = quota_parts [OF assms(1,2)]
  have w: "w < mu_next s" using parts(4) by simp
  have wr: "buf_bytes wr = buf_bytes (mu_writers s w) @ p" "mw_closed wr = mw_closed (mu_writers s w)"
    using assms(3) by (auto simp: buf_Write_def buf_bytes_def split: option.splits)
  have "call_ok ((mu_writers s)(w := wr)) (mu_next s) c" if "call_ok (mu_writers s) (mu_next s) c" for c :: "'a call"
    using that wr(2) by (cases c) auto
  then show ?thesis
    using assms(1,2) buffered_upd [OF w, where wr = wr and cs = cs] wr(1) parts
    by (auto simp: quota_inv_def in_calls_def)
qed

lemma quota_step:
  assumes "map_ops_law mo" and "quota_inv s" and "mem_step hash mo s t"
  shows "quota_inv t"
  using assms(3)
proof cases
  case (ms_create alloc w)
  then have "buf_bytes w = []"
    by (auto simp: mem_Create_def NewWriter_def buf_bytes_def split: option.splits if_splits)
  moreover have "call_ok ((mu_writers s)(mu_next s := w)) (Suc (mu_next s)) c"
    if "call_ok (mu_writers s) (mu_next s) c" for c :: "'a call"
    using that by (cases c) auto
  ultimately show ?thesis
    using assms(2) ms_create(1) by (auto simp: quota_inv_def in_calls_def buffered_bytes_def)
next
  case (ms_write w p)
  then show ?thesis
    using assms(2) by (auto simp: quota_inv_def in_calls_def writer_idle_def buffered_bytes_def)
next
  case (ms_load w p cs)
  have "0 \<le> mr_used (mu_repo s)"
    using assms(2) stored_nonneg [of "mu_repo s"] buffered_nonneg [of s]
      charges_nonneg [of "mu_calls s" "mu_writers s" "mu_next s"]
    by (auto simp: quota_inv_def in_calls_def)
  then show ?thesis
    using assms(2) ms_load
      quota_replace [OF assms(2) ms_load(2), of "mu_repo s" "{#WriteCAS w p (mr_used (mu_repo s))#}"]
    by (auto simp: quota_inv_def)
next
  case (ms_cas_retry w p u cs r)
  then show ?thesis
    using assms(2) quota_replace [OF assms(2) ms_cas_retry(2), of r "{#WriteLoad w p#}"]
      reserve_roundD(2) [OF ms_cas_retry(3)]
    by (auto simp: quota_inv_def)
next
  case (ms_cas_full w p u cs r)
  then show ?thesis
    using assms(2) quota_replace [OF assms(2) ms_cas_full(2), of r "{#}"]
      reserve_roundD(2) [OF ms_cas_full(3)]
    by (auto simp: quota_inv_def)
next
  case (ms_set_dup w b cs r)
  then have "r = mu_repo s"
    by (auto simp: commit_set_def map_ops_lawD(1) [OF assms(1)] split: option.splits)
  then show ?thesis
    using assms(2) quota_replace [OF assms(2) ms_set_dup(2), of r "{#CommitRelease w (int (length b))#}"] ms_set_dup
    by (auto simp: quota_inv_def)
next
  case (ms_push w i cs)
  then show ?thesis
    using assms(2) quota_replace [OF assms(2) ms_push(2), of "pushAdded i (mu_repo s)" "{#}"]
    by (auto simp: quota_inv_def pushAdded_def stored_bytes_def)
next
  case (ms_delete i ob)
  then show ?thesis
    using assms(2) by (auto simp: quota_inv_def in_calls_def buffered_bytes_def)
next
  case (ms_entry_gone i cs r)
  then have "r = mu_repo s"
    by (auto simp: delete_entry_def map_ops_lawD(2) [OF assms(1)] fun_upd_idem)
  then show ?thesis
    using assms(2) quota_replace [OF assms(2) ms_entry_gone(2), of r "{#}"] ms_entry_gone
    by (auto simp: quota_inv_def)
next
  case ms_subscribe
  then show ?thesis using assms(2) by (auto simp: quota_inv_def in_calls_def buffered_bytes_def)
next
  case (ms_clone pos order)
  then show ?thesis using assms(2) by (auto simp: quota_inv_def in_calls_def buffered_bytes_def)
qed (use assms quota_cas_ok quota_buf quota_set quota_entry quota_release quota_close in fastforce)+

subsection \<open>Names and scans\<close>

definition names_inv :: "(bytes \<Rightarrow> 'h) \<Rightarrow> 'h mem_run \<Rightarrow> bool" where
  "names_inv hash s \<longleftrightarrow>
     (\<forall>h d. mr_objects (mu_repo s) h = Some d \<longrightarrow> hash d = h) \<and>
     (\<forall>i \<in> set (mr_addQueue (mu_repo s)). \<exists>d. i = Resolve hash d) \<and>
     (\<forall>w i. CommitPush w i \<in># mu_calls s \<longrightarrow> (\<exists>d. i = Resolve hash d))"

definition announced :: "nat \<Rightarrow> 'h ObjectID list \<Rightarrow> 'h mem_run \<Rightarrow> 'h \<Rightarrow> bool" where
  "announced pos snap s h \<longleftrightarrow>
     (\<exists>i \<in> set snap \<union> set (drop pos (mr_addQueue (mu_repo s))). oid_Hash i = h) \<or>
     (\<exists>w i. CommitPush w i \<in># mu_calls s \<and> oid_Hash i = h)"

definition scan_inv :: "'h mem_run \<Rightarrow> bool" where
  "scan_inv s \<longleftrightarrow>
     (case mu_scan s of
        ScanIdle \<Rightarrow> True
      | ScanSubscribed pos \<Rightarrow> pos \<le> length (mr_addQueue (mu_repo s))
      | ScanCloned pos snap \<Rightarrow>
          pos \<le> length (mr_addQueue (mu_repo s)) \<and>
          (\<forall>h \<in> dom (mr_objects (mu_repo s)). announced pos snap s h))"

text \<open>What a step may do to what the two invariants look at.\<close>

inductive_cases mem_stepE: "mem_step hash mo s t"

lemma step_objects:
  assumes "map_ops_law mo" and "mem_step hash mo s t"
  shows "mr_objects (mu_repo t) \<subseteq>\<^sub>m mr_objects (mu_repo s) \<or>
    (\<exists>w b. mr_objects (mu_repo t) = (mr_objects (mu_repo s))(hash b \<mapsto> b) \<and>
       CommitPush w (Resolve hash b) \<in># mu_calls t)"
  using assms(2)
proof cases
  case (ms_set_new w b cs r)
  then have "mr_objects r = (mr_objects (mu_repo s))(hash b \<mapsto> b)"
    by (auto simp: commit_set_def Resolve_def map_ops_lawD(1) [OF assms(1)] split: option.splits)
  then show ?thesis
    using ms_set_new(1) by auto
next
  case (ms_set_dup w b cs r)
  then show ?thesis
    by (auto simp: commit_set_def map_ops_lawD(1) [OF assms(1)] split: option.splits)
next
  case (ms_entry i cs old r)
  then show ?thesis
    by (auto simp: delete_entry_def map_ops_lawD(2) [OF assms(1)] map_le_def split: if_splits)
next
  case (ms_entry_gone i cs r)
  then show ?thesis
    by (auto simp: delete_entry_def map_ops_lawD(2) [OF assms(1)] map_le_def split: if_splits)
qed (auto simp: release_def pushAdded_def dest: reserve_roundD)

lemma step_queue:
  assumes "mem_step hash mo s t"
  shows "mr_addQueue (mu_repo t) = mr_addQueue (mu_repo s) \<or>
    (\<exists>w i. CommitPush w i \<in># mu_calls s \<and> mr_addQueue (mu_repo t) = mr_addQueue (mu_repo s) @ [i])"
  using assms
  by cases (auto simp: release_def pushAdded_def commit_set_def delete_entry_def
      dest: reserve_roundD split: prod.splits)

lemma step_pushes:
  assumes "mem_step hash mo s t"
  shows "CommitPush w i \<in># mu_calls t \<Longrightarrow> CommitPush w i \<in># mu_calls s \<or> (\<exists>d. i = Resolve hash d)"
    and "CommitPush w i \<in># mu_calls s \<Longrightarrow> CommitPush w i \<in># mu_calls t \<or> i \<in> set (drop (length (mr_addQueue (mu_repo s))) (mr_addQueue (mu_repo t)))"
  using assms by (cases; auto simp: pushAdded_def)+

lemma step_scan:
  assumes "mem_step hash mo s t" and "mu_scan t \<noteq> mu_scan s"
  shows "mu_repo t = mu_repo s \<and>
    (mu_scan t = ScanSubscribed (length (mr_addQueue (mu_repo s))) \<or>
     (\<exists>pos order. mu_scan s = ScanSubscribed pos \<and> mu_scan t = ScanCloned pos (clone_ids order (mu_repo s)) \<and>
        set order = dom (mr_objects (mu_repo s))))"
  using assms by cases auto

lemma names_step:
  assumes "map_ops_law mo" and "names_inv hash s" and "mem_step hash mo s t"
  shows "names_inv hash t"
proof -
  have "hash d = h" if "mr_objects (mu_repo t) h = Some d" for h d
    using step_objects [OF assms(1,3)] that assms(2)
    by (auto simp: names_inv_def map_le_def dom_def split: if_splits)
  moreover have "\<exists>d. i = Resolve hash d" if "i \<in> set (mr_addQueue (mu_repo t))" for i
    using step_queue [OF assms(3)] that assms(2) by (auto simp: names_inv_def)
  moreover have "\<exists>d. i = Resolve hash d" if "CommitPush w i \<in># mu_calls t" for w i
    using step_pushes(1) [OF assms(3) that] assms(2) by (auto simp: names_inv_def)
  ultimately show ?thesis by (auto simp: names_inv_def)
qed

lemma clone_hashes: "oid_Hash ` set (clone_ids order r) = set order"
  by (auto simp: clone_ids_def image_iff)

lemma queue_grows:
  assumes "mem_step hash mo s t" and "pos \<le> length (mr_addQueue (mu_repo s))"
  shows "pos \<le> length (mr_addQueue (mu_repo t))"
    and "set (drop pos (mr_addQueue (mu_repo s))) \<union>
           set (drop (length (mr_addQueue (mu_repo s))) (mr_addQueue (mu_repo t))) \<subseteq> set (drop pos (mr_addQueue (mu_repo t)))"
  using step_queue [OF assms(1)] assms(2) by auto

lemma announced_step:
  assumes "map_ops_law mo" and "mem_step hash mo s t" and "pos \<le> length (mr_addQueue (mu_repo s))"
    and "\<forall>h \<in> dom (mr_objects (mu_repo s)). announced pos snap s h" and "h \<in> dom (mr_objects (mu_repo t))"
  shows "announced pos snap t h"
proof -
  have "announced pos snap s h \<or> (\<exists>w i. CommitPush w i \<in># mu_calls t \<and> oid_Hash i = h)"
    using step_objects [OF assms(1,2)]
  proof
    assume "mr_objects (mu_repo t) \<subseteq>\<^sub>m mr_objects (mu_repo s)"
    then show ?thesis using assms(4,5) map_le_implies_dom_le by blast
  next
    assume "\<exists>w b. mr_objects (mu_repo t) = (mr_objects (mu_repo s))(hash b \<mapsto> b) \<and>
       CommitPush w (Resolve hash b) \<in># mu_calls t"
    then obtain w b where t: "mr_objects (mu_repo t) = (mr_objects (mu_repo s))(hash b \<mapsto> b)"
      "CommitPush w (Resolve hash b) \<in># mu_calls t" by blast
    have "oid_Hash (Resolve hash b) = hash b" by (simp add: Resolve_def)
    with t assms(4,5) show ?thesis by (cases "h = hash b") auto
  qed
  then show ?thesis
    using step_pushes(2) [OF assms(2)] queue_grows(2) [OF assms(2,3)]
    unfolding announced_def by blast
qed

lemma scan_step:
  assumes "map_ops_law mo" and "scan_inv s" and "mem_step hash mo s t"
  shows "scan_inv t"
proof (cases "mu_scan t = mu_scan s")
  case True
  then show ?thesis
    using assms(2) queue_grows(1) [OF assms(3)] announced_step [OF assms(1,3)]
    by (auto simp: scan_inv_def split: scan.splits)
next
  case False
  from step_scan [OF assms(3) False] consider
    "mu_repo t = mu_repo s" "mu_scan t = ScanSubscribed (length (mr_addQueue (mu_repo s)))"
    | pos order where "mu_repo t = mu_repo s" "mu_scan s = ScanSubscribed pos"
        "mu_scan t = ScanCloned pos (clone_ids order (mu_repo s))" "set order = dom (mr_objects (mu_repo s))"
    by blast
  then show ?thesis
  proof cases
    case 2
    have "announced pos (clone_ids order (mu_repo s)) t h" if "h \<in> set order" for h
    proof -
      have "h \<in> oid_Hash ` set (clone_ids order (mu_repo s))" using that clone_hashes by metis
      then show ?thesis unfolding announced_def by blast
    qed
    with 2 assms(2) show ?thesis by (auto simp: scan_inv_def)
  qed (simp add: scan_inv_def)
qed

lemma Scan_emits_nil:
  "takeWhile (\<lambda>x. x \<noteq> None) (Scan_emits True pos snap r) = map Some snap \<and>
   count_list (Scan_emits True pos snap r) None = 1"
proof -
  have "count_list (map Some xs) None = 0" for xs :: "'a ObjectID list"
    by (induction xs) auto
  then show ?thesis by (simp add: Scan_emits_def takeWhile_append)
qed

subsection \<open>Safety\<close>

definition lawful_mem_step ::
  "(bytes \<Rightarrow> 'h) \<Rightarrow> ('h, bytes) map_ops \<Rightarrow> 'h mem_run \<Rightarrow> 'h mem_run \<Rightarrow> bool" where
  "lawful_mem_step hash mo s t \<longleftrightarrow> map_ops_law mo \<and> mem_step hash mo s t"

lemma mem_start_inv:
  assumes "mem_start s"
  shows "quota_inv s" and "names_inv hash s" and "scan_inv s"
  using assms
  by (auto simp: mem_start_def quota_inv_def names_inv_def scan_inv_def mem_New_def stored_bytes_def
      buffered_bytes_def in_calls_def DefaultSize_def)

interpretation quota: safety mem_start "lawful_mem_step hash mo" quota_inv for hash mo
  by unfold_locales (auto simp: lawful_mem_step_def intro: mem_start_inv quota_step)

interpretation names: safety mem_start "lawful_mem_step hash mo" "names_inv hash" for hash mo
  by unfold_locales (auto simp: lawful_mem_step_def intro: mem_start_inv names_step)

interpretation scans: safety mem_start "lawful_mem_step hash mo" scan_inv for hash mo
  by unfold_locales (auto simp: lawful_mem_step_def intro: mem_start_inv scan_step)

text \<open>
  C8.  The quota of the in-memory repository under concurrency.  However writers, commits,
  discards and deletions interleave, the count of used bytes is exactly the bytes of the stored
  objects, of the open writers' buffers and of the goroutines inside a method; it is never
  negative and never above the size of the repository.  Once every writer is committed or
  discarded and no method is running, it is the stored bytes alone: nothing leaks.
\<close>

theorem quota_accounts:
  assumes "reach mem_start (lawful_mem_step hash mo) s"
  shows "mem_Used (mu_repo s) = stored_bytes (mu_repo s) + buffered_bytes s + in_calls s \<and>
    0 \<le> mem_Used (mu_repo s) \<and> mem_Used (mu_repo s) \<le> mr_size (mu_repo s) \<and>
    (mu_calls s = {#} \<and> (\<forall>w < mu_next s. mw_buf (mu_writers s w) = None) \<longrightarrow>
       mem_Used (mu_repo s) = stored_bytes (mu_repo s))"
  using quota.reach_inv [OF assms] stored_nonneg [of "mu_repo s"] buffered_nonneg [of s]
    charges_nonneg [of "mu_calls s" "mu_writers s" "mu_next s"]
  by (auto simp: quota_inv_def mem_Used_def in_calls_def buffered_bytes_def buf_bytes_def)

text \<open>
  C18.  Objects are named by their content.  In every run, an entry of the repository is stored
  under the hash of its bytes, and every identifier announced to followers is the size and the
  hash of a content.
\<close>

theorem objects_named_by_content:
  assumes "reach mem_start (lawful_mem_step hash mo) s"
  shows "(\<forall>h d. mr_objects (mu_repo s) h = Some d \<longrightarrow> h = hash d) \<and>
    (\<forall>i \<in> set (mr_addQueue (mu_repo s)). \<exists>d. i = Resolve hash d)"
  using names.reach_inv [OF assms] by (auto simp: names_inv_def)

text \<open>
  C17.  A scan that follows misses nothing.  Whatever is committed and deleted while a scan
  subscribes and clones, every object stored at any later time is among what the scan emits,
  once the commits have announced what they stored; and the scan emits exactly one \<open>nil\<close>, right
  after its snapshot.
\<close>

theorem scan_follow_complete:
  assumes "reach mem_start (lawful_mem_step hash mo) s" and "mu_scan s = ScanCloned pos snap"
    and "\<forall>w i. CommitPush w i \<notin># mu_calls s" and "mr_objects (mu_repo s) h = Some d"
  shows "(\<exists>i. Some i \<in> set (Scan_emits True pos snap (mu_repo s)) \<and> oid_Hash i = h) \<and>
    takeWhile (\<lambda>x. x \<noteq> None) (Scan_emits True pos snap (mu_repo s)) = map Some snap \<and>
    count_list (Scan_emits True pos snap (mu_repo s)) None = 1"
proof -
  have "announced pos snap s h"
    using scans.reach_inv [OF assms(1)] assms(2,4) by (auto simp: scan_inv_def)
  then have "\<exists>i. Some i \<in> set (Scan_emits True pos snap (mu_repo s)) \<and> oid_Hash i = h"
    using assms(3) by (auto simp: announced_def Scan_emits_def)
  then show ?thesis using Scan_emits_nil by blast
qed

subsection \<open>A run\<close>

text \<open>
  Two writers against a quota of four bytes: the first has reserved three bytes and is about to
  buffer them when the second loads the count and asks for two more; the second is refused, the
  first commits, and a scan that subscribed before the commit clones after it.
\<close>

abbreviation demo_mem_step :: "bytes mem_run \<Rightarrow> bytes mem_run \<Rightarrow> bool" where
  "demo_mem_step \<equiv> lawful_mem_step (\<lambda>b. b) go_map"

definition mem_demo ::
  "int \<Rightarrow> (bytes \<rightharpoonup> bytes) \<Rightarrow> bytes ObjectID list \<Rightarrow> (nat \<Rightarrow> Writer) \<Rightarrow> nat \<Rightarrow> bytes call multiset \<Rightarrow> bytes scan \<Rightarrow>
     bytes mem_run" where
  "mem_demo used objs q ws k cs sc =
     \<lparr>mu_repo = \<lparr>mr_objects = objs, mr_used = used, mr_size = 4, mr_name = ''Memory'', mr_addQueue = q\<rparr>,
      mu_writers = ws, mu_next = k, mu_calls = cs, mu_scan = sc\<rparr>"

lemma demo_mem_next:
  "reach mem_start demo_mem_step s \<Longrightarrow> mem_step (\<lambda>b. b) go_map s t \<Longrightarrow> reach mem_start demo_mem_step t"
  by (rule reach_step) (simp_all add: lawful_mem_step_def go_map_law)

lemma demo_mem_start: "reach mem_start demo_mem_step (mem_demo 0 Map.empty [] (\<lambda>_. NewWriter) 0 {#} ScanIdle)"
  by (rule reach_init, simp add: mem_start_def mem_demo_def mem_New_def) (rule exI [of _ "[]"], simp, rule exI [of _ 4], simp)

abbreviation demo_p :: bytes where "demo_p \<equiv> [1, 2, 3]"
abbreviation demo_w :: "nat \<Rightarrow> Writer" where
  "demo_w \<equiv> (\<lambda>_. NewWriter)(0 := \<lparr>mw_buf = None, mw_closed = True\<rparr>)"
abbreviation demo_id :: "bytes ObjectID" where "demo_id \<equiv> \<lparr>oid_Size = 3, oid_Hash = demo_p\<rparr>"

lemma demo_mem_writers:
  "reach mem_start demo_mem_step (mem_demo 0 Map.empty [] (\<lambda>_. NewWriter) 2 {#} ScanIdle)"
proof -
  have c: "mem_Create None r = Inr NewWriter" for r :: "bytes Repository"
    by (simp add: mem_Create_def)
  have "reach mem_start demo_mem_step (mem_demo 0 Map.empty [] (\<lambda>_. NewWriter) 1 {#} ScanIdle)"
    using demo_mem_next [OF demo_mem_start ms_create [OF c]] by (simp add: mem_demo_def fun_upd_idem)
  from demo_mem_next [OF this ms_create [OF c]] show ?thesis
    by (simp add: mem_demo_def fun_upd_idem numeral_2_eq_2)
qed

lemma demo_mem_refused:
  "reach mem_start demo_mem_step
     (mem_demo 3 Map.empty [] (\<lambda>_. NewWriter) 2 {#WriteBuf 0 demo_p#} (ScanSubscribed 0))"
proof -
  let ?R = "reach mem_start demo_mem_step"
  let ?s = "\<lambda>u cs. mem_demo u Map.empty [] (\<lambda>_. NewWriter) 2 cs ScanIdle"
  have "?R (?s 0 {#WriteLoad 0 demo_p#})"
    using demo_mem_next [OF demo_mem_writers ms_write [of 0 _ demo_p]]
    by (simp add: mem_demo_def writer_idle_def NewWriter_def maxSlice_def)
  then have "?R (?s 0 {#WriteCAS 0 demo_p 0#})"
    using demo_mem_next [OF _ ms_load [of _ 0 demo_p "{#}"]] by (fastforce simp: mem_demo_def)
  then have "?R (?s 3 {#WriteBuf 0 demo_p#})"
    using demo_mem_next [OF _ ms_cas_ok [of _ 0 demo_p 0 "{#}"]]
    by (fastforce simp: mem_demo_def reserve_round_def CompareAndSwap_used_def int64_def)
  then have "?R (?s 3 {#WriteLoad 1 [4, 5], WriteBuf 0 demo_p#})"
    using demo_mem_next [OF _ ms_write [of 1 "?s 3 {#WriteBuf 0 demo_p#}" "[4, 5]"]]
    by (simp add: mem_demo_def writer_idle_def NewWriter_def maxSlice_def)
  then have "?R (?s 3 {#WriteCAS 1 [4, 5] 3, WriteBuf 0 demo_p#})"
    using demo_mem_next [OF _ ms_load [of _ 1 "[4, 5]" "{#WriteBuf 0 demo_p#}"]] by (fastforce simp: mem_demo_def)
  then have "?R (?s 3 {#WriteBuf 0 demo_p#})"
    using demo_mem_next [OF _ ms_cas_full [of _ 1 "[4, 5]" 3 "{#WriteBuf 0 demo_p#}"]]
    by (fastforce simp: mem_demo_def reserve_round_def CompareAndSwap_used_def int64_def)
  then show ?thesis
    using demo_mem_next [OF _ ms_subscribe [of "?s 3 {#WriteBuf 0 demo_p#}"]] by (simp add: mem_demo_def)
qed

lemma demo_mem_scanned:
  "reach mem_start demo_mem_step
     (mem_demo 3 [demo_p \<mapsto> demo_p] [demo_id] demo_w 2 {#} (ScanCloned 0 [demo_id]))"
proof -
  let ?R = "reach mem_start demo_mem_step"
  let ?w = "(\<lambda>_. NewWriter)(0 := \<lparr>mw_buf = Some demo_p, mw_closed = False\<rparr>)"
  have "?R (mem_demo 3 Map.empty [] ?w 2 {#} (ScanSubscribed 0))"
    using demo_mem_next [OF demo_mem_refused ms_buf [of _ 0 demo_p "{#}"]]
    by (simp add: mem_demo_def buf_Write_def NewWriter_def buf_bytes_def)
  from demo_mem_next [OF this ms_commit [of 0 _ demo_p]]
  have "?R (mem_demo 3 Map.empty [] demo_w 2 {#CommitSet 0 demo_p#} (ScanSubscribed 0))"
    by (simp add: mem_demo_def writer_idle_def close_writer_def buf_bytes_def)
  from demo_mem_next [OF this ms_set_new [of _ 0 demo_p "{#}"]]
  have "?R (mem_demo 3 [demo_p \<mapsto> demo_p] [] demo_w 2 {#CommitPush 0 demo_id#} (ScanSubscribed 0))"
    by (simp add: mem_demo_def commit_set_def Resolve_def go_map_def)
  from demo_mem_next [OF this ms_clone [of _ 0 "[demo_p]"]]
  have "?R (mem_demo 3 [demo_p \<mapsto> demo_p] [] demo_w 2 {#CommitPush 0 demo_id#} (ScanCloned 0 [demo_id]))"
    by (simp add: mem_demo_def clone_ids_def)
  from demo_mem_next [OF this ms_push [of _ 0 demo_id "{#}"]]
  show ?thesis by (simp add: mem_demo_def pushAdded_def)
qed

theorem quota_accounts_witness:
  "mem_Used (mu_repo (mem_demo 3 [demo_p \<mapsto> demo_p] [demo_id] demo_w 2 {#} (ScanCloned 0 [demo_id]))) =
     stored_bytes (mu_repo (mem_demo 3 [demo_p \<mapsto> demo_p] [demo_id] demo_w 2 {#} (ScanCloned 0 [demo_id]))) + 0 + 0"
  using quota_accounts [OF demo_mem_scanned]
  by (simp add: mem_demo_def in_calls_def buffered_bytes_def buf_bytes_def NewWriter_def numeral_2_eq_2)

theorem objects_named_by_content_witness: "\<exists>d. demo_id = Resolve (\<lambda>b. b) d"
  using objects_named_by_content [OF demo_mem_scanned] by (simp add: mem_demo_def)

theorem scan_follow_complete_witness:
  "\<exists>i. Some i \<in> set (Scan_emits True 0 [demo_id]
     (mu_repo (mem_demo 3 [demo_p \<mapsto> demo_p] [demo_id] demo_w 2 {#} (ScanCloned 0 [demo_id])))) \<and> oid_Hash i = demo_p"
  using scan_follow_complete [OF demo_mem_scanned, of 0 "[demo_id]" demo_p demo_p]
  by (simp add: mem_demo_def)

end
