(* ===== verification/Object_Readers.thy ===== *)
theory Object_Readers
  imports Object_Store
begin

section \<open>The repository contract and its clients (\<open>repository.go\<close>, \<open>read_seeker.go\<close>, \<open>load.go\<close>)\<close>

text \<open>
  What the rest of the module relies on when it holds an \<open>objects.Repository\<close>: a lookup that the
  answers of \<open>Contains\<close>, \<open>Read\<close> and \<open>Delete\<close> agree on, and readers that hand out the bytes of
  the window in order.  The contract is a locale; the in-memory repository is an
  interpretation, and theory \<open>Repo_Groups\<close> shows that a group of repositories that keep it keeps
  it too.

  Two clients are written against it: \<open>ReadSeeker\<close>, which turns reads at an offset into a file
  with a position, and \<open>Load\<close>, which decodes an object of limited size.  Every open of a reader
  goes through the argument that stands for the repository's \<open>Read\<close>, as through the interface
  in the code.
\<close>

subsection \<open>The contract\<close>

text \<open>The full identifier of a content that was asked for by a possibly partial one.\<close>

definition full_id :: "'h ObjectID \<Rightarrow> bytes \<Rightarrow> 'h ObjectID" where
  "full_id i d = \<lparr>oid_Size = of_nat (length d), oid_Hash = oid_Hash i\<rparr>"

definition live :: "Context \<Rightarrow> bool" where
  "live ctx \<longleftrightarrow> cx_device ctx \<and> (\<forall>t. cx_Err ctx t = None)"

text \<open>Reading on, in pieces of any size, hands out the bytes in order.\<close>

primrec read_pieces :: "(nat \<Rightarrow> 'r \<Rightarrow> (bytes \<times> obj_err option) \<times> 'r) \<Rightarrow> nat list \<Rightarrow> 'r \<Rightarrow> bytes \<times> 'r" where
  "read_pieces rd [] r = ([], r)"
| "read_pieces rd (k # ks) r =
     (case rd k r of ((out, e), r') \<Rightarrow> (case read_pieces rd ks r' of (rest, r'') \<Rightarrow> (out @ rest, r'')))"

locale object_reader =
  fixes rread :: "nat \<Rightarrow> 'r \<Rightarrow> (bytes \<times> obj_err option) \<times> 'r"
    and rclose :: "'r \<Rightarrow> 'r"
    and rID :: "'r \<Rightarrow> 'h ObjectID"
    and view :: "'r \<Rightarrow> bytes option"
  assumes rread_open: "view r = Some bs \<Longrightarrow> rread k r = ((out, e), r') \<Longrightarrow>
       out = take k bs \<and> view r' = Some (drop k bs) \<and> rID r' = rID r \<and>
       e = (if bs = [] then Some ErrEOF else None)"
    and rclose_view: "view (rclose r) = None \<and> rID (rclose r) = rID r"
    and rread_closed: "view r = None \<Longrightarrow> \<exists>e. rread k r = (([], Some e), r)"
begin

lemma read_pieces_view:
  "view r = Some bs \<Longrightarrow> read_pieces rread ks r = (out, r') \<Longrightarrow>
     out = take (sum_list ks) bs \<and> view r' = Some (drop (sum_list ks) bs)"
proof (induction ks arbitrary: r bs out r')
  case (Cons k ks)
  obtain o1 e r1 where 1: "rread k r = ((o1, e), r1)" by (metis prod.exhaust)
  obtain o2 r2 where 2: "read_pieces rread ks r1 = (o2, r2)" by (metis prod.exhaust)
  from rread_open [OF Cons.prems(1) 1] have o1: "o1 = take k bs" and v: "view r1 = Some (drop k bs)" by auto
  from Cons.IH [OF v 2] have "o2 = take (sum_list ks) (drop k bs)" "view r2 = Some (drop (sum_list ks) (drop k bs))" by auto
  then show ?case
    using Cons.prems(2) 1 2 o1 by (simp add: take_add add.commute)
qed simp

end

text \<open>The content that an identifier names in a store: by hash alone when it carries no size.\<close>

definition find_in :: "('h \<rightharpoonup> bytes) \<Rightarrow> 'h ObjectID \<Rightarrow> bytes option" where
  "find_in m i =
     (case m (oid_Hash i) of
        None \<Rightarrow> None
      | Some d \<Rightarrow> if oid_Size i \<noteq> 0 \<and> oid_Size i \<noteq> of_nat (length d) then None else Some d)"

lemma find_in_Some:
  "find_in m i = Some d \<longleftrightarrow> m (oid_Hash i) = Some d \<and> (oid_Size i = 0 \<or> oid_Size i = of_nat (length d))"
  by (auto simp: find_in_def split: option.splits)

lemma find_in_full: "find_in m i = Some d \<Longrightarrow> find_in m (full_id i d) = Some d"
  by (simp add: find_in_Some full_id_def)

locale repository = object_reader rread rclose rID view
  for rread :: "nat \<Rightarrow> 'r \<Rightarrow> (bytes \<times> obj_err option) \<times> 'r" and rclose
    and rID :: "'r \<Rightarrow> 'h ObjectID" and view :: "'r \<Rightarrow> bytes option" +
  fixes ok :: "'s \<Rightarrow> bool" and cont :: "'s \<Rightarrow> 'h \<rightharpoonup> bytes"
    and rContains :: "Context \<Rightarrow> nat \<Rightarrow> 'h ObjectID \<Rightarrow> 's \<Rightarrow> (obj_err + bool) \<times> nat"
    and rRead :: "Context \<Rightarrow> nat \<Rightarrow> 'h ObjectID \<Rightarrow> int \<Rightarrow> int \<Rightarrow> 's \<Rightarrow> (obj_err + 'r) \<times> nat"
    and rDelete :: "Context \<Rightarrow> nat \<Rightarrow> 'h ObjectID \<Rightarrow> 's \<Rightarrow> (obj_err option \<times> nat) \<times> 's"
  assumes cont_size: "ok s \<Longrightarrow> cont s h = Some d \<Longrightarrow> length d < 2 ^ 63"
    and contains_law: "ok s \<Longrightarrow> live ctx \<Longrightarrow> fst (rContains ctx t i s) = Inr (find_in (cont s) i \<noteq> None)"
    and read_none: "ok s \<Longrightarrow> live ctx \<Longrightarrow> find_in (cont s) i = None \<Longrightarrow>
          fst (rRead ctx t i off lim s) = Inl ErrNotFound"
    and read_out: "ok s \<Longrightarrow> live ctx \<Longrightarrow> find_in (cont s) i = Some d \<Longrightarrow>
          ResolveReadLimit (full_id i d) off lim = Inl e1 \<Longrightarrow>
          \<exists>e'. fst (rRead ctx t i off lim s) = Inl e' \<and> \<not> errors_Is e' ErrHashLookupUnsupported"
    and read_some: "ok s \<Longrightarrow> live ctx \<Longrightarrow> find_in (cont s) i = Some d \<Longrightarrow>
          ResolveReadLimit (full_id i d) off lim = Inr len \<Longrightarrow>
          \<exists>r. fst (rRead ctx t i off lim s) = Inr r \<and> rID r = full_id i d \<and>
              view r = Some (take (nat len) (drop (nat off) d))"
    and delete_law: "ok s \<Longrightarrow> live ctx \<Longrightarrow> rDelete ctx t i s = ((e, t'), s') \<Longrightarrow>
          ok s' \<and> e = (if find_in (cont s) i = None then Some ErrNotFound else None) \<and>
          cont s' = (if find_in (cont s) i = None then cont s else (cont s)(oid_Hash i := None))"
begin

abbreviation look :: "'s \<Rightarrow> 'h ObjectID \<Rightarrow> bytes option" where
  "look s i \<equiv> find_in (cont s) i"

lemma look_size: "ok s \<Longrightarrow> look s i = Some d \<Longrightarrow> length d < 2 ^ 63"
  using cont_size by (auto simp: find_in_Some)

end

subsection \<open>A file over a repository\<close>

text \<open>
  The reader's identity travels in the context the seeker builds and has no effect on a
  repository, so it is left out.  \<open>openAt\<close> also answers the reader it closed.
\<close>

record ('h, 'r) ReadSeeker =
  rs_objectID :: "'h ObjectID"
  rs_r :: "'r option"
  rs_zone :: bool
  rs_pos :: int

datatype whence = SeekStart | SeekCurrent | SeekEnd | SeekOther

definition NewReadSeeker :: "Context \<Rightarrow> 'h ObjectID \<Rightarrow> 'r option \<Rightarrow> ('h, 'r) ReadSeeker" where
  "NewReadSeeker ctx objectID r = \<lparr>rs_objectID = objectID, rs_r = r, rs_zone = cx_device ctx, rs_pos = 0\<rparr>"

definition openAt ::
  "(Context \<Rightarrow> 'h ObjectID \<Rightarrow> int \<Rightarrow> int \<Rightarrow> obj_err + 'r) \<Rightarrow> ('r \<Rightarrow> 'r) \<Rightarrow> ('r \<Rightarrow> 'h ObjectID) \<Rightarrow>
     int \<Rightarrow> ('h, 'r) ReadSeeker \<Rightarrow> (obj_err option \<times> 'r option) \<times> ('h, 'r) ReadSeeker" where
  "openAt repoRead rclose rID pos r =
     (let old = map_option rclose (rs_r r);
          ctx = \<lparr>cx_device = rs_zone r, cx_Err = (\<lambda>_. None)\<rparr>
      in case repoRead ctx (rs_objectID r) pos 0 of
           Inl e \<Rightarrow> ((Some e, old), r\<lparr>rs_r := None\<rparr>)
         | Inr reader \<Rightarrow> ((None, old), r\<lparr>rs_pos := pos, rs_objectID := rID reader, rs_r := Some reader\<rparr>))"

definition ReadSeeker_Read ::
  "(Context \<Rightarrow> 'h ObjectID \<Rightarrow> int \<Rightarrow> int \<Rightarrow> obj_err + 'r) \<Rightarrow> (nat \<Rightarrow> 'r \<Rightarrow> (bytes \<times> obj_err option) \<times> 'r) \<Rightarrow>
     ('r \<Rightarrow> 'r) \<Rightarrow> ('r \<Rightarrow> 'h ObjectID) \<Rightarrow> nat \<Rightarrow> ('h, 'r) ReadSeeker \<Rightarrow>
     (bytes \<times> obj_err option) \<times> ('h, 'r) ReadSeeker" where
  "ReadSeeker_Read repoRead rread rclose rID k r =
     (case (if rs_r r = None then openAt repoRead rclose rID (rs_pos r) r else ((None, None), r)) of
        ((Some e, _), r') \<Rightarrow> (([], Some e), r')
      | ((None, _), r') \<Rightarrow>
          (case rs_r r' of
             None \<Rightarrow> (([], None), r')
           | Some rd \<Rightarrow>
               (case rread k rd of
                  ((out, err), rd') \<Rightarrow>
                    ((out, err), r'\<lparr>rs_r := Some rd', rs_pos := int64 (rs_pos r' + int (length out))\<rparr>))))"

definition ReadSeeker_Seek ::
  "(Context \<Rightarrow> 'h ObjectID \<Rightarrow> int \<Rightarrow> int \<Rightarrow> obj_err + 'r) \<Rightarrow> ('r \<Rightarrow> 'r) \<Rightarrow> ('r \<Rightarrow> 'h ObjectID) \<Rightarrow>
     int \<Rightarrow> whence \<Rightarrow> ('h, 'r) ReadSeeker \<Rightarrow> (int \<times> obj_err option) \<times> ('h, 'r) ReadSeeker" where
  "ReadSeeker_Seek repoRead rclose rID offset wh r =
     (let pos = (case wh of
                   SeekStart \<Rightarrow> offset
                 | SeekCurrent \<Rightarrow> int64 (rs_pos r + offset)
                 | SeekEnd \<Rightarrow> int64 (int64 (uint (oid_Size (rs_objectID r))) + offset)
                 | SeekOther \<Rightarrow> 0)
      in case openAt repoRead rclose rID pos r of
           ((err, _), r') \<Rightarrow> ((rs_pos r', err), r'))"

definition ReadSeeker_Close :: "('r \<Rightarrow> 'r) \<Rightarrow> ('h, 'r) ReadSeeker \<Rightarrow> ('h, 'r) ReadSeeker" where
  "ReadSeeker_Close rclose r = r\<lparr>rs_r := map_option rclose (rs_r r)\<rparr>"

subsection \<open>The file it stands for\<close>

text \<open>
  The specification: a content and a position in it.  A read hands out what is there, a seek
  moves to a place inside the content or fails and stays.
\<close>

type_synonym cursor = "bytes \<times> int"

definition cursor_read :: "nat \<Rightarrow> cursor \<Rightarrow> (bytes \<times> obj_err option) \<times> cursor" where
  "cursor_read k c =
     (case c of (d, pos) \<Rightarrow>
        let rest = drop (nat pos) d
        in ((take k rest, if rest = [] then Some ErrEOF else None), (d, pos + int (min k (length rest)))))"

definition seek_target :: "int \<Rightarrow> whence \<Rightarrow> cursor \<Rightarrow> int" where
  "seek_target offset wh c =
     (case c of (d, pos) \<Rightarrow>
        (case wh of SeekStart \<Rightarrow> offset | SeekCurrent \<Rightarrow> pos + offset
                  | SeekEnd \<Rightarrow> int (length d) + offset | SeekOther \<Rightarrow> 0))"

definition cursor_seek :: "int \<Rightarrow> whence \<Rightarrow> cursor \<Rightarrow> (int \<times> bool) \<times> cursor" where
  "cursor_seek offset wh c =
     (let p = seek_target offset wh c
      in if 0 \<le> p \<and> p \<le> int (length (fst c)) then ((p, True), (fst c, p)) else ((snd c, False), c))"

text \<open>Offsets that keep the sum with a position of the content inside \<open>int64\<close>.\<close>

definition seek_fits :: "int \<Rightarrow> bool" where
  "seek_fits offset \<longleftrightarrow> - (2 ^ 63) \<le> offset \<and> offset < 2 ^ 62"

lemma resolve_to_end:
  assumes "length d < 2 ^ 63" and "p < 2 ^ 63"
  shows "ResolveReadLimit (full_id i d) p 0 =
    (if 0 \<le> p \<and> p \<le> int (length d) then Inr (int (length d) - p) else Inl ErrOutOfBounds)"
proof -
  have u: "uint (of_nat (length d) :: 64 word) = int (length d)"
    using assms(1) by (simp add: uint_nat unat_of_nat)
  have "int64 (int (length d) - p) = int (length d) - p" if "0 \<le> p"
    using assms that by (intro int64_id) auto
  then show ?thesis
    using assms u by (auto simp: ResolveReadLimit_def full_id_def MaxInt64_def Let_def)
qed

text \<open>A client's calls and what it gets back from them.\<close>

datatype file_op = FRead nat | FSeek int whence

datatype file_res = FData bytes "obj_err option" | FPos int bool

fun seeker_op ::
  "(Context \<Rightarrow> 'h ObjectID \<Rightarrow> int \<Rightarrow> int \<Rightarrow> obj_err + 'r) \<Rightarrow> (nat \<Rightarrow> 'r \<Rightarrow> (bytes \<times> obj_err option) \<times> 'r) \<Rightarrow>
     ('r \<Rightarrow> 'r) \<Rightarrow> ('r \<Rightarrow> 'h ObjectID) \<Rightarrow> file_op \<Rightarrow> ('h, 'r) ReadSeeker \<Rightarrow> file_res \<times> ('h, 'r) ReadSeeker" where
  "seeker_op rd rr rc ri (FRead k) r =
     (case ReadSeeker_Read rd rr rc ri k r of ((out, e), r') \<Rightarrow> (FData out e, r'))"
| "seeker_op rd rr rc ri (FSeek off wh) r =
     (case ReadSeeker_Seek rd rc ri off wh r of ((p, e), r') \<Rightarrow> (FPos p (e = None), r'))"

fun cursor_op :: "file_op \<Rightarrow> cursor \<Rightarrow> file_res \<times> cursor" where
  "cursor_op (FRead k) c = (case cursor_read k c of ((out, e), c') \<Rightarrow> (FData out e, c'))"
| "cursor_op (FSeek off wh) c = (case cursor_seek off wh c of ((p, b), c') \<Rightarrow> (FPos p b, c'))"

fun results :: "(file_op \<Rightarrow> 'a \<Rightarrow> file_res \<times> 'a) \<Rightarrow> file_op list \<Rightarrow> 'a \<Rightarrow> file_res list" where
  "results f [] a = []"
| "results f (x # xs) a = (case f x a of (o1, a') \<Rightarrow> o1 # results f xs a')"

fun op_fits :: "file_op \<Rightarrow> bool" where
  "op_fits (FRead k) = True"
| "op_fits (FSeek off wh) = seek_fits off"

context repository
begin

abbreviation sRead :: "'s \<Rightarrow> Context \<Rightarrow> 'h ObjectID \<Rightarrow> int \<Rightarrow> int \<Rightarrow> obj_err + 'r" where
  "sRead s ctx i off lim \<equiv> fst (rRead ctx 0 i off lim s)"

text \<open>The seeker stands for the cursor \<open>(d, pos)\<close>.\<close>

definition seeks :: "'s \<Rightarrow> cursor \<Rightarrow> ('h, 'r) ReadSeeker \<Rightarrow> bool" where
  "seeks s c r \<longleftrightarrow>
     (case c of (d, pos) \<Rightarrow>
        rs_zone r \<and> rs_pos r = pos \<and> 0 \<le> pos \<and> pos \<le> int (length d) \<and> length d < 2 ^ 62 \<and>
        look s (rs_objectID r) = Some d \<and> rs_objectID r = full_id (rs_objectID r) d \<and>
        (case rs_r r of None \<Rightarrow> True | Some rd \<Rightarrow> view rd = Some (drop (nat pos) d)))"

lemma open_inside:
  assumes "ok s" and "rs_zone r" and "look s (rs_objectID r) = Some d" and "length d < 2 ^ 62"
    and "0 \<le> p" and "p \<le> int (length d)"
  shows "\<exists>old r'. openAt (sRead s) rclose rID p r = ((None, old), r') \<and> seeks s (d, p) r'"
proof -
  let ?i = "rs_objectID r" and ?c = "\<lparr>cx_device = rs_zone r, cx_Err = \<lambda>_. None\<rparr>"
  have "live ?c" using assms(2) by (simp add: live_def)
  moreover have "ResolveReadLimit (full_id ?i d) p 0 = Inr (int (length d) - p)"
    using resolve_to_end [of d p ?i] assms(4-6) by simp
  ultimately obtain rd where rd: "sRead s ?c ?i p 0 = Inr rd" "rID rd = full_id ?i d"
      "view rd = Some (take (nat (int (length d) - p)) (drop (nat p) d))"
    using read_some [OF assms(1) _ assms(3), of ?c p 0] by blast
  have v: "view rd = Some (drop (nat p) d)"
    using rd(3) assms(5,6) by (simp add: nat_diff_distrib)
  show ?thesis
    using rd(1,2) v assms find_in_full [OF assms(3)]
    by (simp add: openAt_def Let_def seeks_def full_id_def)
qed

lemma open_outside:
  assumes "ok s" and "seeks s (d, pos) r" and "p < 2 ^ 63" and "\<not> (0 \<le> p \<and> p \<le> int (length d))"
  shows "\<exists>e old r'. openAt (sRead s) rclose rID p r = ((Some e, old), r') \<and> seeks s (d, pos) r'"
proof -
  let ?i = "rs_objectID r" and ?c = "\<lparr>cx_device = rs_zone r, cx_Err = \<lambda>_. None\<rparr>"
  have a: "rs_zone r" "look s ?i = Some d" "length d < 2 ^ 62" using assms(2) by (auto simp: seeks_def)
  have "live ?c" using a(1) by (simp add: live_def)
  moreover have "ResolveReadLimit (full_id ?i d) p 0 = Inl ErrOutOfBounds"
    using resolve_to_end [of d p ?i] assms(3,4) a(3) by auto
  ultimately obtain e where "sRead s ?c ?i p 0 = Inl e"
    using read_out [OF assms(1) _ a(2), of ?c p 0] by blast
  then show ?thesis
    using assms(2) by (simp add: openAt_def Let_def seeks_def)
qed

lemma seeker_read:
  assumes "ok s" and "seeks s c r"
    and "ReadSeeker_Read (sRead s) rread rclose rID k r = (res, r')"
  shows "\<exists>c'. cursor_read k c = (res, c') \<and> seeks s c' r'"
proof -
  obtain d pos where c: "c = (d, pos)" by (cases c)
  have a: "rs_zone r" "look s (rs_objectID r) = Some d" "length d < 2 ^ 62" "0 \<le> pos" "pos \<le> int (length d)"
    "rs_pos r = pos" using assms(2) c by (auto simp: seeks_def)
  obtain old r1 where r1: "(if rs_r r = None then openAt (sRead s) rclose rID (rs_pos r) r else ((None, None), r)) = ((None, old), r1)"
    "seeks s (d, pos) r1" "rs_r r1 \<noteq> None"
  proof (cases "rs_r r = None")
    case True
    with open_inside [OF assms(1) a(1-5)] a(6) that show ?thesis
      by (auto simp: openAt_def Let_def split: sum.splits)
  next
    case False
    with that assms(2) c show ?thesis by auto
  qed
  obtain rd out e rd' where rd: "rs_r r1 = Some rd" "rread k rd = ((out, e), rd')"
    using r1(3) by (metis not_Some_eq prod.exhaust)
  have v: "view rd = Some (drop (nat pos) d)" "rs_pos r1 = pos" using r1(2) rd(1) by (auto simp: seeks_def)
  note law = rread_open [OF v(1) rd(2)]
  then have len: "int (length out) = int (min k (length d - nat pos))" by simp
  have i: "int64 (pos + int (length out)) = pos + int (length out)"
    unfolding len using a(3,4,5) by (intro int64_id) auto
  have res: "res = (out, e)" "r' = r1\<lparr>rs_r := Some rd', rs_pos := pos + int (length out)\<rparr>"
    using assms(3) r1(1) rd v(2) i by (auto simp: ReadSeeker_Read_def)
  have "drop (nat (pos + int (length out))) d = drop k (drop (nat pos) d)"
    using a(4) by (cases "k \<le> length d - nat pos") (auto simp: len nat_add_distrib add.commute)
  then have "seeks s (d, pos + int (length out)) r'"
    using r1(2) res(2) law a(4,5) len by (auto simp: seeks_def)
  then show ?thesis
    using res(1) law len c by (simp add: cursor_read_def Let_def)
qed

lemma seeker_seek:
  assumes "ok s" and "seeks s c r" and "seek_fits offset"
    and "ReadSeeker_Seek (sRead s) rclose rID offset wh r = ((p, e), r')"
  shows "\<exists>c'. cursor_seek offset wh c = ((p, e = None), c') \<and> seeks s c' r'"
proof -
  obtain d pos where c: "c = (d, pos)" by (cases c)
  have a: "rs_zone r" "look s (rs_objectID r) = Some d" "length d < 2 ^ 62" "0 \<le> pos" "pos \<le> int (length d)"
    "rs_pos r = pos" "rs_objectID r = full_id (rs_objectID r) d" using assms(2) c by (auto simp: seeks_def)
  have u: "uint (oid_Size (rs_objectID r)) = int (length d)"
    using a(3) by (subst a(7)) (simp add: full_id_def uint_nat unat_of_nat)
  let ?p = "seek_target offset wh c"
  have tgt: "(case wh of SeekStart \<Rightarrow> offset | SeekCurrent \<Rightarrow> int64 (rs_pos r + offset)
      | SeekEnd \<Rightarrow> int64 (int64 (uint (oid_Size (rs_objectID r))) + offset) | SeekOther \<Rightarrow> 0) = ?p" "?p < 2 ^ 63"
    using a(3-6) u assms(3) c by (cases wh; auto simp: seek_target_def seek_fits_def int64_id)+
  have sk: "ReadSeeker_Seek (sRead s) rclose rID offset wh r =
      (case openAt (sRead s) rclose rID ?p r of ((err, _), r') \<Rightarrow> ((rs_pos r', err), r'))"
    by (simp only: ReadSeeker_Seek_def Let_def tgt(1))
  show ?thesis
  proof (cases "0 \<le> ?p \<and> ?p \<le> int (length d)")
    case True
    then obtain old r1 where "openAt (sRead s) rclose rID ?p r = ((None, old), r1)" "seeks s (d, ?p) r1"
      using open_inside [OF assms(1) a(1-3)] by blast
    with assms(4) sk True c show ?thesis
      by (auto simp: cursor_seek_def Let_def seeks_def)
  next
    case False
    then obtain e1 old r1 where "openAt (sRead s) rclose rID ?p r = ((Some e1, old), r1)" "seeks s (d, pos) r1"
      using open_outside [OF assms(1) assms(2) [unfolded c] tgt(2)] by blast
    with assms(4) sk False c show ?thesis
      by (auto simp: cursor_seek_def Let_def seeks_def)
  qed
qed

lemma seeker_results:
  assumes "ok s" and "list_all op_fits xs" and "seeks s c r"
  shows "results (seeker_op (sRead s) rread rclose rID) xs r = results cursor_op xs c"
  using assms(2,3)
proof (induction xs arbitrary: c r)
  case (Cons x xs)
  obtain o1 r' where o1: "seeker_op (sRead s) rread rclose rID x r = (o1, r')" by (metis prod.exhaust)
  have "\<exists>c'. cursor_op x c = (o1, c') \<and> seeks s c' r'"
  proof (cases x)
    case (FRead k)
    with o1 seeker_read [OF assms(1) Cons.prems(2), of k] show ?thesis
      by (auto split: prod.splits)
  next
    case (FSeek off wh)
    with o1 seeker_seek [OF assms(1) Cons.prems(2), of off wh] Cons.prems(1) show ?thesis
      by (auto split: prod.splits)
  qed
  with Cons.IH Cons.prems(1) o1 show ?case by auto
qed simp

end

subsection \<open>The in-memory repository keeps the contract\<close>

definition reader_view :: "'h Reader \<Rightarrow> bytes option" where
  "reader_view r = (if mrd_closed r then None else Some (mrd_r r))"

definition mem_ok :: "'h Repository \<Rightarrow> bool" where
  "mem_ok repo \<longleftrightarrow> (\<forall>h d. mr_objects repo h = Some d \<longrightarrow> length d < 2 ^ 63)"

abbreviation mem_look :: "'h Repository \<Rightarrow> 'h ObjectID \<Rightarrow> bytes option" where
  "mem_look repo i \<equiv> find_in (mr_objects repo) i"

lemma findObject_cases:
  "findObject i repo =
     (case mem_look repo i of
        None \<Rightarrow> Inl ErrNotFound
      | Some d \<Rightarrow> Inr \<lparr>so_id = full_id i d, so_data = d\<rparr>)"
  by (auto simp: find_in_def findObject_def full_id_def Let_def split: option.splits)

lemma mem_Delete_look:
  assumes "map_ops_law mo"
  shows "mem_Delete mo i repo =
    (case mem_look repo i of
       None \<Rightarrow> (Some ErrNotFound, repo)
     | Some d \<Rightarrow> (None, release (int (length d)) (repo\<lparr>mr_objects := (mr_objects repo)(oid_Hash i := None)\<rparr>)))"
proof (cases "mem_look repo i")
  case (Some d)
  then have "mr_objects repo (oid_Hash i) = Some d" by (simp add: find_in_Some)
  with Some show ?thesis
    by (simp add: mem_Delete_def findObject_cases delete_entry_def map_ops_lawD(2) [OF assms] full_id_def)
qed (simp add: mem_Delete_def findObject_cases)

interpretation mem_reader: object_reader Reader_Read Reader_Close Reader_ID reader_view
  by unfold_locales
    (auto simp: Reader_Read_def bytesReader_Read_def Reader_Close_def Reader_ID_def reader_view_def
      split: if_splits)

definition mo_ok :: "('h, bytes) map_ops \<Rightarrow> 'h Repository \<Rightarrow> bool" where
  "mo_ok mo repo \<longleftrightarrow> map_ops_law mo \<and> mem_ok repo"

lemma ResolveReadLimit_err: "ResolveReadLimit i off lim = Inl e \<Longrightarrow> e = ErrOutOfBounds"
  by (auto simp: ResolveReadLimit_def Let_def split: if_splits)

interpretation mem_repo: repository Reader_Read Reader_Close Reader_ID reader_view "mo_ok mo" mr_objects
  "\<lambda>ctx t i repo. (mem_Contains i repo, t)" "\<lambda>ctx t i off lim repo. (mem_Read ctx i off lim repo, t)"
  "\<lambda>ctx t i repo. (case mem_Delete mo i repo of (e, repo') \<Rightarrow> ((e, t), repo'))" for mo
proof
  fix repo :: "'a Repository" and h d
  assume "mo_ok mo repo" "mr_objects repo h = Some d"
  then show "length d < 2 ^ 63" by (auto simp: mo_ok_def mem_ok_def)
next
  fix repo :: "'a Repository" and ctx t i
  show "fst (mem_Contains i repo, t) = Inr (mem_look repo i \<noteq> None)"
    by (simp add: mem_Contains_def findObject_cases split: option.split)
next
  fix repo :: "'a Repository" and ctx t i off lim d e
  assume "live ctx" "mem_look repo i = Some d" "ResolveReadLimit (full_id i d) off lim = Inl e"
  then show "\<exists>e'. fst (mem_Read ctx i off lim repo, t) = Inl e' \<and> \<not> errors_Is e' ErrHashLookupUnsupported"
    using ResolveReadLimit_err by (fastforce simp: mem_Read_def findObject_cases live_def)
next
  fix repo :: "'a Repository" and ctx t i off lim d len
  assume "live ctx" "mem_look repo i = Some d" "ResolveReadLimit (full_id i d) off lim = Inr len"
  then show "\<exists>r. fst (mem_Read ctx i off lim repo, t) = Inr r \<and> Reader_ID r = full_id i d \<and>
      reader_view r = Some (take (nat len) (drop (nat off) d))"
    by (simp add: mem_Read_def findObject_cases NewReader_def Reader_ID_def reader_view_def live_def)
next
  fix repo repo' :: "'a Repository" and ctx t i e t'
  assume ok: "mo_ok mo repo" and "(case mem_Delete mo i repo of (e, r') \<Rightarrow> ((e, t), r')) = ((e, t'), repo')"
  then have d: "mem_Delete mo i repo = (e, repo')" and mo: "map_ops_law mo" by (auto simp: mo_ok_def split: prod.splits)
  show "mo_ok mo repo' \<and> e = (if mem_look repo i = None then Some ErrNotFound else None) \<and>
      mr_objects repo' = (if mem_look repo i = None then mr_objects repo else (mr_objects repo)(oid_Hash i := None))"
    using d ok by (auto simp: mem_Delete_look [OF mo] mo_ok_def mem_ok_def release_def split: option.splits if_splits)
qed (auto simp: mem_Read_def findObject_cases live_def)

subsection \<open>Loading an object\<close>

definition MaxObjectSize :: int where "MaxObjectSize = push_bit 20 64"

text \<open>
  \<open>Load\<close> for a type given by its cast.  \<open>astral.Decode\<close>, the cast and the context built
  when there is none are arguments; the answer
  comes with the reader that was opened, closed by the deferred call.
\<close>

definition Load ::
  "(Context \<Rightarrow> 'h ObjectID \<Rightarrow> int \<Rightarrow> int \<Rightarrow> obj_err + 'r) \<Rightarrow> ('r \<Rightarrow> 'r) \<Rightarrow> ('r \<Rightarrow> 'h ObjectID) \<Rightarrow>
     ('r \<Rightarrow> (obj_err + 'o) \<times> 'r) \<Rightarrow> ('o \<Rightarrow> obj_err + 't) \<Rightarrow> Context \<Rightarrow> Context option \<Rightarrow> 'h ObjectID \<Rightarrow>
     (obj_err + 't) \<times> 'r option" where
  "Load repoRead rclose rID Decode cast background ctx objectID =
     (if uint (oid_Size objectID) > MaxObjectSize then (Inl ErrObjectTooLarge, None)
      else let ctx = (case ctx of None \<Rightarrow> background | Some c \<Rightarrow> c)
           in case repoRead ctx objectID 0 0 of
                Inl e \<Rightarrow> (Inl e, None)
              | Inr r \<Rightarrow>
                  (if uint (oid_Size (rID r)) > MaxObjectSize then (Inl ErrObjectTooLarge, Some (rclose r))
                   else case Decode r of
                          (Inl e, r') \<Rightarrow> (Inl e, Some (rclose r'))
                        | (Inr a, r') \<Rightarrow> (cast a, Some (rclose r'))))"

context repository
begin

text \<open>
  A context whose zone has the device and that does not end: the object is decoded exactly when
  it is there and not too large, whatever size the identifier claims.
\<close>

lemma load_cases:
  assumes "ok s" and "live ctx"
  shows "look s i = None \<Longrightarrow> fst (Load (sRead s) rclose rID Decode cast bg (Some ctx) i) \<in> {Inl ErrNotFound, Inl ErrObjectTooLarge}"
    and "look s i = Some d \<Longrightarrow> int (length d) > MaxObjectSize \<Longrightarrow>
      fst (Load (sRead s) rclose rID Decode cast bg (Some ctx) i) = Inl ErrObjectTooLarge"
    and "look s i = Some d \<Longrightarrow> int (length d) \<le> MaxObjectSize \<Longrightarrow> oid_Size i \<in> {0, of_nat (length d)} \<Longrightarrow>
      \<exists>r. view r = Some d \<and> rID r = full_id i d \<and>
        fst (Load (sRead s) rclose rID Decode cast bg (Some ctx) i) =
          (case fst (Decode r) of Inl e \<Rightarrow> Inl e | Inr a \<Rightarrow> cast a)"
proof -
  show "look s i = None \<Longrightarrow> fst (Load (sRead s) rclose rID Decode cast bg (Some ctx) i) \<in> {Inl ErrNotFound, Inl ErrObjectTooLarge}"
    using read_none [OF assms] by (simp add: Load_def Let_def)
  have u: "uint (of_nat (length d) :: 64 word) = int (length d)" if "look s i = Some d" for d
    using look_size [OF assms(1) that] by (simp add: uint_nat unat_of_nat)
  have rd: "\<exists>r. sRead s ctx i 0 0 = Inr r \<and> rID r = full_id i d \<and> view r = Some d" if "look s i = Some d" for d
    using read_some [OF assms that, of 0 0 "int (length d)"] resolve_to_end [OF look_size [OF assms(1) that], of 0 i] by simp
  show "look s i = Some d \<Longrightarrow> int (length d) > MaxObjectSize \<Longrightarrow>
      fst (Load (sRead s) rclose rID Decode cast bg (Some ctx) i) = Inl ErrObjectTooLarge"
    using rd [of d] u [of d] by (auto simp: Load_def Let_def full_id_def)
  show "\<exists>r. view r = Some d \<and> rID r = full_id i d \<and>
        fst (Load (sRead s) rclose rID Decode cast bg (Some ctx) i) =
          (case fst (Decode r) of Inl e \<Rightarrow> Inl e | Inr a \<Rightarrow> cast a)"
    if d: "look s i = Some d" "int (length d) \<le> MaxObjectSize" "oid_Size i \<in> {0, of_nat (length d)}"
  proof -
    from rd [OF d(1)] obtain r where r: "sRead s ctx i 0 0 = Inr r" "rID r = full_id i d" "view r = Some d" by blast
    have "\<not> uint (oid_Size i) > MaxObjectSize" "\<not> uint (oid_Size (rID r)) > MaxObjectSize"
      using d u [OF d(1)] r(2) by (auto simp: full_id_def MaxObjectSize_def)
    with r show ?thesis
      by (intro exI [of _ r]) (auto simp: Load_def Let_def split: prod.split sum.split)
  qed
qed

end

subsection \<open>Properties\<close>

text \<open>
  A seeker over the in-memory repository is a file.  Whatever reads and seeks a client
  makes, it gets back what a cursor over the object's bytes would give: a read hands out the
  bytes at the position and moves on, a seek inside the object moves there, and a seek outside it
  fails, keeps the position, and the next read goes on from there.
\<close>

lemma seeker_is_file:
  assumes "mem_look repo i = Some d" and "i = full_id i d" and "length d < 2 ^ 62" and "mem_ok repo"
    and "cx_device ctx" and "list_all op_fits xs"
  shows "results (seeker_op (\<lambda>c j off lim. mem_Read c j off lim repo) Reader_Read Reader_Close Reader_ID) xs
           (NewReadSeeker ctx i None) = results cursor_op xs (d, 0)"
proof -
  have "mem_repo.seeks repo (d, 0) (NewReadSeeker ctx i None)"
    using assms(1-3,5) by (simp add: mem_repo.seeks_def NewReadSeeker_def)
  moreover have "mo_ok go_map repo" using assms(4) by (simp add: mo_ok_def go_map_law)
  ultimately show ?thesis
    using mem_repo.seeker_results [OF _ assms(6), of go_map repo] by simp
qed

lemma commit_stored:
  assumes "map_ops_law mo" and "Writer_Commit hash mo w repo = (Inr i, w', repo')"
  shows "i = Resolve hash (buf_bytes w)"
    and "mr_objects repo' = (case mr_objects repo (hash (buf_bytes w)) of
           None \<Rightarrow> (mr_objects repo)(hash (buf_bytes w) \<mapsto> buf_bytes w) | Some _ \<Rightarrow> mr_objects repo)"
  using assms
  by (auto simp: Writer_Commit_def close_writer_def commit_set_def release_def pushAdded_def Let_def
      Resolve_def map_ops_lawD(1) split: option.splits if_splits)

text \<open>
  C34.  What was committed can be read back.  After a commit, the identifier it answered, or its
  hash alone, opens a reader on any window of the object: an offset up to its size and a limit,
  where the limit zero is the rest of the object.  Read in pieces of any size the reader hands
  out the bytes of the window, as many as were asked for, and its identifier is the full one.
  An offset past the end, or below zero, is refused whatever the limit.
  A content whose hash is that of another content would read as the other one, so the entry
  under the hash, if there is one, is taken to be this content.
\<close>

theorem commit_then_read:
  assumes "map_ops_law mo" and "Writer_Commit hash mo w repo = (Inr i, w', repo')"
    and "mr_objects repo (hash (buf_bytes w)) \<in> {None, Some (buf_bytes w)}"
    and "length (buf_bytes w) < 2 ^ 63" and "cx_device ctx"
    and "- (2 ^ 63) \<le> off" and "off < 2 ^ 63" and "0 \<le> lim" and "lim < 2 ^ 63"
    and "j = i \<or> j = \<lparr>oid_Size = 0, oid_Hash = oid_Hash i\<rparr>"
  shows "if 0 \<le> off \<and> off \<le> int (length (buf_bytes w))
    then \<exists>r. mem_Read ctx j off lim repo' = Inr r \<and> Reader_ID r = i \<and>
      fst (read_pieces Reader_Read ks r) =
        take (sum_list ks) (let rest = drop (nat off) (buf_bytes w) in if lim = 0 then rest else take (nat lim) rest)
    else mem_Read ctx j off lim repo' = Inl ErrOutOfBounds"
proof -
  let ?b = "buf_bytes w" and ?win = "let rest = drop (nat off) (buf_bytes w) in if lim = 0 then rest else take (nat lim) rest"
  note st = commit_stored [OF assms(1,2)]
  have look: "mem_look repo' j = Some ?b"
    using st assms(3,10) by (auto simp: find_in_Some Resolve_def split: option.splits)
  have fid: "full_id j ?b = i" using st(1) assms(10) by (auto simp: full_id_def Resolve_def)
  have u: "uint (of_nat (length ?b) :: 64 word) = int (length ?b)"
    using assms(4) by (simp add: uint_nat unat_of_nat)
  have i64: "int64 (int (length ?b) - off) = int (length ?b) - off" if "0 \<le> off"
    using assms(4,7) that by (intro int64_id) auto
  show ?thesis
  proof (cases "0 \<le> off \<and> off \<le> int (length ?b)")
    case True
    let ?n = "if lim = 0 then int (length ?b) - off else min lim (int (length ?b) - off)"
    have lim: "ResolveReadLimit (full_id j ?b) off lim = Inr ?n"
      using True i64 assms(4,8,9) u by (auto simp: ResolveReadLimit_def full_id_def MaxInt64_def Let_def)
    define r where "r = NewReader (take (nat ?n) (drop (nat off) ?b)) i"
    have r: "mem_Read ctx j off lim repo' = Inr r"
      using look lim fid assms(5) by (simp add: mem_Read_def findObject_cases r_def)
    have "take (nat ?n) (drop (nat off) ?b) = ?win"
      using True assms(8) by (cases "lim \<le> int (length ?b) - off") (auto simp: min_def nat_diff_distrib Let_def)
    then have "reader_view r = Some ?win" by (simp add: r_def reader_view_def NewReader_def)
    from mem_reader.read_pieces_view [OF this, of ks]
    have "fst (read_pieces Reader_Read ks r) = take (sum_list ks) ?win" by (cases "read_pieces Reader_Read ks r") auto
    with r True show ?thesis by (simp add: r_def NewReader_def Reader_ID_def)
  next
    case False
    then have "ResolveReadLimit (full_id j ?b) off lim = Inl ErrOutOfBounds"
      using i64 assms(4) u by (auto simp: ResolveReadLimit_def full_id_def MaxInt64_def Let_def)
    then show ?thesis using False look assms(5) by (auto simp: mem_Read_def findObject_cases)
  qed
qed

text \<open>
  The size limit of \<open>Load\<close> cannot be passed by a partial identifier.  Over the in-memory
  repository, an object above the limit is never handed to the decoder, whether the identifier
  carries its size or not; one within the limit is decoded from its whole content.
\<close>

lemma load_is_limited:
  assumes "mem_ok repo" and "live ctx" and "mem_look repo i = Some d"
  shows "(int (length d) > MaxObjectSize \<longrightarrow>
      fst (Load (\<lambda>c j off lim. mem_Read c j off lim repo) Reader_Close Reader_ID Decode cast bg (Some ctx) i) =
        Inl ErrObjectTooLarge) \<and>
    (int (length d) \<le> MaxObjectSize \<longrightarrow>
      (\<exists>r. reader_view r = Some d \<and> Reader_ID r = full_id i d \<and>
        fst (Load (\<lambda>c j off lim. mem_Read c j off lim repo) Reader_Close Reader_ID Decode cast bg (Some ctx) i) =
          (case fst (Decode r) of Inl e \<Rightarrow> Inl e | Inr a \<Rightarrow> cast a)))"
proof -
  have ok: "mo_ok go_map repo" using assms(1) by (simp add: mo_ok_def go_map_law)
  have "oid_Size i \<in> {0, of_nat (length d)}" using assms(3) by (auto simp: find_in_Some)
  then show ?thesis
    using mem_repo.load_cases(2,3) [OF ok assms(2,3), where Decode = Decode and cast = cast and bg = bg] by auto
qed

text \<open>
  The window check that adds before it compares accepts windows far outside the object: with an
  offset of one, the largest limit wraps around.  Within the range of \<open>int64\<close> it is exact.
\<close>

lemma offset_limit_exact:
  assumes "oid_Size i < 2 ^ 63" and "0 \<le> off" and "0 \<le> lim" and "off + lim < 2 ^ 63"
  shows "IsOffsetLimitValid i off lim \<longleftrightarrow> off + lim \<le> uint (oid_Size i)"
proof -
  have "uint (oid_Size i) < 2 ^ 63" using assms(1) by (simp add: word_less_def)
  then have "int64 (uint (oid_Size i)) = uint (oid_Size i)" "int64 (off + lim) = off + lim"
    using assms order_trans [OF _ uint_ge_0, of "- (2 ^ 63)" "oid_Size i"] by (auto intro!: int64_id)
  with assms show ?thesis by (auto simp: IsOffsetLimitValid_def)
qed

text \<open>
  A flaw of the window check: one byte into a three-byte object, a limit of the largest
  \<open>int64\<close> is accepted as fitting the object.
\<close>

lemma offset_limit_wraps:
  "IsOffsetLimitValid \<lparr>oid_Size = 3, oid_Hash = h\<rparr> 1 MaxInt64"
  by (simp add: IsOffsetLimitValid_def int64_def MaxInt64_def)

subsection \<open>Examples\<close>

definition demo_store :: "bytes Repository" where
  "demo_store = (mem_New [] 0)\<lparr>mr_objects := [[1, 2, 3] \<mapsto> [1, 2, 3]], mr_used := 3\<rparr>"

definition device_ctx :: Context where
  "device_ctx = \<lparr>cx_device = True, cx_Err = \<lambda>_. None\<rparr>"

lemma demo_store_look: "mem_look demo_store \<lparr>oid_Size = 3, oid_Hash = [1, 2, 3]\<rparr> = Some [1, 2, 3]"
  by (simp add: find_in_Some demo_store_def)

lemma seeker_is_file_witness:
  "results (seeker_op (\<lambda>c j off lim. mem_Read c j off lim demo_store) Reader_Read Reader_Close Reader_ID)
     [FRead 1, FSeek 9 SeekStart, FRead 1, FSeek (- 1) SeekEnd, FRead 5, FRead 5]
     (NewReadSeeker device_ctx \<lparr>oid_Size = 3, oid_Hash = [1, 2, 3]\<rparr> None) =
   [FData [1] None, FPos 1 False, FData [2] None, FPos 2 True, FData [3] None, FData [] (Some ErrEOF)]"
proof -
  have "mem_ok demo_store" by (simp add: mem_ok_def demo_store_def)
  then show ?thesis
    by (subst seeker_is_file [OF demo_store_look])
      (simp_all add: full_id_def device_ctx_def seek_fits_def cursor_read_def cursor_seek_def seek_target_def)
qed

theorem commit_then_read_witness:
  "\<exists>r r0. mem_Read device_ctx \<lparr>oid_Size = 0, oid_Hash = [1, 2, 3]\<rparr> 1 1
      (snd (snd (Writer_Commit (\<lambda>b. b) go_map \<lparr>mw_buf = Some [1, 2, 3], mw_closed = False\<rparr> (mem_New [] 0)))) = Inr r \<and>
    fst (read_pieces Reader_Read [1, 1] r) = [2] \<and>
    mem_Read device_ctx \<lparr>oid_Size = 0, oid_Hash = [1, 2, 3]\<rparr> 1 0
      (snd (snd (Writer_Commit (\<lambda>b. b) go_map \<lparr>mw_buf = Some [1, 2, 3], mw_closed = False\<rparr> (mem_New [] 0)))) = Inr r0 \<and>
    fst (read_pieces Reader_Read [1, 1] r0) = [2, 3]"
proof -
  let ?w = "\<lparr>mw_buf = Some [1, 2, 3 :: byte], mw_closed = False\<rparr>" and ?r = "mem_New [] 0 :: bytes Repository"
  have b: "buf_bytes ?w = [1, 2, 3]" by (simp add: buf_bytes_def)
  obtain w' r' where c: "Writer_Commit (\<lambda>b. b) go_map ?w ?r = (Inr \<lparr>oid_Size = 3, oid_Hash = [1, 2, 3]\<rparr>, w', r')"
    by (simp add: Writer_Commit_def close_writer_def b commit_set_def Resolve_def go_map_def mem_New_def Let_def)
  have n: "mr_objects ?r = Map.empty" by (simp add: mem_New_def)
  have "\<exists>r. mem_Read device_ctx \<lparr>oid_Size = 0, oid_Hash = [1, 2, 3]\<rparr> 1 1 r' = Inr r \<and> fst (read_pieces Reader_Read [1, 1] r) = [2]"
    using commit_then_read [OF go_map_law c, of device_ctx 1 1 "\<lparr>oid_Size = 0, oid_Hash = [1, 2, 3]\<rparr>" "[1, 1]"]
    by (auto simp: b n device_ctx_def simp del: read_pieces.simps)
  moreover have "\<exists>r. mem_Read device_ctx \<lparr>oid_Size = 0, oid_Hash = [1, 2, 3]\<rparr> 1 0 r' = Inr r \<and> fst (read_pieces Reader_Read [1, 1] r) = [2, 3]"
    using commit_then_read [OF go_map_law c, of device_ctx 1 0 "\<lparr>oid_Size = 0, oid_Hash = [1, 2, 3]\<rparr>" "[1, 1]"]
    by (auto simp: b n device_ctx_def simp del: read_pieces.simps)
  ultimately show ?thesis unfolding c by auto
qed

lemma load_is_limited_witness:
  "fst (Load (\<lambda>c j off lim. mem_Read c j off lim demo_store) Reader_Close Reader_ID
     (\<lambda>r. (Inr (mrd_r r), r)) Inr device_ctx (Some device_ctx) \<lparr>oid_Size = 3, oid_Hash = [1, 2, 3]\<rparr>) = Inr [1, 2, 3]"
proof -
  have "mem_ok demo_store" by (simp add: mem_ok_def demo_store_def)
  moreover have "live device_ctx" by (simp add: live_def device_ctx_def)
  ultimately show ?thesis
    using load_is_limited [OF _ _ demo_store_look, of device_ctx "\<lambda>r. (Inr (mrd_r r), r)" Inr device_ctx]
    by (auto simp: MaxObjectSize_def reader_view_def split: if_splits)
qed

end
