(* ===== verification/Repo_Groups.thy ===== *)
theory Repo_Groups
  imports Object_Readers "HOL-Library.Multiset"
begin

section \<open>Repository groups (\<open>repo_group.go\<close>, \<open>repositories.go\<close>)\<close>

text \<open>
  The objects module registers repositories under names; a group is a repository whose members
  are names.  Registered repositories are objects on the heap, so two names may stand for one
  repository; a leaf is a repository that is not a group, with its operations as arguments.

  A group calls its members through the interface, and a member may be a group: the operations
  recurse through the registry.  The recursion takes fuel, one unit per level of nesting, and
  answers \<open>None\<close> when it runs out, which stands for the recursion that does not come back; a
  registry whose groups are ranked, none reaching itself, answers with fuel above the rank.

  \<open>sig.Set\<close> is an argument with its law.  A context is asked for its error at the calls of the
  source, one answer per call.  Results of a concurrent read arrive in any order.
\<close>

subsection \<open>Sets of the library\<close>

record member_ops =
  me_Add :: "string \<Rightarrow> string list \<Rightarrow> string list option"
  me_Remove :: "string \<Rightarrow> string list \<Rightarrow> string list option"

definition member_ops_law :: "member_ops \<Rightarrow> bool" where
  "member_ops_law so \<longleftrightarrow>
     (\<forall>x xs. distinct xs \<longrightarrow>
        (case me_Add so x xs of
           None \<Rightarrow> x \<in> set xs
         | Some ys \<Rightarrow> x \<notin> set xs \<and> distinct ys \<and> set ys = insert x (set xs)) \<and>
        (case me_Remove so x xs of
           None \<Rightarrow> x \<notin> set xs
         | Some ys \<Rightarrow> x \<in> set xs \<and> distinct ys \<and> set ys = set xs - {x}))"

definition list_members :: member_ops where
  "list_members =
     \<lparr>me_Add = (\<lambda>x xs. if x \<in> set xs then None else Some (xs @ [x])),
      me_Remove = (\<lambda>x xs. if x \<in> set xs then Some (removeAll x xs) else None)\<rparr>"

lemma list_members_law: "member_ops_law list_members"
  by (auto simp: member_ops_law_def list_members_def removeAll_filter_not_eq)

subsection \<open>The registry\<close>

record RepoGroup =
  rg_Concurrent :: bool
  rg_label :: string
  rg_repos :: "string list"

datatype 'x repo = RLeaf 'x | RGroup RepoGroup

record 'x objects_module =
  om_repos :: "string \<rightharpoonup> nat"
  om_heap :: "nat \<Rightarrow> 'x repo"

definition NewRepoGroup :: "string \<Rightarrow> bool \<Rightarrow> RepoGroup" where
  "NewRepoGroup label concurrent = \<lparr>rg_Concurrent = concurrent, rg_label = label, rg_repos = []\<rparr>"

definition AddRepository ::
  "(string, nat) map_ops \<Rightarrow> string \<Rightarrow> nat \<Rightarrow> 'x objects_module \<Rightarrow> obj_err option \<times> 'x objects_module" where
  "AddRepository mo name repo m =
     (case mp_Set mo name repo (om_repos m) of
        (b, repos) \<Rightarrow> (if b then None else Some (ErrAlreadyAdded name), m\<lparr>om_repos := repos\<rparr>))"

definition GetRepository :: "string \<Rightarrow> 'x objects_module \<Rightarrow> nat option" where
  "GetRepository name m = om_repos m name"

definition group_Add :: "member_ops \<Rightarrow> nat \<Rightarrow> string \<Rightarrow> 'x objects_module \<Rightarrow> obj_err option \<times> 'x objects_module" where
  "group_Add so a name m =
     (case om_heap m a of
        RLeaf _ \<Rightarrow> (Some (ErrNotAGroup name), m)
      | RGroup g \<Rightarrow>
          (if GetRepository name m = None then (Some (ErrRepoNotFound name), m)
           else case me_Add so name (rg_repos g) of
                  None \<Rightarrow> (Some ErrSetMember, m)
                | Some ns \<Rightarrow> (None, m\<lparr>om_heap := (om_heap m)(a := RGroup (g\<lparr>rg_repos := ns\<rparr>))\<rparr>)))"

definition group_Remove :: "member_ops \<Rightarrow> nat \<Rightarrow> string \<Rightarrow> 'x objects_module \<Rightarrow> obj_err option \<times> 'x objects_module" where
  "group_Remove so a name m =
     (case om_heap m a of
        RLeaf _ \<Rightarrow> (Some (ErrNotAGroup name), m)
      | RGroup g \<Rightarrow>
          (case me_Remove so name (rg_repos g) of
             None \<Rightarrow> (Some ErrSetMember, m)
           | Some ns \<Rightarrow> (None, m\<lparr>om_heap := (om_heap m)(a := RGroup (g\<lparr>rg_repos := ns\<rparr>))\<rparr>)))"

definition AddGroup ::
  "member_ops \<Rightarrow> string \<Rightarrow> string \<Rightarrow> 'x objects_module \<Rightarrow> obj_err option \<times> 'x objects_module" where
  "AddGroup so groupName repoName m =
     (case GetRepository groupName m of
        None \<Rightarrow> (Some (ErrRepoNotFound groupName), m)
      | Some a \<Rightarrow>
          (case om_heap m a of
             RLeaf _ \<Rightarrow> (Some (ErrNotAGroup groupName), m)
           | RGroup _ \<Rightarrow> group_Add so a repoName m))"

definition RemoveGroup ::
  "member_ops \<Rightarrow> string \<Rightarrow> string \<Rightarrow> 'x objects_module \<Rightarrow> obj_err option \<times> 'x objects_module" where
  "RemoveGroup so groupName repoName m =
     (case GetRepository groupName m of
        None \<Rightarrow> (Some (ErrRepoNotFound groupName), m)
      | Some a \<Rightarrow>
          (case om_heap m a of
             RLeaf _ \<Rightarrow> (Some (ErrNotAGroup groupName), m)
           | RGroup _ \<Rightarrow> group_Remove so a repoName m))"

text \<open>
  \<open>RemoveRepository\<close> with the repositories of the clone of the registry, in its order, and with
  what the removed repository does when told, if it takes the callback.
\<close>

fun remove_from_all :: "member_ops \<Rightarrow> string \<Rightarrow> nat list \<Rightarrow> 'x objects_module \<Rightarrow> 'x objects_module" where
  "remove_from_all so name [] m = m"
| "remove_from_all so name (a # as) m =
     remove_from_all so name as
       (case om_heap m a of RGroup _ \<Rightarrow> snd (group_Remove so a name m) | RLeaf _ \<Rightarrow> m)"

definition RemoveRepository ::
  "(string, nat) map_ops \<Rightarrow> member_ops \<Rightarrow> ('x \<Rightarrow> 'x) \<Rightarrow> ((string \<rightharpoonup> nat) \<Rightarrow> nat list) \<Rightarrow> string \<Rightarrow>
     'x objects_module \<Rightarrow> obj_err option \<times> 'x objects_module" where
  "RemoveRepository mo so afterRemoved clone name m =
     (if name = [] then (Some ErrNameEmpty, m)
      else case mp_Delete mo name (om_repos m) of
             (None, repos) \<Rightarrow> (Some (ErrRepoNotFound name), m\<lparr>om_repos := repos\<rparr>)
           | (Some removed, repos) \<Rightarrow>
               (let m1 = remove_from_all so name (clone repos) (m\<lparr>om_repos := repos\<rparr>)
                in (None,
                    case om_heap m1 removed of
                      RLeaf x \<Rightarrow> m1\<lparr>om_heap := (om_heap m1)(removed := RLeaf (afterRemoved x))\<rparr>
                    | RGroup _ \<Rightarrow> m1)))"

subsection \<open>Answers of a group\<close>

definition members :: "RepoGroup \<Rightarrow> 'x objects_module \<Rightarrow> nat list" where
  "members g m = List.map_filter (\<lambda>name. GetRepository name m) (rg_repos g)"

record lookupTally =
  lt_invoked :: nat
  lt_unsupported :: nat

definition tally0 :: lookupTally where
  "tally0 = \<lparr>lt_invoked = 0, lt_unsupported = 0\<rparr>"

definition tally_add :: "obj_err option \<Rightarrow> lookupTally \<Rightarrow> lookupTally" where
  "tally_add err tally =
     \<lparr>lt_invoked = lt_invoked tally + 1,
      lt_unsupported = lt_unsupported tally +
        (case err of None \<Rightarrow> 0 | Some e \<Rightarrow> if errors_Is e ErrHashLookupUnsupported then 1 else 0)\<rparr>"

definition missErr :: "Context \<Rightarrow> nat \<Rightarrow> lookupTally \<Rightarrow> obj_err option \<Rightarrow> obj_err option" where
  "missErr ctx t tally miss =
     (case cx_Err ctx t of
        Some err \<Rightarrow> Some err
      | None \<Rightarrow>
          (if lt_invoked tally > 0 \<and> lt_unsupported tally = lt_invoked tally
           then Some ErrHashLookupUnsupported else miss))"

text \<open>
  The loops over the members, with the call of a member as an argument.  A call takes the time
  at which it starts and answers the time at which it ends.
\<close>

fun contains_loop ::
  "(nat \<Rightarrow> nat \<Rightarrow> ((obj_err + bool) \<times> nat) option) \<Rightarrow> Context \<Rightarrow> nat \<Rightarrow> lookupTally \<Rightarrow> nat list \<Rightarrow>
     ((obj_err + bool) \<times> nat) option" where
  "contains_loop call ctx t tally [] =
     Some (case missErr ctx t tally None of Some e \<Rightarrow> Inl e | None \<Rightarrow> Inr False, Suc t)"
| "contains_loop call ctx t tally (a # as) =
     (if cx_Err ctx t \<noteq> None
      then Some (case missErr ctx (Suc t) tally None of Some e \<Rightarrow> Inl e | None \<Rightarrow> Inr False, Suc (Suc t))
      else case call (Suc t) a of
             None \<Rightarrow> None
           | Some (Inr True, t') \<Rightarrow> Some (Inr True, t')
           | Some (Inr False, t') \<Rightarrow> contains_loop call ctx t' (tally_add None tally) as
           | Some (Inl e, t') \<Rightarrow> contains_loop call ctx t' (tally_add (Some e) tally) as)"

fun read_loop ::
  "(nat \<Rightarrow> nat \<Rightarrow> ((obj_err + 'r) \<times> nat) option) \<Rightarrow> Context \<Rightarrow> nat \<Rightarrow> lookupTally \<Rightarrow> nat list \<Rightarrow>
     ((obj_err + 'r) \<times> nat) option" where
  "read_loop call ctx t tally [] =
     Some (case missErr ctx t tally (Some ErrNotFound) of Some e \<Rightarrow> Inl e | None \<Rightarrow> Inl ErrNotFound, Suc t)"
| "read_loop call ctx t tally (a # as) =
     (if cx_Err ctx t \<noteq> None
      then Some (case missErr ctx (Suc t) tally (Some ErrNotFound) of Some e \<Rightarrow> Inl e | None \<Rightarrow> Inl ErrNotFound,
                 Suc (Suc t))
      else case call (Suc t) a of
             None \<Rightarrow> None
           | Some (Inr r, t') \<Rightarrow> Some (Inr r, t')
           | Some (Inl e, t') \<Rightarrow> read_loop call ctx t' (tally_add (Some e) tally) as)"

fun delete_loop ::
  "(nat \<Rightarrow> nat \<Rightarrow> 'm \<Rightarrow> ((obj_err option \<times> nat) \<times> 'm) option) \<Rightarrow> Context \<Rightarrow> nat \<Rightarrow> lookupTally \<Rightarrow> bool \<Rightarrow>
     nat list \<Rightarrow> 'm \<Rightarrow> ((obj_err option \<times> nat) \<times> 'm) option" where
  "delete_loop call ctx t tally deleted [] m =
     Some ((if deleted then None else missErr ctx t tally (Some ErrNotFound), Suc t), m)"
| "delete_loop call ctx t tally deleted (a # as) m =
     (if cx_Err ctx t \<noteq> None
      then Some ((if deleted then None else missErr ctx (Suc t) tally (Some ErrNotFound), Suc (Suc t)), m)
      else case call (Suc t) a m of
             None \<Rightarrow> None
           | Some ((err, t'), m') \<Rightarrow>
               delete_loop call ctx t' (tally_add err tally) (deleted \<or> err = None) as m')"

text \<open>
  The collector of a concurrent read: the results that have arrived, in their order.  It answers
  the result of the read and the results whose readers it leaves to \<open>closeReaders\<close>.
\<close>

fun collect_loop ::
  "Context \<Rightarrow> nat \<Rightarrow> lookupTally \<Rightarrow> (obj_err + 'r) list \<Rightarrow> (obj_err + 'r) \<times> nat \<times> (obj_err + 'r) list" where
  "collect_loop ctx t tally [] =
     (case missErr ctx t tally (Some ErrNotFound) of Some e \<Rightarrow> Inl e | None \<Rightarrow> Inl ErrNotFound, Suc t, [])"
| "collect_loop ctx t tally (res # rest) =
     (case cx_Err ctx t of
        Some err \<Rightarrow> (Inl err, Suc t, res # rest)
      | None \<Rightarrow>
          (case res of
             Inr r \<Rightarrow> (Inr r, Suc t, rest)
           | Inl e \<Rightarrow> collect_loop ctx (Suc t) (tally_add (Some e) tally) rest))"

fun hits :: "(obj_err + 'r) list \<Rightarrow> 'r list" where
  "hits [] = []"
| "hits (Inr r # xs) = r # hits xs"
| "hits (Inl e # xs) = hits xs"

definition closeReaders :: "('r \<Rightarrow> 'r) \<Rightarrow> (obj_err + 'r) list \<Rightarrow> 'r list" where
  "closeReaders rclose xs = map rclose (hits xs)"

definition readConcurrent ::
  "('r \<Rightarrow> 'r) \<Rightarrow> ((obj_err + 'r) list \<Rightarrow> (obj_err + 'r) list) \<Rightarrow> (nat \<Rightarrow> nat \<Rightarrow> ((obj_err + 'r) \<times> nat) option) \<Rightarrow>
     Context \<Rightarrow> nat \<Rightarrow> nat list \<Rightarrow> (((obj_err + 'r) \<times> nat) \<times> 'r list) option" where
  "readConcurrent rclose arrive call ctx t as =
     (case cx_Err ctx t of
        Some err \<Rightarrow> Some ((Inl err, Suc t), [])
      | None \<Rightarrow>
          (case those (map (\<lambda>a. map_option fst (call (Suc t) a)) as) of
             None \<Rightarrow> None
           | Some rs \<Rightarrow>
               (case collect_loop ctx (Suc t) tally0 (arrive rs) of
                  (res, t', left) \<Rightarrow> Some ((res, t'), closeReaders rclose left))))"

definition group_Read ::
  "('r \<Rightarrow> 'r) \<Rightarrow> ((obj_err + 'r) list \<Rightarrow> (obj_err + 'r) list) \<Rightarrow> (nat \<Rightarrow> nat \<Rightarrow> ((obj_err + 'r) \<times> nat) option) \<Rightarrow>
     Context \<Rightarrow> nat \<Rightarrow> RepoGroup \<Rightarrow> 'x objects_module \<Rightarrow> ((obj_err + 'r) \<times> nat) option" where
  "group_Read rclose arrive call ctx t g m =
     (if rg_Concurrent g then map_option fst (readConcurrent rclose arrive call ctx t (members g m))
      else read_loop call ctx t tally0 (members g m))"

definition group_Contains ::
  "(nat \<Rightarrow> nat \<Rightarrow> ((obj_err + bool) \<times> nat) option) \<Rightarrow> Context \<Rightarrow> nat \<Rightarrow> RepoGroup \<Rightarrow> 'x objects_module \<Rightarrow>
     ((obj_err + bool) \<times> nat) option" where
  "group_Contains call ctx t g m = contains_loop call ctx t tally0 (members g m)"

definition group_Delete ::
  "(nat \<Rightarrow> nat \<Rightarrow> 'x objects_module \<Rightarrow> ((obj_err option \<times> nat) \<times> 'x objects_module) option) \<Rightarrow> Context \<Rightarrow> nat \<Rightarrow>
     RepoGroup \<Rightarrow> 'x objects_module \<Rightarrow> ((obj_err option \<times> nat) \<times> 'x objects_module) option" where
  "group_Delete call ctx t g m = delete_loop call ctx t tally0 False (members g m) m"

fun create_loop :: "(nat \<Rightarrow> (obj_err + 'w) option) \<Rightarrow> obj_err list \<Rightarrow> nat list \<Rightarrow> (obj_err + 'w) option" where
  "create_loop call errs [] = Some (Inl (if errs = [] then ErrRepoGroupEmpty else ErrJoined errs))"
| "create_loop call errs (a # as) =
     (case call a of
        None \<Rightarrow> None
      | Some (Inr w) \<Rightarrow> Some (Inr w)
      | Some (Inl e) \<Rightarrow> create_loop call (errs @ [e]) as)"

definition group_Create :: "(nat \<Rightarrow> (obj_err + 'w) option) \<Rightarrow> RepoGroup \<Rightarrow> 'x objects_module \<Rightarrow> (obj_err + 'w) option" where
  "group_Create call g m = create_loop call [] (members g m)"

fun free_loop :: "(nat \<Rightarrow> (obj_err + int) option) \<Rightarrow> int \<Rightarrow> nat list \<Rightarrow> (obj_err + int) option" where
  "free_loop call acc [] = Some (Inr acc)"
| "free_loop call acc (a # as) =
     (case call a of
        None \<Rightarrow> None
      | Some (Inl e) \<Rightarrow> Some (Inl e)
      | Some (Inr n) \<Rightarrow> free_loop call (if n > 0 then int64 (acc + n) else acc) as)"

definition group_Free :: "(nat \<Rightarrow> (obj_err + int) option) \<Rightarrow> RepoGroup \<Rightarrow> 'x objects_module \<Rightarrow> (obj_err + int) option" where
  "group_Free call g m = free_loop call 0 (members g m)"

subsection \<open>Calls through the registry\<close>

fun repo_Contains ::
  "(Context \<Rightarrow> nat \<Rightarrow> 'h ObjectID \<Rightarrow> 'x \<Rightarrow> (obj_err + bool) \<times> nat) \<Rightarrow> 'x objects_module \<Rightarrow> nat \<Rightarrow> Context \<Rightarrow> nat \<Rightarrow>
     'h ObjectID \<Rightarrow> nat \<Rightarrow> ((obj_err + bool) \<times> nat) option" where
  "repo_Contains lc m 0 ctx t i a = None"
| "repo_Contains lc m (Suc n) ctx t i a =
     (case om_heap m a of
        RLeaf x \<Rightarrow> Some (lc ctx t i x)
      | RGroup g \<Rightarrow> group_Contains (\<lambda>t' b. repo_Contains lc m n ctx t' i b) ctx t g m)"

fun repo_Read ::
  "(Context \<Rightarrow> nat \<Rightarrow> 'h ObjectID \<Rightarrow> int \<Rightarrow> int \<Rightarrow> 'x \<Rightarrow> (obj_err + 'r) \<times> nat) \<Rightarrow> ('r \<Rightarrow> 'r) \<Rightarrow>
     ((obj_err + 'r) list \<Rightarrow> (obj_err + 'r) list) \<Rightarrow> 'x objects_module \<Rightarrow> nat \<Rightarrow> Context \<Rightarrow> nat \<Rightarrow>
     'h ObjectID \<Rightarrow> int \<Rightarrow> int \<Rightarrow> nat \<Rightarrow> ((obj_err + 'r) \<times> nat) option" where
  "repo_Read lr rclose arrive m 0 ctx t i off lim a = None"
| "repo_Read lr rclose arrive m (Suc n) ctx t i off lim a =
     (case om_heap m a of
        RLeaf x \<Rightarrow> Some (lr ctx t i off lim x)
      | RGroup g \<Rightarrow> group_Read rclose arrive (\<lambda>t' b. repo_Read lr rclose arrive m n ctx t' i off lim b) ctx t g m)"

fun repo_Delete ::
  "(Context \<Rightarrow> nat \<Rightarrow> 'h ObjectID \<Rightarrow> 'x \<Rightarrow> (obj_err option \<times> nat) \<times> 'x) \<Rightarrow> nat \<Rightarrow> Context \<Rightarrow> nat \<Rightarrow>
     'h ObjectID \<Rightarrow> nat \<Rightarrow> 'x objects_module \<Rightarrow> ((obj_err option \<times> nat) \<times> 'x objects_module) option" where
  "repo_Delete ld 0 ctx t i a m = None"
| "repo_Delete ld (Suc n) ctx t i a m =
     (case om_heap m a of
        RLeaf x \<Rightarrow> (case ld ctx t i x of (res, x') \<Rightarrow> Some (res, m\<lparr>om_heap := (om_heap m)(a := RLeaf x')\<rparr>))
      | RGroup g \<Rightarrow> group_Delete (\<lambda>t' b m'. repo_Delete ld n ctx t' i b m') ctx t g m)"

text \<open>What is stored in a repository: for a group, what is stored in its members.\<close>

fun repo_cont :: "('x \<Rightarrow> 'h \<rightharpoonup> bytes) \<Rightarrow> 'x objects_module \<Rightarrow> nat \<Rightarrow> nat \<Rightarrow> 'h \<rightharpoonup> bytes" where
  "repo_cont lcont m 0 a = Map.empty"
| "repo_cont lcont m (Suc n) a =
     (case om_heap m a of
        RLeaf x \<Rightarrow> lcont x
      | RGroup g \<Rightarrow> foldr (\<lambda>b acc. acc ++ repo_cont lcont m n b) (members g m) Map.empty)"

definition ranked :: "(nat \<Rightarrow> nat) \<Rightarrow> 'x objects_module \<Rightarrow> bool" where
  "ranked rank m \<longleftrightarrow> (\<forall>a g. om_heap m a = RGroup g \<longrightarrow> (\<forall>b \<in> set (members g m). rank b < rank a))"

subsection \<open>A group keeps the contract of its members\<close>

lemma live_poll: "live ctx \<Longrightarrow> cx_Err ctx t = None"
  by (simp add: live_def)

lemma missErr_miss: "live ctx \<Longrightarrow> lt_unsupported tally = 0 \<Longrightarrow> missErr ctx t tally miss = miss"
  by (auto simp: missErr_def live_poll)

lemma tally_add_supported:
  "lt_unsupported tally = 0 \<Longrightarrow> (case err of None \<Rightarrow> True | Some e \<Rightarrow> \<not> errors_Is e ErrHashLookupUnsupported) \<Longrightarrow>
     lt_unsupported (tally_add err tally) = 0"
  by (auto simp: tally_add_def split: option.splits)

lemma contains_loop_any:
  assumes "live ctx" and "lt_unsupported tally = 0"
    and "\<And>b t. b \<in> set bs \<Longrightarrow> \<exists>t'. call t b = Some (Inr (P b), t')"
  shows "\<exists>t'. contains_loop call ctx t tally bs = Some (Inr (\<exists>b \<in> set bs. P b), t')"
  using assms(2,3)
proof (induction bs arbitrary: t tally)
  case (Cons b bs)
  obtain t' where "call (Suc t) b = Some (Inr (P b), t')" using Cons.prems(2) [of b "Suc t"] by auto
  moreover have "lt_unsupported (tally_add None tally) = 0"
    using Cons.prems(1) by (simp add: tally_add_supported)
  ultimately show ?case
    using Cons.IH [of "tally_add None tally" t'] Cons.prems(2) live_poll [OF assms(1)]
    by (cases "P b") auto
qed (simp add: missErr_miss [OF assms(1)])

lemma read_loop_any:
  assumes "live ctx" and "lt_unsupported tally = 0"
    and "\<And>b t. b \<in> set bs \<Longrightarrow> \<exists>res t'. call t b = Some (res, t') \<and>
           (case res of Inl e \<Rightarrow> \<not> errors_Is e ErrHashLookupUnsupported \<and> \<not> H b | Inr r \<Rightarrow> Q r \<and> H b)"
  shows "\<exists>res t'. read_loop call ctx t tally bs = Some (res, t') \<and>
           (if \<exists>b \<in> set bs. H b then \<exists>r. res = Inr r \<and> Q r else res = Inl ErrNotFound)"
  using assms(2,3)
proof (induction bs arbitrary: t tally)
  case (Cons b bs)
  obtain res t' where c: "call (Suc t) b = Some (res, t')"
    "case res of Inl e \<Rightarrow> \<not> errors_Is e ErrHashLookupUnsupported \<and> \<not> H b | Inr r \<Rightarrow> Q r \<and> H b"
    using Cons.prems(2) [of b "Suc t"] by auto
  show ?case
  proof (cases res)
    case (Inl e)
    with c Cons.prems have "lt_unsupported (tally_add (Some e) tally) = 0" by (simp add: tally_add_supported)
    from Cons.IH [OF this, of t'] Cons.prems(2) obtain r2 t2 where
      "read_loop call ctx t' (tally_add (Some e) tally) bs = Some (r2, t2) \<and>
        (if \<exists>b \<in> set bs. H b then \<exists>r. r2 = Inr r \<and> Q r else r2 = Inl ErrNotFound)" by auto
    then show ?thesis using c Inl live_poll [OF assms(1)] by auto
  next
    case (Inr r)
    then show ?thesis using c live_poll [OF assms(1)] by auto
  qed
qed (simp add: missErr_miss [OF assms(1)])

lemma collect_loop_any:
  assumes "live ctx" and "lt_unsupported tally = 0"
    and "\<And>e. Inl e \<in> set rs \<Longrightarrow> \<not> errors_Is e ErrHashLookupUnsupported" and "\<And>r. Inr r \<in> set rs \<Longrightarrow> Q r"
  shows "\<exists>res t' left. collect_loop ctx t tally rs = (res, t', left) \<and>
           (if hits rs \<noteq> [] then \<exists>r. res = Inr r \<and> Q r else res = Inl ErrNotFound)"
  using assms(2-4)
proof (induction rs arbitrary: t tally)
  case (Cons x rs)
  show ?case
  proof (cases x)
    case (Inl e)
    with Cons.prems have "lt_unsupported (tally_add (Some e) tally) = 0" by (simp add: tally_add_supported)
    from Cons.IH [OF this, of "Suc t"] Cons.prems(2,3) obtain r2 t2 l2 where
      "collect_loop ctx (Suc t) (tally_add (Some e) tally) rs = (r2, t2, l2) \<and>
        (if hits rs \<noteq> [] then \<exists>r. r2 = Inr r \<and> Q r else r2 = Inl ErrNotFound)" by auto
    then show ?thesis using Inl live_poll [OF assms(1)] by auto
  next
    case (Inr r)
    then show ?thesis using Cons.prems(3) live_poll [OF assms(1)] by auto
  qed
qed (simp add: missErr_miss [OF assms(1)])

lemma hits_iff: "r \<in> set (hits rs) \<longleftrightarrow> Inr r \<in> set rs"
  by (induction rs rule: hits.induct) auto

lemma those_map_Some: "(\<And>b. b \<in> set bs \<Longrightarrow> f b = Some (g b)) \<Longrightarrow> those (map f bs) = Some (map g bs)"
  by (induction bs) auto

lemma those_Some: "those xs = Some ys \<longleftrightarrow> xs = map Some ys"
  by (induction xs arbitrary: ys) (auto split: option.splits simp: Cons_eq_map_conv)

definition any_order :: "('a list \<Rightarrow> 'a list) \<Rightarrow> bool" where
  "any_order arrive \<longleftrightarrow> (\<forall>xs. mset (arrive xs) = mset xs)"

lemma concurrent_any:
  assumes "live ctx" and "any_order arrive"
    and call: "\<And>b t. b \<in> set bs \<Longrightarrow> \<exists>res t'. call t b = Some (res, t') \<and>
           (case res of Inl e \<Rightarrow> \<not> errors_Is e ErrHashLookupUnsupported \<and> \<not> H b | Inr r \<Rightarrow> Q r \<and> H b)"
  shows "\<exists>res t' cl. readConcurrent rclose arrive call ctx t bs = Some ((res, t'), cl) \<and>
           (if \<exists>b \<in> set bs. H b then \<exists>r. res = Inr r \<and> Q r else res = Inl ErrNotFound)"
proof -
  define g where "g b = fst (the (call (Suc t) b))" for b
  have g: "map_option fst (call (Suc t) b) = Some (g b)"
    and gc: "case g b of Inl e \<Rightarrow> \<not> errors_Is e ErrHashLookupUnsupported \<and> \<not> H b | Inr r \<Rightarrow> Q r \<and> H b" if "b \<in> set bs" for b
    using call [OF that, of "Suc t"] by (auto simp: g_def)
  define rs where "rs = arrive (map g bs)"
  have set: "set rs = g ` set bs"
    using assms(2) unfolding rs_def any_order_def by (metis list.set_map mset_eq_setD)
  have "\<not> errors_Is e ErrHashLookupUnsupported" if "Inl e \<in> set rs" for e
    using that gc unfolding set by (force split: sum.splits)
  moreover have "Q r" if "Inr r \<in> set rs" for r
    using that gc unfolding set by (force split: sum.splits)
  ultimately obtain res t' left where c: "collect_loop ctx (Suc t) tally0 rs = (res, t', left)"
    "if hits rs \<noteq> [] then \<exists>r. res = Inr r \<and> Q r else res = Inl ErrNotFound"
    using collect_loop_any [OF assms(1), of tally0 rs Q "Suc t"] by (auto simp: tally0_def)
  have "hits rs \<noteq> [] \<longleftrightarrow> (\<exists>r. Inr r \<in> set rs)"
    by (metis hits_iff list.set_intros(1) neq_Nil_conv empty_iff list.set(1))
  also have "\<dots> \<longleftrightarrow> (\<exists>b \<in> set bs. H b)"
    unfolding set using gc by (force split: sum.splits)
  finally show ?thesis
    using c those_map_Some [of bs _ g, OF g] live_poll [OF assms(1)]
    by (simp add: readConcurrent_def rs_def)
qed

lemma foldr_cont_None:
  "foldr (\<lambda>b acc. acc ++ f b) bs Map.empty h = None \<longleftrightarrow> (\<forall>b \<in> set bs. f b h = None)"
  by (induction bs) auto

lemma foldr_cont_Some:
  "foldr (\<lambda>b acc. acc ++ f b) bs Map.empty h = Some d \<Longrightarrow> \<exists>b \<in> set bs. f b h = Some d"
  by (induction bs) auto

text \<open>Leaves never disagree on the content under a hash.\<close>

definition agree :: "('x \<Rightarrow> 'h \<rightharpoonup> bytes) \<Rightarrow> 'x objects_module \<Rightarrow> bool" where
  "agree lcont m \<longleftrightarrow>
     (\<forall>a b x y h d d'. om_heap m a = RLeaf x \<longrightarrow> om_heap m b = RLeaf y \<longrightarrow>
        lcont x h = Some d \<longrightarrow> lcont y h = Some d' \<longrightarrow> d = d')"

lemma repo_cont_leaf:
  "repo_cont lcont m n a h = Some d \<Longrightarrow> \<exists>b x. om_heap m b = RLeaf x \<and> lcont x h = Some d"
proof (induction n arbitrary: a)
  case (Suc n)
  then show ?case by (auto split: repo.splits dest: foldr_cont_Some)
qed simp

lemma cont_agree:
  "agree lcont m \<Longrightarrow> repo_cont lcont m n a h = Some d \<Longrightarrow> repo_cont lcont m k b h = Some d' \<Longrightarrow> d = d'"
  unfolding agree_def by (meson repo_cont_leaf)

lemma group_cont_Some:
  assumes "agree lcont m" and "om_heap m a = RGroup g"
  shows "repo_cont lcont m (Suc n) a h = Some d \<longleftrightarrow> (\<exists>b \<in> set (members g m). repo_cont lcont m n b h = Some d)"
proof
  assume "repo_cont lcont m (Suc n) a h = Some d"
  then show "\<exists>b \<in> set (members g m). repo_cont lcont m n b h = Some d"
    using assms(2) by (auto dest: foldr_cont_Some)
next
  assume "\<exists>b \<in> set (members g m). repo_cont lcont m n b h = Some d"
  then obtain b where b: "b \<in> set (members g m)" "repo_cont lcont m n b h = Some d" by blast
  then have "repo_cont lcont m (Suc n) a h \<noteq> None"
    using assms(2) by (simp del: not_None_eq add: foldr_cont_None) force
  then obtain d' where d': "repo_cont lcont m (Suc n) a h = Some d'" by blast
  with cont_agree [OF assms(1) d' b(2)] show "repo_cont lcont m (Suc n) a h = Some d" by simp
qed

lemma group_find:
  assumes "agree lcont m" and "om_heap m a = RGroup g"
  shows "find_in (repo_cont lcont m (Suc n) a) i = Some d \<longleftrightarrow>
    (\<exists>b \<in> set (members g m). find_in (repo_cont lcont m n b) i = Some d)"
  by (simp only: find_in_Some group_cont_Some [OF assms]) blast

context repository
begin

definition tree_ok :: "(nat \<Rightarrow> nat) \<Rightarrow> 's objects_module \<Rightarrow> bool" where
  "tree_ok rank m \<longleftrightarrow> ranked rank m \<and> agree cont m \<and> (\<forall>a x. om_heap m a = RLeaf x \<longrightarrow> ok x)"

lemma tree_contains:
  assumes "tree_ok rank m" and "live ctx"
  shows "rank a < n \<Longrightarrow>
    \<exists>t'. repo_Contains rContains m n ctx t i a = Some (Inr (find_in (repo_cont cont m n a) i \<noteq> None), t')"
proof (induction n arbitrary: a t)
  case (Suc n)
  show ?case
  proof (cases "om_heap m a")
    case (RLeaf x)
    then have "ok x" using assms(1) by (auto simp: tree_ok_def)
    with RLeaf contains_law [OF this assms(2), of t i] show ?thesis
      by (cases "rContains ctx t i x") auto
  next
    case (RGroup g)
    have ag: "agree cont m" using assms(1) by (simp add: tree_ok_def)
    have call: "\<exists>t'. repo_Contains rContains m n ctx u i b = Some (Inr (find_in (repo_cont cont m n b) i \<noteq> None), t')"
      if "b \<in> set (members g m)" for b u
      using Suc.IH [of b u] Suc.prems that assms(1) RGroup by (fastforce simp: tree_ok_def ranked_def)
    obtain t' where "contains_loop (\<lambda>t' b. repo_Contains rContains m n ctx t' i b) ctx t tally0 (members g m) =
        Some (Inr (\<exists>b \<in> set (members g m). find_in (repo_cont cont m n b) i \<noteq> None), t')"
      using contains_loop_any [of ctx tally0 "members g m" "\<lambda>t' b. repo_Contains rContains m n ctx t' i b"
          "\<lambda>b. find_in (repo_cont cont m n b) i \<noteq> None" t] assms(2) call
      by (auto simp: tally0_def simp del: not_None_eq)
    moreover have "(\<exists>b \<in> set (members g m). find_in (repo_cont cont m n b) i \<noteq> None) \<longleftrightarrow>
        find_in (repo_cont cont m (Suc n) a) i \<noteq> None"
      using group_find [OF ag RGroup, of n i] by (metis not_Some_eq)
    ultimately show ?thesis using RGroup by (simp add: group_Contains_def)
  qed
qed simp

text \<open>The outcome of a read: a reader on the window, or an error, \<open>ErrNotFound\<close> when nothing is there.\<close>

definition read_outcome :: "('h \<rightharpoonup> bytes) \<Rightarrow> 'h ObjectID \<Rightarrow> int \<Rightarrow> int \<Rightarrow> obj_err + 'r \<Rightarrow> bool" where
  "read_outcome c i off lim res \<longleftrightarrow>
     (case find_in c i of
        None \<Rightarrow> res = Inl ErrNotFound
      | Some d \<Rightarrow>
          (case ResolveReadLimit (full_id i d) off lim of
             Inl _ \<Rightarrow> \<exists>e. res = Inl e \<and> \<not> errors_Is e ErrHashLookupUnsupported
           | Inr len \<Rightarrow> \<exists>r. res = Inr r \<and> rID r = full_id i d \<and>
                          view r = Some (take (nat len) (drop (nat off) d))))"

lemma leaf_outcome:
  assumes "ok s" and "live ctx"
  shows "read_outcome (cont s) i off lim (fst (rRead ctx t i off lim s))"
  using read_none [OF assms, of i t off lim] read_out [OF assms, of i _ off lim _ t] read_some [OF assms, of i _ off lim _ t]
  by (auto simp: read_outcome_def split: option.splits sum.splits)

lemma tree_read:
  assumes "tree_ok rank m" and "live ctx" and "any_order arrive"
  shows "rank a < n \<Longrightarrow>
    \<exists>res t'. repo_Read rRead rclose arrive m n ctx t i off lim a = Some (res, t') \<and>
      read_outcome (repo_cont cont m n a) i off lim res"
proof (induction n arbitrary: a t)
  case (Suc n)
  show ?case
  proof (cases "om_heap m a")
    case (RLeaf x)
    then have "ok x" using assms(1) by (auto simp: tree_ok_def)
    with RLeaf leaf_outcome [OF this assms(2), of i off lim t] show ?thesis
      by (cases "rRead ctx t i off lim x") auto
  next
    case (RGroup g)
    have ag: "agree cont m" using assms(1) by (simp add: tree_ok_def)
    let ?f = "\<lambda>b. find_in (repo_cont cont m n b) i"
    let ?hit = "\<lambda>d len r. rID r = full_id i d \<and> view r = Some (take (nat len) (drop (nat off) d))"
    define H where "H b \<longleftrightarrow> (\<exists>d len. ?f b = Some d \<and> ResolveReadLimit (full_id i d) off lim = Inr len)" for b
    define Q where "Q r \<longleftrightarrow> (\<exists>b d len. b \<in> set (members g m) \<and> ?f b = Some d \<and>
        ResolveReadLimit (full_id i d) off lim = Inr len \<and> ?hit d len r)" for r
    have call: "\<exists>res t'. repo_Read rRead rclose arrive m n ctx u i off lim b = Some (res, t') \<and>
        (case res of Inl e \<Rightarrow> \<not> errors_Is e ErrHashLookupUnsupported \<and> \<not> H b | Inr r \<Rightarrow> Q r \<and> H b)"
      if b: "b \<in> set (members g m)" for b u
    proof -
      have "rank b < n" using Suc.prems b assms(1) RGroup by (fastforce simp: tree_ok_def ranked_def)
      from Suc.IH [OF this, of u] obtain res t' where r: "repo_Read rRead rclose arrive m n ctx u i off lim b = Some (res, t')"
        "read_outcome (repo_cont cont m n b) i off lim res" by blast
      have "case res of Inl e \<Rightarrow> \<not> errors_Is e ErrHashLookupUnsupported \<and> \<not> H b | Inr r \<Rightarrow> Q r \<and> H b"
        using r(2) b by (auto simp: read_outcome_def H_def Q_def split: option.splits sum.splits)
      with r(1) show ?thesis by blast
    qed
    have "\<exists>res t'. group_Read rclose arrive (\<lambda>t' b. repo_Read rRead rclose arrive m n ctx t' i off lim b) ctx t g m = Some (res, t') \<and>
        (if \<exists>b \<in> set (members g m). H b then \<exists>r. res = Inr r \<and> Q r else res = Inl ErrNotFound)"
    proof (cases "rg_Concurrent g")
      case True
      obtain res t' cl where
        "readConcurrent rclose arrive (\<lambda>t' b. repo_Read rRead rclose arrive m n ctx t' i off lim b) ctx t (members g m) =
          Some ((res, t'), cl)"
        "if \<exists>b \<in> set (members g m). H b then \<exists>r. res = Inr r \<and> Q r else res = Inl ErrNotFound"
        using concurrent_any [of ctx arrive "members g m" "\<lambda>t' b. repo_Read rRead rclose arrive m n ctx t' i off lim b"
            H Q rclose t, OF assms(2,3) call] by blast
      with True show ?thesis by (simp add: group_Read_def)
    next
      case False
      have "lt_unsupported tally0 = 0" by (simp add: tally0_def)
      from read_loop_any [of ctx tally0 "members g m" "\<lambda>t' b. repo_Read rRead rclose arrive m n ctx t' i off lim b"
          H Q t, OF assms(2) this call] False
      show ?thesis by (simp add: group_Read_def)
    qed
    then obtain res t' where res: "repo_Read rRead rclose arrive m (Suc n) ctx t i off lim a = Some (res, t')"
      "if \<exists>b \<in> set (members g m). H b then \<exists>r. res = Inr r \<and> Q r else res = Inl ErrNotFound"
      using RGroup by auto
    have "read_outcome (repo_cont cont m (Suc n) a) i off lim res"
    proof (cases "find_in (repo_cont cont m (Suc n) a) i")
      case None
      then have "\<not> (\<exists>b \<in> set (members g m). H b)"
        using group_find [OF ag RGroup, of n i] by (auto simp: H_def)
      with res(2) None show ?thesis by (simp add: read_outcome_def)
    next
      case (Some d)
      have same: "?f b = Some d' \<Longrightarrow> d' = d" if "b \<in> set (members g m)" for b d'
        using Some cont_agree [OF ag] by (auto simp: find_in_Some simp del: repo_cont.simps)
      have "(\<exists>b \<in> set (members g m). H b) \<longleftrightarrow> (\<exists>len. ResolveReadLimit (full_id i d) off lim = Inr len)"
        using group_find [OF ag RGroup, of n i d] Some same unfolding H_def by blast
      with res(2) Some same show ?thesis
        unfolding read_outcome_def Q_def by (auto split: sum.splits if_splits)
    qed
    with res(1) show ?thesis by blast
  qed
qed simp

text \<open>What deleting under one hash does to the registry: leaves may lose that entry, nothing else.\<close>

definition shrunk :: "'h \<Rightarrow> 's objects_module \<Rightarrow> 's objects_module \<Rightarrow> bool" where
  "shrunk h m m' \<longleftrightarrow>
     om_repos m' = om_repos m \<and>
     (\<forall>a. case om_heap m a of
            RGroup g \<Rightarrow> om_heap m' a = RGroup g
          | RLeaf x \<Rightarrow> \<exists>x'. om_heap m' a = RLeaf x' \<and> (ok x \<longrightarrow> ok x') \<and>
                        (cont x' = cont x \<or> cont x' = (cont x)(h := None)))"

lemma shrunk_refl: "shrunk h m m"
  by (auto simp: shrunk_def split: repo.split)

lemma shrunkD:
  assumes "shrunk h m m'"
  shows "om_repos m' = om_repos m" and "om_heap m a = RGroup g \<Longrightarrow> om_heap m' a = RGroup g"
    and "om_heap m a = RLeaf x \<Longrightarrow> \<exists>x'. om_heap m' a = RLeaf x' \<and> (ok x \<longrightarrow> ok x') \<and>
           (cont x' = cont x \<or> cont x' = (cont x)(h := None))"
  using assms by (auto simp: shrunk_def split: repo.splits)

lemma shrunk_trans:
  assumes "shrunk h m m1" and "shrunk h m1 m2"
  shows "shrunk h m m2"
  unfolding shrunk_def
proof (intro conjI allI)
  show "om_repos m2 = om_repos m" using assms by (simp add: shrunk_def)
  fix a
  show "case om_heap m a of RGroup g \<Rightarrow> om_heap m2 a = RGroup g
      | RLeaf x \<Rightarrow> \<exists>x'. om_heap m2 a = RLeaf x' \<and> (ok x \<longrightarrow> ok x') \<and> (cont x' = cont x \<or> cont x' = (cont x)(h := None))"
  proof (cases "om_heap m a")
    case (RLeaf x)
    from shrunkD(3) [OF assms(1) RLeaf] obtain x1 where 1: "om_heap m1 a = RLeaf x1" "ok x \<longrightarrow> ok x1"
      "cont x1 = cont x \<or> cont x1 = (cont x)(h := None)" by blast
    from shrunkD(3) [OF assms(2) 1(1)] obtain x2 where 2: "om_heap m2 a = RLeaf x2" "ok x1 \<longrightarrow> ok x2"
      "cont x2 = cont x1 \<or> cont x2 = (cont x1)(h := None)" by blast
    show ?thesis using RLeaf 1 2 by auto
  qed (use shrunkD(2) [OF assms(1)] shrunkD(2) [OF assms(2)] in simp)
qed

lemma shrunk_members: "shrunk h m m' \<Longrightarrow> members g m' = members g m"
  by (simp add: members_def GetRepository_def shrunkD(1))

lemma shrunk_leaf:
  assumes "shrunk h m m'" and "om_heap m' a = RLeaf x'"
  shows "\<exists>x. om_heap m a = RLeaf x \<and> (ok x \<longrightarrow> ok x') \<and> (cont x' = cont x \<or> cont x' = (cont x)(h := None))"
proof (cases "om_heap m a")
  case (RLeaf x)
  with shrunkD(3) [OF assms(1) RLeaf] assms(2) show ?thesis by auto
qed (use shrunkD(2) [OF assms(1)] assms(2) in simp)

lemma shrunk_ok:
  assumes "shrunk h m m'" and "tree_ok rank m"
  shows "tree_ok rank m'"
proof -
  have "om_heap m a = RGroup g" if "om_heap m' a = RGroup g" for a g
    using that shrunkD(2,3) [OF assms(1)] by (cases "om_heap m a") fastforce+
  then have "ranked rank m'"
    using assms(2) by (auto simp: tree_ok_def ranked_def shrunk_members [OF assms(1)])
  moreover have "agree cont m'"
    unfolding agree_def
  proof (intro allI impI)
    fix a b x y k d d'
    assume h: "om_heap m' a = RLeaf x" "om_heap m' b = RLeaf y" "cont x k = Some d" "cont y k = Some d'"
    obtain u where u: "om_heap m a = RLeaf u" "cont u k = Some d"
      using shrunk_leaf [OF assms(1) h(1)] h(3) by (auto split: if_splits)
    obtain v where v: "om_heap m b = RLeaf v" "cont v k = Some d'"
      using shrunk_leaf [OF assms(1) h(2)] h(4) by (auto split: if_splits)
    show "d = d'" using assms(2) u v by (auto simp: tree_ok_def agree_def)
  qed
  moreover have "\<forall>a x. om_heap m' a = RLeaf x \<longrightarrow> ok x"
    using shrunk_leaf [OF assms(1)] assms(2) unfolding tree_ok_def by blast
  ultimately show ?thesis by (simp add: tree_ok_def)
qed

lemma shrunk_cont:
  assumes "shrunk h m m'" and "agree cont m" and "agree cont m'"
  shows "k \<noteq> h \<Longrightarrow> repo_cont cont m' n a k = repo_cont cont m n a k"
    and "repo_cont cont m' n a h = Some d \<Longrightarrow> repo_cont cont m n a h = Some d"
proof -
  show "repo_cont cont m' n a k = repo_cont cont m n a k" if k: "k \<noteq> h"
  proof (induction n arbitrary: a)
    case (Suc n)
    show ?case
    proof (cases "om_heap m a")
      case (RLeaf x)
      with shrunkD(3) [OF assms(1) RLeaf] k show ?thesis by auto
    next
      case (RGroup g)
      note R' = shrunkD(2) [OF assms(1) RGroup]
      have "repo_cont cont m' (Suc n) a k = Some d \<longleftrightarrow> repo_cont cont m (Suc n) a k = Some d" for d
        by (simp only: group_cont_Some [OF assms(2) RGroup] group_cont_Some [OF assms(3) R'] shrunk_members [OF assms(1)] Suc.IH)
      then show ?thesis by (metis not_Some_eq)
    qed
  qed simp
  show "repo_cont cont m' n a h = Some d \<Longrightarrow> repo_cont cont m n a h = Some d"
  proof (induction n arbitrary: a)
    case (Suc n)
    show ?case
    proof (cases "om_heap m a")
      case (RLeaf x)
      with shrunkD(3) [OF assms(1) RLeaf] Suc.prems show ?thesis by auto
    next
      case (RGroup g)
      note R' = shrunkD(2) [OF assms(1) RGroup]
      show ?thesis
        using Suc.prems Suc.IH
        by (simp only: group_cont_Some [OF assms(2) RGroup] group_cont_Some [OF assms(3) R'] shrunk_members [OF assms(1)]) blast
    qed
  qed simp
qed

lemma shrunk_find:
  assumes "shrunk (oid_Hash i) m m'" and "tree_ok rank m" and "find_in (repo_cont cont m' n a) i \<noteq> None"
  shows "find_in (repo_cont cont m n a) i \<noteq> None"
proof -
  have ag: "agree cont m" "agree cont m'"
    using assms(2) shrunk_ok [OF assms(1,2)] by (auto simp: tree_ok_def)
  from assms(3) obtain d where "find_in (repo_cont cont m' n a) i = Some d" by blast
  then have "find_in (repo_cont cont m n a) i = Some d"
    using shrunk_cont(2) [OF assms(1) ag] by (simp add: find_in_Some)
  then show ?thesis by simp
qed

definition same_cont :: "'s objects_module \<Rightarrow> 's objects_module \<Rightarrow> bool" where
  "same_cont m m' \<longleftrightarrow> (\<forall>n a. repo_cont cont m' n a = repo_cont cont m n a)"

lemma leaf_same_cont:
  assumes "om_heap m a = RLeaf x" and "cont x' = cont x"
  shows "same_cont m (m\<lparr>om_heap := (om_heap m)(a := RLeaf x')\<rparr>)"
  unfolding same_cont_def
proof (intro allI)
  fix n b
  show "repo_cont cont (m\<lparr>om_heap := (om_heap m)(a := RLeaf x')\<rparr>) n b = repo_cont cont m n b"
    using assms by (induction n arbitrary: b) (auto simp: members_def GetRepository_def split: repo.split)
qed

definition deletes ::
  "(nat \<Rightarrow> nat) \<Rightarrow> 'h ObjectID \<Rightarrow> nat \<Rightarrow> nat set \<Rightarrow> 's objects_module \<Rightarrow> obj_err option \<Rightarrow> 's objects_module \<Rightarrow> bool" where
  "deletes rank i n bs m e m' \<longleftrightarrow>
     shrunk (oid_Hash i) m m' \<and> (\<forall>b \<in> bs. find_in (repo_cont cont m' n b) i = None) \<and>
     ((\<forall>b \<in> bs. find_in (repo_cont cont m n b) i = None) \<longrightarrow> same_cont m m') \<and>
     e = (if \<forall>b \<in> bs. find_in (repo_cont cont m n b) i = None then Some ErrNotFound else None)"

lemma deletes_Cons:
  assumes "tree_ok rank m" and "deletes rank i n {b} m e m1" and "deletes rank i n bs m1 e2 m2"
  shows "deletes rank i n (insert b bs) m (if e = None then None else e2) m2"
proof -
  have sh: "shrunk (oid_Hash i) m m1" "shrunk (oid_Hash i) m1 m2" using assms(2,3) by (auto simp: deletes_def)
  have ok1: "tree_ok rank m1" by (rule shrunk_ok [OF sh(1) assms(1)])
  have "find_in (repo_cont cont m1 n b) i = None" using assms(2) by (simp add: deletes_def)
  then have b2: "find_in (repo_cont cont m2 n b) i = None"
    using shrunk_find [OF sh(2) ok1, of n b] by blast
  show ?thesis
  proof (cases "find_in (repo_cont cont m n b) i")
    case None
    then have "same_cont m m1" "e = Some ErrNotFound" using assms(2) by (auto simp: deletes_def)
    with assms(3) b2 None shrunk_trans [OF sh] show ?thesis
      by (auto simp: deletes_def same_cont_def)
  next
    case (Some d)
    with assms(2,3) b2 shrunk_trans [OF sh] show ?thesis by (auto simp: deletes_def)
  qed
qed

lemma delete_loop_all:
  assumes "live ctx" and "tree_ok rank m" and "lt_unsupported tally = 0"
    and "\<And>b t m. b \<in> set bs \<Longrightarrow> tree_ok rank m \<Longrightarrow>
           \<exists>e t' m'. call t b m = Some ((e, t'), m') \<and> deletes rank i n {b} m e m'"
  shows "\<exists>e t' m'. delete_loop call ctx t tally deleted bs m = Some ((if deleted then None else e, t'), m') \<and>
           deletes rank i n (set bs) m e m'"
  using assms(2-)
proof (induction bs arbitrary: t tally deleted m)
  case Nil
  then show ?case
    by (auto simp: missErr_miss [OF assms(1)] deletes_def shrunk_refl same_cont_def)
next
  case (Cons b bs)
  obtain e t' m1 where c: "call (Suc t) b m = Some ((e, t'), m1)" "deletes rank i n {b} m e m1"
    using Cons.prems(3) [of b m "Suc t"] Cons.prems(1) by auto
  have e: "e = None \<or> e = Some ErrNotFound" using c(2) by (auto simp: deletes_def split: if_splits)
  have ok1: "tree_ok rank m1" using c(2) shrunk_ok Cons.prems(1) by (auto simp: deletes_def)
  have "lt_unsupported (tally_add e tally) = 0"
    using e Cons.prems(2) by (auto intro: tally_add_supported)
  moreover have "\<exists>e t' m'. call u c k = Some ((e, t'), m') \<and> deletes rank i n {c} k e m'"
    if "c \<in> set bs" "tree_ok rank k" for c u k
    using Cons.prems(3) [of c k u] that by simp
  ultimately obtain e2 t2 m2 where
    d: "delete_loop call ctx t' (tally_add e tally) (deleted \<or> e = None) bs m1 =
        Some ((if deleted \<or> e = None then None else e2, t2), m2)" "deletes rank i n (set bs) m1 e2 m2"
    using Cons.IH [OF ok1, of "tally_add e tally" t' "deleted \<or> e = None"] by blast
  from deletes_Cons [OF Cons.prems(1) c(2) d(2)] c(1) d(1) live_poll [OF assms(1)] show ?case
    by (intro exI [of _ "if e = None then None else e2"] exI [of _ t2] exI [of _ m2]) auto
qed

lemma tree_delete:
  assumes "live ctx"
  shows "rank a < n \<Longrightarrow> tree_ok rank m \<Longrightarrow>
    \<exists>e t' m'. repo_Delete rDelete n ctx t i a m = Some ((e, t'), m') \<and> deletes rank i n {a} m e m'"
proof (induction n arbitrary: a t m)
  case (Suc n)
  show ?case
  proof (cases "om_heap m a")
    case (RLeaf x)
    then have ok: "ok x" using Suc.prems(2) by (auto simp: tree_ok_def)
    obtain e t' x' where x': "rDelete ctx t i x = ((e, t'), x')" by (metis prod.exhaust)
    note law = delete_law [OF ok assms x']
    let ?m = "m\<lparr>om_heap := (om_heap m)(a := RLeaf x')\<rparr>"
    have "shrunk (oid_Hash i) m ?m"
      using RLeaf law by (auto simp: shrunk_def split: repo.split if_splits)
    moreover have "find_in (cont x') i = None"
      using law by (auto simp: find_in_def split: if_splits)
    ultimately have "deletes rank i (Suc n) {a} m e ?m"
      using RLeaf law leaf_same_cont [OF RLeaf, of x'] by (auto simp: deletes_def)
    then show ?thesis using RLeaf x' by simp
  next
    case (RGroup g)
    have "\<exists>e t' m'. repo_Delete rDelete n ctx u i b k = Some ((e, t'), m') \<and> deletes rank i n {b} k e m'"
      if "b \<in> set (members g m)" "tree_ok rank k" for b u k
      using Suc.IH [of b k u] Suc.prems that RGroup by (fastforce simp: tree_ok_def ranked_def)
    then obtain e t' m' where d: "delete_loop (\<lambda>t' b m'. repo_Delete rDelete n ctx t' i b m') ctx t tally0 False (members g m) m =
        Some ((e, t'), m')" "deletes rank i n (set (members g m)) m e m'"
      using delete_loop_all [of ctx rank m tally0 "members g m" "\<lambda>t' b m'. repo_Delete rDelete n ctx t' i b m'" i n t False]
        assms Suc.prems(2) by (auto simp: tally0_def)
    have ag: "agree cont m" "agree cont m'"
      using Suc.prems(2) d(2) shrunk_ok by (auto simp: tree_ok_def deletes_def)
    have R': "om_heap m' a = RGroup g" "members g m' = members g m"
      using d(2) RGroup shrunkD(2) shrunk_members by (auto simp: deletes_def)
    have "find_in (repo_cont cont m (Suc n) a) i = None \<longleftrightarrow> (\<forall>b \<in> set (members g m). find_in (repo_cont cont m n b) i = None)"
      using group_find [OF ag(1) RGroup, of n i] by (metis not_Some_eq)
    moreover have "find_in (repo_cont cont m' (Suc n) a) i = None \<longleftrightarrow> (\<forall>b \<in> set (members g m). find_in (repo_cont cont m' n b) i = None)"
      using group_find [OF ag(2) R'(1), of n i] R'(2) by (metis not_Some_eq)
    ultimately have "deletes rank i (Suc n) {a} m e m'"
      using d(2) by (simp add: deletes_def del: repo_cont.simps)
    then show ?thesis using d(1) RGroup by (auto simp: group_Delete_def)
  qed
qed simp

text \<open>A repository of the registry, leaf or group, keeps the contract that the leaves keep.\<close>

lemma tree_repository:
  "repository rread rclose rID view
     (\<lambda>m. tree_ok rank m \<and> rank a < n \<and> any_order arrive) (\<lambda>m. repo_cont cont m n a)
     (\<lambda>ctx t i m. the (repo_Contains rContains m n ctx t i a))
     (\<lambda>ctx t i off lim m. the (repo_Read rRead rclose arrive m n ctx t i off lim a))
     (\<lambda>ctx t i m. the (repo_Delete rDelete n ctx t i a m))"
proof unfold_locales
  fix m h d
  assume "tree_ok rank m \<and> rank a < n \<and> any_order arrive" "repo_cont cont m n a h = Some d"
  then obtain b x where "om_heap m b = RLeaf x" "cont x h = Some d" "\<forall>a x. om_heap m a = RLeaf x \<longrightarrow> ok x"
    using repo_cont_leaf by (fastforce simp: tree_ok_def)
  then show "length d < 2 ^ 63" using cont_size by blast
next
  fix m ctx t i
  assume "tree_ok rank m \<and> rank a < n \<and> any_order arrive" "live ctx"
  then show "fst (the (repo_Contains rContains m n ctx t i a)) = Inr (find_in (repo_cont cont m n a) i \<noteq> None)"
    using tree_contains [of rank m ctx a n t i] by auto
next
  fix m ctx t i e t' m'
  assume ok: "tree_ok rank m \<and> rank a < n \<and> any_order arrive" and ctx: "live ctx"
    and del: "the (repo_Delete rDelete n ctx t i a m) = ((e, t'), m')"
  then have d: "deletes rank i n {a} m e m'" using tree_delete [OF ctx, of rank a n m t i] by auto
  then have sh: "shrunk (oid_Hash i) m m'" by (simp add: deletes_def)
  have ok': "tree_ok rank m'" using ok shrunk_ok [OF sh] by blast
  have ag: "agree cont m" "agree cont m'" using ok ok' by (auto simp: tree_ok_def)
  let ?c = "repo_cont cont m n a" and ?c' = "repo_cont cont m' n a"
  have "?c' = (if find_in ?c i = None then ?c else ?c(oid_Hash i := None))"
  proof (cases "find_in ?c i")
    case None
    with d show ?thesis by (auto simp: deletes_def same_cont_def)
  next
    case (Some x)
    have "?c' (oid_Hash i) = None"
    proof (rule ccontr)
      assume "?c' (oid_Hash i) \<noteq> None"
      then obtain y where y: "?c' (oid_Hash i) = Some y" by blast
      with shrunk_cont(2) [OF sh ag] Some have "y = x" by (fastforce simp: find_in_Some)
      with y Some d show False by (auto simp: deletes_def find_in_def split: option.splits if_splits)
    qed
    moreover have "?c' k = ?c k" if "k \<noteq> oid_Hash i" for k
      by (rule shrunk_cont(1) [OF sh ag that])
    ultimately show ?thesis using Some by (auto simp: fun_eq_iff)
  qed
  then show "(tree_ok rank m' \<and> rank a < n \<and> any_order arrive) \<and>
      e = (if find_in ?c i = None then Some ErrNotFound else None) \<and>
      ?c' = (if find_in ?c i = None then ?c else ?c(oid_Hash i := None))"
    using ok ok' d by (auto simp: deletes_def)
next
  fix m ctx t i off lim
  assume "tree_ok rank m \<and> rank a < n \<and> any_order arrive" "live ctx"
  then have "read_outcome (repo_cont cont m n a) i off lim (fst (the (repo_Read rRead rclose arrive m n ctx t i off lim a)))"
    using tree_read [of rank m ctx arrive a n t i off lim] by auto
  note out = this [unfolded read_outcome_def]
  show "find_in (repo_cont cont m n a) i = None \<Longrightarrow>
      fst (the (repo_Read rRead rclose arrive m n ctx t i off lim a)) = Inl ErrNotFound"
    using out by simp
  show "find_in (repo_cont cont m n a) i = Some d \<Longrightarrow> ResolveReadLimit (full_id i d) off lim = Inl e1 \<Longrightarrow>
      \<exists>e'. fst (the (repo_Read rRead rclose arrive m n ctx t i off lim a)) = Inl e' \<and> \<not> errors_Is e' ErrHashLookupUnsupported" for d e1
    using out by simp
  show "find_in (repo_cont cont m n a) i = Some d \<Longrightarrow> ResolveReadLimit (full_id i d) off lim = Inr len \<Longrightarrow>
      \<exists>r. fst (the (repo_Read rRead rclose arrive m n ctx t i off lim a)) = Inr r \<and> rID r = full_id i d \<and>
        view r = Some (take (nat len) (drop (nat off) d))" for d len
    using out by simp
qed

end

abbreviation mem_lc :: "Context \<Rightarrow> nat \<Rightarrow> 'h ObjectID \<Rightarrow> 'h Repository \<Rightarrow> (obj_err + bool) \<times> nat" where
  "mem_lc \<equiv> \<lambda>ctx t i repo. (mem_Contains i repo, t)"

abbreviation mem_lr :: "Context \<Rightarrow> nat \<Rightarrow> 'h ObjectID \<Rightarrow> int \<Rightarrow> int \<Rightarrow> 'h Repository \<Rightarrow> (obj_err + 'h Reader) \<times> nat" where
  "mem_lr \<equiv> \<lambda>ctx t i off lim repo. (mem_Read ctx i off lim repo, t)"

abbreviation mem_ld :: "('h, bytes) map_ops \<Rightarrow> Context \<Rightarrow> nat \<Rightarrow> 'h ObjectID \<Rightarrow> 'h Repository \<Rightarrow>
     (obj_err option \<times> nat) \<times> 'h Repository" where
  "mem_ld mo \<equiv> \<lambda>ctx t i repo. (case mem_Delete mo i repo of (e, repo') \<Rightarrow> ((e, t), repo'))"

interpretation mem_tree: repository Reader_Read Reader_Close Reader_ID reader_view
  "\<lambda>m. mem_repo.tree_ok mo rank m \<and> rank a < n \<and> any_order arrive" "\<lambda>m. repo_cont mr_objects m n a"
  "\<lambda>ctx t i m. the (repo_Contains mem_lc m n ctx t i a)"
  "\<lambda>ctx t i off lim m. the (repo_Read mem_lr Reader_Close arrive m n ctx t i off lim a)"
  "\<lambda>ctx t i m. the (repo_Delete (mem_ld mo) n ctx t i a m)" for mo rank a n arrive
  by (rule mem_repo.tree_repository)

subsection \<open>Properties\<close>

definition registry_ok :: "(nat \<Rightarrow> nat) \<Rightarrow> 'h Repository objects_module \<Rightarrow> bool" where
  "registry_ok rank m \<longleftrightarrow>
     ranked rank m \<and> agree mr_objects m \<and> (\<forall>a x. om_heap m a = RLeaf x \<longrightarrow> mem_ok x)"

lemma registry_tree_ok: "map_ops_law mo \<Longrightarrow> registry_ok rank m \<Longrightarrow> mem_repo.tree_ok mo rank m"
  by (simp add: registry_ok_def mem_repo.tree_ok_def mo_ok_def)

text \<open>
  C7.  A group is a repository.  Over in-memory repositories that agree on content, nested to any
  depth with no group reaching itself, every lookup comes back, with fuel above the rank of the
  repository asked: \<open>Contains\<close> answers whether some member down the tree has the object; \<open>Read\<close>,
  sequential or concurrent with its results in any order, opens the window of the object, and
  answers \<open>ErrNotFound\<close> when no member has it; \<open>Delete\<close> removes it from every member, reports
  \<open>ErrNotFound\<close> when there was nothing to remove, and touches no other object.
\<close>

theorem group_is_repository:
  assumes "map_ops_law mo" and "registry_ok rank m" and "rank a < n" and "live ctx" and "any_order arrive"
  shows "(\<exists>t'. repo_Contains mem_lc m n ctx t i a =
        Some (Inr (find_in (repo_cont mr_objects m n a) i \<noteq> None), t')) \<and>
    (\<exists>res t'. repo_Read mem_lr Reader_Close arrive m n ctx t i off lim a = Some (res, t') \<and>
       (case find_in (repo_cont mr_objects m n a) i of
          None \<Rightarrow> res = Inl ErrNotFound
        | Some d \<Rightarrow>
            (case ResolveReadLimit (full_id i d) off lim of
               Inl _ \<Rightarrow> \<exists>e. res = Inl e
             | Inr len \<Rightarrow> \<exists>r. res = Inr r \<and> Reader_ID r = full_id i d \<and>
                            reader_view r = Some (take (nat len) (drop (nat off) d))))) \<and>
    (\<exists>t' m'. repo_Delete (mem_ld mo) n ctx t i a m =
        Some ((if find_in (repo_cont mr_objects m n a) i = None then Some ErrNotFound else None, t'), m') \<and>
       repo_cont mr_objects m' n a =
         (if find_in (repo_cont mr_objects m n a) i = None then repo_cont mr_objects m n a
          else (repo_cont mr_objects m n a)(oid_Hash i := None)))"
proof -
  note tree = registry_tree_ok [OF assms(1,2)]
  obtain res t' where r: "repo_Read mem_lr Reader_Close arrive m n ctx t i off lim a = Some (res, t')"
    "mem_repo.read_outcome (repo_cont mr_objects m n a) i off lim res"
    using mem_repo.tree_read [OF tree assms(4,5,3)] by blast
  obtain e t2 m' where d: "repo_Delete (mem_ld mo) n ctx t i a m = Some ((e, t2), m')"
    using mem_repo.tree_delete [OF assms(4,3) tree] by blast
  have ok: "mem_repo.tree_ok mo rank m \<and> rank a < n \<and> any_order arrive" using tree assms(3,5) by simp
  have "the (repo_Delete (mem_ld mo) n ctx t i a m) = ((e, t2), m')" using d by simp
  note law = mem_tree.delete_law [OF ok assms(4) this]
  have read: "case find_in (repo_cont mr_objects m n a) i of
          None \<Rightarrow> res = Inl ErrNotFound
        | Some d \<Rightarrow>
            (case ResolveReadLimit (full_id i d) off lim of
               Inl _ \<Rightarrow> \<exists>e. res = Inl e
             | Inr len \<Rightarrow> \<exists>r. res = Inr r \<and> Reader_ID r = full_id i d \<and>
                            reader_view r = Some (take (nat len) (drop (nat off) d)))"
    using r(2) by (auto simp: mem_repo.read_outcome_def split: option.splits sum.splits)
  show ?thesis
    using mem_repo.tree_contains [OF tree assms(4,3), of t i] r(1) read d law by blast
qed

text \<open>
  C16.  A seeker over any repository of the registry is a file.  Whatever reads and seeks a client
  makes through a group, and in whatever order the members of concurrent groups answer, it gets
  back what a cursor over the object's bytes gives.
\<close>

theorem seeker_over_groups:
  assumes "registry_ok rank m" and "rank a < n" and "any_order arrive"
    and "find_in (repo_cont mr_objects m n a) i = Some d" and "i = full_id i d" and "length d < 2 ^ 62"
    and "cx_device ctx" and "list_all op_fits xs"
  shows "results (seeker_op (\<lambda>c j off lim. fst (the (repo_Read mem_lr Reader_Close arrive m n c 0 j off lim a)))
             Reader_Read Reader_Close Reader_ID) xs (NewReadSeeker ctx i None) = results cursor_op xs (d, 0)"
proof -
  have ok: "mem_repo.tree_ok go_map rank m \<and> rank a < n \<and> any_order arrive"
    using registry_tree_ok [OF go_map_law assms(1)] assms(2,3) by simp
  have "mem_tree.seeks n a m (d, 0) (NewReadSeeker ctx i None)"
    using assms(4-7) by (simp add: mem_tree.seeks_def NewReadSeeker_def)
  from mem_tree.seeker_results [OF ok assms(8) this] show ?thesis by simp
qed

text \<open>
  C35.  A concurrent read leaves no reader open but the one it returns.  Whatever the context does
  and in whatever order the answers arrive, every reader that a member opened is either the one
  returned or among those closed.
\<close>

theorem concurrent_read_closes:
  assumes "any_order arrive" and "\<And>b. b \<in> set bs \<Longrightarrow> \<exists>t'. call (Suc t) b = Some (ans b, t')"
    and "cx_Err ctx t = None"
  shows "\<exists>res t' left. readConcurrent rclose arrive call ctx t bs = Some ((res, t'), map rclose left) \<and>
    mset (hits (map ans bs)) = (case res of Inr r \<Rightarrow> {#r#} | Inl _ \<Rightarrow> {#}) + mset left"
proof -
  have collect: "\<exists>res t' left. collect_loop ctx u tally rs = (res, t', left) \<and>
      mset (hits rs) = (case res of Inr r \<Rightarrow> {#r#} | Inl _ \<Rightarrow> {#}) + mset (hits left)" for u tally and rs :: "(obj_err + 'a) list"
  proof (induction rs arbitrary: u tally)
    case (Cons x rs)
    from Cons.IH [of "Suc u"] show ?case by (cases x) (auto split: option.splits)
  qed (auto split: option.splits)
  have hm: "mset (hits xs) = image_mset projr (filter_mset (\<lambda>x. \<not> isl x) (mset xs))" for xs :: "(obj_err + 'a) list"
    by (induction xs rule: hits.induct) auto
  have "map_option fst (call (Suc t) b) = Some (ans b)" if "b \<in> set bs" for b
    using assms(2) [OF that] by auto
  then have th: "those (map (\<lambda>b. map_option fst (call (Suc t) b)) bs) = Some (map ans bs)"
    by (rule those_map_Some)
  have "mset (hits (arrive (map ans bs))) = mset (hits (map ans bs))"
    using assms(1) by (simp add: hm any_order_def)
  with collect [of "Suc t" tally0 "arrive (map ans bs)"] th assms(3) show ?thesis
    by (fastforce simp: readConcurrent_def closeReaders_def)
qed

text \<open>
  What a loop over the members has heard: the answers in the order of the members, each asked when
  the one before had answered.
\<close>

fun asked :: "(nat \<Rightarrow> nat \<Rightarrow> ('a \<times> nat) option) \<Rightarrow> nat \<Rightarrow> nat list \<Rightarrow> 'a list \<Rightarrow> bool" where
  "asked call t [] rs \<longleftrightarrow> rs = []"
| "asked call t (b # bs) rs \<longleftrightarrow> (\<exists>r u rs'. rs = r # rs' \<and> call (Suc t) b = Some (r, u) \<and> asked call u bs rs')"

fun asked_in_turn :: "(nat \<Rightarrow> nat \<Rightarrow> 'm \<Rightarrow> (('a \<times> nat) \<times> 'm) option) \<Rightarrow> nat \<Rightarrow> nat list \<Rightarrow> 'm \<Rightarrow> 'a list \<Rightarrow> bool" where
  "asked_in_turn call t [] m rs \<longleftrightarrow> rs = []"
| "asked_in_turn call t (b # bs) m rs \<longleftrightarrow>
     (\<exists>r u m' rs'. rs = r # rs' \<and> call (Suc t) b m = Some ((r, u), m') \<and> asked_in_turn call u bs m' rs')"

definition err_of :: "obj_err + 'a \<Rightarrow> obj_err option" where
  "err_of r = (case r of Inl e \<Rightarrow> Some e | Inr _ \<Rightarrow> None)"

lemma err_of_simps [simp]: "err_of (Inl e) = Some e" "err_of (Inr r) = None"
  by (simp_all add: err_of_def)

definition able :: "obj_err option \<Rightarrow> bool" where
  "able err = (case err of None \<Rightarrow> True | Some e \<Rightarrow> \<not> errors_Is e ErrHashLookupUnsupported)"

definition some_able :: "obj_err option list \<Rightarrow> bool" where
  "some_able errs \<longleftrightarrow> errs = [] \<or> (\<exists>err \<in> set errs. able err)"

lemma tally_counts:
  "lt_invoked (fold tally_add errs tally) = lt_invoked tally + length errs"
  "lt_unsupported (fold tally_add errs tally) = lt_unsupported tally + length (filter (\<lambda>err. \<not> able err) errs)"
  by (induction errs arbitrary: tally) (auto simp: tally_add_def able_def split: option.splits)

lemma miss_able:
  assumes "missErr ctx t (fold tally_add errs tally0) miss = err" and "err \<noteq> Some ErrHashLookupUnsupported" and "cx_Err ctx t = None"
  shows "some_able errs"
proof (rule ccontr)
  assume "\<not> some_able errs"
  then have "errs \<noteq> []" "filter (\<lambda>err. \<not> able err) errs = errs" by (auto simp: some_able_def)
  then show False using assms by (auto simp: missErr_def tally_counts tally0_def)
qed

definition stays_ended :: "Context \<Rightarrow> bool" where
  "stays_ended ctx \<longleftrightarrow> (\<forall>t. cx_Err ctx t \<noteq> None \<longrightarrow> cx_Err ctx (Suc t) \<noteq> None) \<and> (\<forall>t. cx_Err ctx t \<noteq> Some ErrNotFound)"

lemma ended_miss: "stays_ended ctx \<Longrightarrow> cx_Err ctx t \<noteq> None \<Longrightarrow> \<exists>e. missErr ctx (Suc t) tally miss = Some e \<and> cx_Err ctx (Suc t) = Some e"
  by (auto simp: stays_ended_def missErr_def split: option.splits)

lemma contains_misses:
  assumes "stays_ended ctx" and "contains_loop call ctx t (fold tally_add errs tally0) bs = Some (Inr False, t')"
  shows "\<exists>rs. asked call t bs rs \<and> Inr True \<notin> set rs \<and> some_able (errs @ map err_of rs)"
  using assms(2)
proof (induction bs arbitrary: t errs)
  case Nil
  then have "missErr ctx t (fold tally_add errs tally0) None = None" "cx_Err ctx t = None"
    by (auto simp: missErr_def split: option.splits)
  then show ?case using miss_able by fastforce
next
  case (Cons b bs)
  have live: "cx_Err ctx t = None"
    using Cons.prems ended_miss [OF assms(1), of t "fold tally_add errs tally0" None] by (cases "cx_Err ctx t") (auto split: option.splits)
  obtain res v where c: "call (Suc t) b = Some (res, v)" "res \<noteq> Inr True"
    using Cons.prems live by (auto split: option.splits sum.splits bool.splits)
  have "contains_loop call ctx v (fold tally_add (errs @ [err_of res]) tally0) bs = Some (Inr False, t')"
    using Cons.prems live c by (auto simp: err_of_def split: sum.splits bool.splits)
  from Cons.IH [OF this] obtain rs where
    "asked call v bs rs" "Inr True \<notin> set rs" "some_able ((errs @ [err_of res]) @ map err_of rs)" by blast
  then show ?case using c by (intro exI [of _ "res # rs"]) auto
qed

lemma read_misses:
  assumes "stays_ended ctx" and "read_loop call ctx t (fold tally_add errs tally0) bs = Some (Inl ErrNotFound, t')"
  shows "\<exists>rs. asked call t bs rs \<and> (\<forall>r \<in> set rs. isl r) \<and> some_able (errs @ map err_of rs)"
  using assms(2)
proof (induction bs arbitrary: t errs)
  case Nil
  then have "missErr ctx t (fold tally_add errs tally0) (Some ErrNotFound) = Some ErrNotFound" "cx_Err ctx t = None"
    using assms(1) by (auto simp: missErr_def stays_ended_def split: option.splits if_splits)
  then show ?case using miss_able by fastforce
next
  case (Cons b bs)
  have live: "cx_Err ctx t = None"
    using Cons.prems ended_miss [OF assms(1), of t] assms(1)
    by (cases "cx_Err ctx t") (auto simp: stays_ended_def split: option.splits)
  obtain e v where c: "call (Suc t) b = Some (Inl e, v)"
    using Cons.prems live by (auto split: option.splits sum.splits)
  have "read_loop call ctx v (fold tally_add (errs @ [Some e]) tally0) bs = Some (Inl ErrNotFound, t')"
    using Cons.prems live c by simp
  from Cons.IH [OF this] obtain rs where
    "asked call v bs rs" "\<forall>r \<in> set rs. isl r" "some_able ((errs @ [Some e]) @ map err_of rs)" by blast
  then show ?case using c by (intro exI [of _ "Inl e # rs"]) auto
qed

lemma delete_misses:
  assumes "stays_ended ctx" and "delete_loop call ctx t (fold tally_add errs tally0) (None \<in> set errs) bs m = Some ((Some ErrNotFound, t'), m')"
  shows "\<exists>rs. asked_in_turn call t bs m rs \<and> None \<notin> set rs \<and> some_able (errs @ rs)"
  using assms(2)
proof (induction bs arbitrary: t errs m)
  case Nil
  then have "missErr ctx t (fold tally_add errs tally0) (Some ErrNotFound) = Some ErrNotFound" "cx_Err ctx t = None"
    using assms(1) by (auto simp: missErr_def stays_ended_def split: option.splits if_splits)
  then show ?case using miss_able by fastforce
next
  case (Cons b bs)
  have live: "cx_Err ctx t = None"
    using Cons.prems ended_miss [OF assms(1), of t] assms(1)
    by (cases "cx_Err ctx t") (auto simp: stays_ended_def split: if_splits)
  obtain err v m1 where c: "call (Suc t) b m = Some ((err, v), m1)"
    using Cons.prems live by (auto split: option.splits)
  have d: "delete_loop call ctx v (fold tally_add (errs @ [err]) tally0) (None \<in> set (errs @ [err])) bs m1 = Some ((Some ErrNotFound, t'), m')"
    using Cons.prems live c by (simp add: disj_commute eq_commute)
  have "err \<noteq> None"
  proof
    assume "err = None"
    moreover have "delete_loop call ctx u tal True xs k \<noteq> Some ((Some ErrNotFound, t'), m')" for u tal xs k
      by (induction xs arbitrary: u tal k) (auto split: option.splits)
    ultimately show False using d by simp
  qed
  with Cons.IH [OF d] c show ?case by (metis append.assoc append_Cons append_Nil asked_in_turn.simps(2) insert_iff list.simps(15))
qed

lemma collect_misses:
  assumes "stays_ended ctx" and "collect_loop ctx t (fold tally_add errs tally0) rs = (Inl ErrNotFound, t', left)"
  shows "(\<forall>r \<in> set rs. isl r) \<and> some_able (errs @ map err_of rs)"
  using assms(2)
proof (induction rs arbitrary: t errs)
  case Nil
  then have "missErr ctx t (fold tally_add errs tally0) (Some ErrNotFound) = Some ErrNotFound" "cx_Err ctx t = None"
    using assms(1) by (auto simp: missErr_def stays_ended_def split: option.splits if_splits)
  then show ?case using miss_able by fastforce
next
  case (Cons res rs)
  have live: "cx_Err ctx t = None" using Cons.prems assms(1) by (auto simp: stays_ended_def split: option.splits)
  then obtain e where e: "res = Inl e" using Cons.prems by (auto split: sum.splits)
  have "collect_loop ctx (Suc t) (fold tally_add (errs @ [Some e]) tally0) rs = (Inl ErrNotFound, t', left)"
    using Cons.prems live e by simp
  from Cons.IH [OF this] show ?case using e by auto
qed

text \<open>
  C36.  A group answers a miss only when it asked every member.  Let the context, once it has
  ended, stay ended, with an error that is not \<open>ErrNotFound\<close>.  When \<open>Contains\<close> answers false,
  every member was asked in turn and none answered true; when \<open>Read\<close> or \<open>Delete\<close> answers
  \<open>ErrNotFound\<close>, every member was asked, at once or in turn, and each answered an error.  In all
  three cases, unless the group has no member, some member was able to look up by hash.  A
  context that has ended before the call is answered with its error, never with a miss.
\<close>

theorem miss_is_complete:
  assumes "stays_ended ctx" and "any_order arrive"
  shows "(group_Contains ccall ctx t g m = Some (Inr False, t') \<longrightarrow>
      (\<exists>rs. asked ccall t (members g m) rs \<and> Inr True \<notin> set rs \<and> some_able (map err_of rs))) \<and>
    (group_Read rclose arrive rcall ctx t g m = Some (Inl ErrNotFound, t') \<longrightarrow>
      (\<exists>rs. (if rg_Concurrent g then those (map (\<lambda>b. map_option fst (rcall (Suc t) b)) (members g m)) = Some rs
             else asked rcall t (members g m) rs) \<and> (\<forall>r \<in> set rs. isl r) \<and> some_able (map err_of rs))) \<and>
    (group_Delete dcall ctx t g m = Some ((Some ErrNotFound, t'), m') \<longrightarrow>
      (\<exists>rs. asked_in_turn dcall t (members g m) m rs \<and> None \<notin> set rs \<and> some_able rs)) \<and>
    (cx_Err ctx t \<noteq> None \<longrightarrow> (\<exists>e u. (cx_Err ctx t = Some e \<or> cx_Err ctx (Suc t) = Some e) \<and>
      group_Contains ccall ctx t g m = Some (Inl e, u))) \<and>
    (cx_Err ctx t \<noteq> None \<longrightarrow> (\<exists>e u. (cx_Err ctx t = Some e \<or> cx_Err ctx (Suc t) = Some e) \<and>
      group_Read rclose arrive rcall ctx t g m = Some (Inl e, u))) \<and>
    (cx_Err ctx t \<noteq> None \<longrightarrow> (\<exists>e u. (cx_Err ctx t = Some e \<or> cx_Err ctx (Suc t) = Some e) \<and>
      group_Delete dcall ctx t g m = Some ((Some e, u), m)))"
proof (intro conjI impI)
  assume "group_Contains ccall ctx t g m = Some (Inr False, t')"
  then show "\<exists>rs. asked ccall t (members g m) rs \<and> Inr True \<notin> set rs \<and> some_able (map err_of rs)"
    using contains_misses [OF assms(1), of ccall t "[]"] by (simp add: group_Contains_def)
next
  assume r: "group_Read rclose arrive rcall ctx t g m = Some (Inl ErrNotFound, t')"
  let ?all = "those (map (\<lambda>b. map_option fst (rcall (Suc t) b)) (members g m))"
  show "\<exists>rs. (if rg_Concurrent g then ?all = Some rs else asked rcall t (members g m) rs) \<and> (\<forall>r \<in> set rs. isl r) \<and>
      some_able (map err_of rs)"
  proof (cases "rg_Concurrent g")
    case True
    then obtain rs left where rs: "?all = Some rs" "collect_loop ctx (Suc t) tally0 (arrive rs) = (Inl ErrNotFound, t', left)"
      using r assms(1)
      by (auto simp: group_Read_def readConcurrent_def stays_ended_def split: option.splits prod.splits)
    have "mset (arrive rs) = mset rs" using assms(2) by (simp add: any_order_def)
    then have s: "set (arrive rs) = set rs" "arrive rs = [] \<longleftrightarrow> rs = []" by (auto dest: mset_eq_setD)
    have "(\<forall>r \<in> set (arrive rs). isl r) \<and> some_able (map err_of (arrive rs))"
      using collect_misses [OF assms(1), of "Suc t" "[]"] rs(2) by simp
    then have "(\<forall>r \<in> set rs. isl r) \<and> some_able (map err_of rs)" using s by (auto simp: some_able_def)
    then show ?thesis using True rs(1) by auto
  next
    case False
    then show ?thesis using r read_misses [OF assms(1), of rcall t "[]"] by (simp add: group_Read_def)
  qed
next
  assume "group_Delete dcall ctx t g m = Some ((Some ErrNotFound, t'), m')"
  then show "\<exists>rs. asked_in_turn dcall t (members g m) m rs \<and> None \<notin> set rs \<and> some_able rs"
    using delete_misses [OF assms(1), of dcall t "[]"] by (simp add: group_Delete_def)
next
  assume e: "cx_Err ctx t \<noteq> None"
  note miss = ended_miss [OF assms(1) e]
  show "\<exists>e u. (cx_Err ctx t = Some e \<or> cx_Err ctx (Suc t) = Some e) \<and> group_Contains ccall ctx t g m = Some (Inl e, u)"
    using e miss [of tally0 None] by (cases "members g m") (auto simp: group_Contains_def missErr_def split: option.splits)
  show "\<exists>e u. (cx_Err ctx t = Some e \<or> cx_Err ctx (Suc t) = Some e) \<and> group_Read rclose arrive rcall ctx t g m = Some (Inl e, u)"
    using e miss [of tally0 "Some ErrNotFound"]
    by (cases "members g m") (auto simp: group_Read_def readConcurrent_def missErr_def split: option.splits)
  show "\<exists>e u. (cx_Err ctx t = Some e \<or> cx_Err ctx (Suc t) = Some e) \<and> group_Delete dcall ctx t g m = Some ((Some e, u), m)"
    using e miss [of tally0 "Some ErrNotFound"] by (cases "members g m") (auto simp: group_Delete_def missErr_def split: option.splits)
qed

end
