(* ===== verification/Repo_Registry.thy ===== *)
theory Repo_Registry
  imports Repo_Groups
begin

section \<open>Names and memberships of the registry\<close>

text \<open>
  What the operations of \<open>repositories.go\<close> do to the names that are registered and to the
  members of groups; what a group that contains itself does to a lookup; and examples on a
  registry of nested groups.
\<close>

fun group_names :: "'x repo \<Rightarrow> string set option" where
  "group_names (RLeaf x) = None"
| "group_names (RGroup g) = Some (set (rg_repos g))"

definition sets_ok :: "'x objects_module \<Rightarrow> bool" where
  "sets_ok m \<longleftrightarrow> (\<forall>a g. om_heap m a = RGroup g \<longrightarrow> distinct (rg_repos g))"

lemma group_Remove_names:
  assumes "member_ops_law so" and "sets_ok m" and "om_heap m a = RGroup g" and "group_Remove so a name m = (e, m')"
  shows "om_repos m' = om_repos m" and "sets_ok m'"
    and "group_names (om_heap m' b) =
      (if b = a then map_option (\<lambda>N. N - {name}) (group_names (om_heap m b)) else group_names (om_heap m b))"
proof -
  have law: "case me_Remove so name (rg_repos g) of None \<Rightarrow> name \<notin> set (rg_repos g)
      | Some ys \<Rightarrow> name \<in> set (rg_repos g) \<and> distinct ys \<and> set ys = set (rg_repos g) - {name}"
    using assms(1,2,3) by (simp add: member_ops_law_def sets_ok_def)
  show "om_repos m' = om_repos m" "sets_ok m'"
    "group_names (om_heap m' b) =
      (if b = a then map_option (\<lambda>N. N - {name}) (group_names (om_heap m b)) else group_names (om_heap m b))"
    using assms(2-4) law by (auto simp: group_Remove_def sets_ok_def split: option.splits if_splits)
qed

lemma remove_from_all_names:
  assumes "member_ops_law so"
  shows "sets_ok m \<Longrightarrow> om_repos (remove_from_all so name as m) = om_repos m \<and>
    (\<forall>b. group_names (om_heap (remove_from_all so name as m) b) =
       (if b \<in> set as then map_option (\<lambda>N. N - {name}) (group_names (om_heap m b)) else group_names (om_heap m b)))"
proof (induction "as" arbitrary: m)
  case (Cons a as)
  show ?case
  proof (cases "om_heap m a")
    case (RLeaf x)
    with Cons.IH [OF Cons.prems] show ?thesis by auto
  next
    case (RGroup g)
    obtain e m1 where r: "group_Remove so a name m = (e, m1)" by (cases "group_Remove so a name m")
    note n = group_Remove_names [OF assms Cons.prems RGroup r]
    have e: "remove_from_all so name (a # as) m = remove_from_all so name as m1" using RGroup r by simp
    show ?thesis
    proof (intro conjI allI)
      show "om_repos (remove_from_all so name (a # as) m) = om_repos m"
        using e Cons.IH [OF n(2)] n(1) by simp
      fix b
      have "group_names (om_heap (remove_from_all so name (a # as) m) b) =
          (if b \<in> set as then map_option (\<lambda>N. N - {name}) (group_names (om_heap m1 b)) else group_names (om_heap m1 b))"
        using e Cons.IH [OF n(2)] by simp
      then show "group_names (om_heap (remove_from_all so name (a # as) m) b) =
          (if b \<in> set (a # as) then map_option (\<lambda>N. N - {name}) (group_names (om_heap m b)) else group_names (om_heap m b))"
        by (auto simp: n(3) option.map_comp comp_def)
    qed
  qed
qed simp

text \<open>
  Removing a repository.  A removal succeeds exactly for a registered name; then the name is
  out of the registry and out of every group that is still registered, and every other name and
  every other membership is as it was.  A removal that fails changes nothing.
\<close>

lemma removed_everywhere:
  assumes "map_ops_law mo" and "member_ops_law so" and "sets_ok m"
    and "set (clone ((om_repos m)(name := None))) = ran ((om_repos m)(name := None))" and "name \<noteq> []"
    and "RemoveRepository mo so afterRemoved clone name m = (e, m')"
  shows "(e = None \<longleftrightarrow> GetRepository name m \<noteq> None) \<and> (e \<noteq> None \<longrightarrow> m' = m) \<and>
    (e = None \<longrightarrow> om_repos m' = (om_repos m)(name := None) \<and>
       (\<forall>k a. GetRepository k m' = Some a \<longrightarrow>
          group_names (om_heap m' a) = map_option (\<lambda>N. N - {name}) (group_names (om_heap m a))))"
proof (cases "om_repos m name")
  case None
  with assms(1,5,6) show ?thesis
    by (auto simp: RemoveRepository_def map_ops_lawD(2) fun_upd_idem GetRepository_def)
next
  case (Some r)
  let ?repos = "(om_repos m)(name := None)"
  define m1 where "m1 = remove_from_all so name (clone ?repos) (m\<lparr>om_repos := ?repos\<rparr>)"
  have "sets_ok (m\<lparr>om_repos := ?repos\<rparr>)" using assms(3) by (simp add: sets_ok_def)
  from remove_from_all_names [OF assms(2) this, of name "clone ?repos"]
  have m1: "om_repos m1 = ?repos"
    "\<And>b. group_names (om_heap m1 b) =
      (if b \<in> ran ?repos then map_option (\<lambda>N. N - {name}) (group_names (om_heap m b)) else group_names (om_heap m b))"
    by (auto simp: m1_def assms(4))
  have m': "e = None" "om_repos m' = om_repos m1" "\<And>b. group_names (om_heap m' b) = group_names (om_heap m1 b)"
    using assms(5,6) Some by (auto simp: RemoveRepository_def map_ops_lawD(2) [OF assms(1)] m1_def Let_def split: repo.splits)
  have "group_names (om_heap m' a) = map_option (\<lambda>N. N - {name}) (group_names (om_heap m a))"
    if "om_repos m' k = Some a" for k a
    using that m' m1 by (auto simp: ranI)
  with m' m1(1) Some show ?thesis by (auto simp: GetRepository_def)
qed

text \<open>
  Groups may contain themselves: \<open>AddGroup\<close> only asks that both names are registered.  A lookup
  that reaches such a group and is not answered before does not come back, whatever the fuel.
\<close>

lemma self_member_never_answers:
  assumes "om_heap m a = RGroup g" and "members g m = a # bs" and "live ctx"
  shows "repo_Contains lc m n ctx t i a = None"
proof (induction n arbitrary: t)
  case (Suc n)
  then show ?case using assms by (simp add: group_Contains_def live_poll)
qed simp

subsection \<open>Examples\<close>

text \<open>
  A group with an in-memory member and a concurrent subgroup of another in-memory repository,
  which holds one object.
\<close>

definition demo_registry :: "bytes Repository objects_module" where
  "demo_registry =
     \<lparr>om_repos = [''main'' \<mapsto> 0, ''a'' \<mapsto> 1, ''sub'' \<mapsto> 2, ''b'' \<mapsto> 3],
      om_heap = (\<lambda>_. RLeaf (mem_New [] 0))
        (0 := RGroup \<lparr>rg_Concurrent = False, rg_label = ''Main'', rg_repos = [''a'', ''gone'', ''sub'']\<rparr>,
         2 := RGroup \<lparr>rg_Concurrent = True, rg_label = ''Sub'', rg_repos = [''b'']\<rparr>,
         3 := RLeaf demo_store)\<rparr>"

definition demo_rank :: "nat \<Rightarrow> nat" where
  "demo_rank a = (if a = 0 then 2 else if a = 2 then 1 else 0)"

abbreviation demo_oid :: "bytes ObjectID" where
  "demo_oid \<equiv> \<lparr>oid_Size = 3, oid_Hash = [1, 2, 3]\<rparr>"

lemma demo_members:
  "om_heap demo_registry a = RGroup g \<Longrightarrow>
     (a = 0 \<and> members g demo_registry = [1, 2]) \<or> (a = 2 \<and> members g demo_registry = [3])"
  by (auto simp: demo_registry_def members_def GetRepository_def List.map_filter_def split: if_splits)

lemma demo_leaves:
  "om_heap demo_registry a = RLeaf x \<Longrightarrow> mr_objects x = Map.empty \<or> mr_objects x = [[1, 2, 3] \<mapsto> [1, 2, 3]]"
  by (auto simp: demo_registry_def demo_store_def mem_New_def split: if_splits)

lemma demo_registry_ok: "registry_ok demo_rank demo_registry"
  unfolding registry_ok_def
proof (intro conjI allI impI)
  show "ranked demo_rank demo_registry"
    unfolding ranked_def by (auto dest!: demo_members simp: demo_rank_def)
  show "agree mr_objects demo_registry"
    unfolding agree_def by (auto dest!: demo_leaves split: if_splits)
  fix a x
  assume "om_heap demo_registry a = RLeaf x"
  from demo_leaves [OF this] show "mem_ok x"
    by (auto simp: mem_ok_def split: if_splits)
qed

lemma demo_cont: "repo_cont mr_objects demo_registry 3 0 = [[1, 2, 3] \<mapsto> [1, 2, 3]]"
  by (simp add: numeral_3_eq_3 demo_registry_def members_def GetRepository_def List.map_filter_def demo_store_def mem_New_def)

lemma any_order_id: "any_order (\<lambda>xs. xs)" and any_order_rev: "any_order rev"
  by (simp_all add: any_order_def)

lemma live_device: "live device_ctx"
  by (simp add: live_def device_ctx_def)

theorem group_is_repository_witness:
  "\<exists>t'. repo_Contains mem_lc demo_registry 3 device_ctx 0 demo_oid 0 = Some (Inr True, t')"
  using group_is_repository [OF go_map_law demo_registry_ok _ live_device any_order_rev, of 0 3 0 demo_oid 0 0]
  by (simp add: demo_cont demo_rank_def find_in_def)

theorem seeker_over_groups_witness:
  "results (seeker_op (\<lambda>c j off lim. fst (the (repo_Read mem_lr Reader_Close rev demo_registry 3 c 0 j off lim 0)))
     Reader_Read Reader_Close Reader_ID) [FRead 2, FSeek 7 SeekCurrent, FRead 2] (NewReadSeeker device_ctx demo_oid None) =
   [FData [1, 2] None, FPos 2 False, FData [3] None]"
  by (subst seeker_over_groups [OF demo_registry_ok _ any_order_rev, of 0 3 demo_oid "[1, 2, 3]"])
    (simp_all add: demo_cont demo_rank_def find_in_def full_id_def device_ctx_def seek_fits_def
      cursor_read_def cursor_seek_def seek_target_def)

theorem concurrent_read_closes_witness:
  "\<exists>res t' left. readConcurrent (\<lambda>r :: nat. r + 10) rev (\<lambda>t b. Some (if b = 0 then Inl ErrNotFound else Inr b, t))
     device_ctx 0 [0, 1, 2] = Some ((res, t'), map (\<lambda>r. r + 10) left) \<and>
     {#1, 2#} = (case res of Inr r \<Rightarrow> {#r#} | Inl _ \<Rightarrow> {#}) + mset left"
  using concurrent_read_closes [OF any_order_rev, of "[0, 1, 2 :: nat]"
      "\<lambda>t b. Some (if b = 0 then Inl ErrNotFound else Inr b, t)" 0 "\<lambda>b. if b = 0 then Inl ErrNotFound else Inr b" device_ctx "\<lambda>r. r + 10"]
  by (simp add: device_ctx_def)

theorem miss_is_complete_witness:
  "\<exists>rs. asked (\<lambda>t b. Some (if b = 1 then Inl ErrHashLookupUnsupported else Inr False :: obj_err + bool, t))
     0 [1, 3] rs \<and> Inr True \<notin> set rs \<and> some_able (map err_of rs)"
proof -
  let ?g = "NewRepoGroup [] False\<lparr>rg_repos := [''a'', ''b'']\<rparr>"
  let ?call = "\<lambda>t b. Some (if b = 1 then Inl ErrHashLookupUnsupported else Inr False :: obj_err + bool, t)"
  have m: "members ?g demo_registry = [1, 3]"
    by (simp add: members_def GetRepository_def demo_registry_def NewRepoGroup_def List.map_filter_def)
  have "group_Contains ?call device_ctx 0 ?g demo_registry = Some (Inr False, 3)"
    by (simp add: group_Contains_def m device_ctx_def tally0_def tally_add_def missErr_def)
  moreover have "stays_ended device_ctx" by (simp add: stays_ended_def device_ctx_def)
  note miss_is_complete [OF this any_order_rev, THEN conjunct1, of ?call 0 ?g demo_registry 3]
  ultimately show ?thesis by (simp only: m)
qed

lemma demo_sets_ok: "sets_ok demo_registry"
  by (auto simp: sets_ok_def demo_registry_def split: if_splits)

lemma removed_everywhere_witness:
  "\<exists>m'. RemoveRepository go_map list_members (\<lambda>x. x) (\<lambda>_. [0, 1, 2]) ''b'' demo_registry = (None, m') \<and>
     group_names (om_heap m' 2) = Some {}"
proof -
  obtain e m' where r: "RemoveRepository go_map list_members (\<lambda>x. x) (\<lambda>_. [0, 1, 2]) ''b'' demo_registry = (e, m')"
    by (metis prod.exhaust)
  have "(om_repos demo_registry)(''b'' := None) = [''main'' \<mapsto> 0, ''a'' \<mapsto> 1, ''sub'' \<mapsto> 2]"
    by (simp add: demo_registry_def)
  then have "set [0, 1, 2] = ran ((om_repos demo_registry)(''b'' := None))"
    by (simp only:) (simp add: ran_map_upd insert_commute)
  note all = removed_everywhere [OF go_map_law list_members_law demo_sets_ok this _ r]
  then have "e = None" by (simp add: GetRepository_def demo_registry_def)
  moreover from all this have "group_names (om_heap m' 2) = map_option (\<lambda>N. N - {''b''}) (group_names (om_heap demo_registry 2))"
    by (auto simp: GetRepository_def demo_registry_def)
  ultimately show ?thesis using r by (simp add: demo_registry_def)
qed

end
