(* ===== verification/Repo_Scans.thy ===== *)
theory Repo_Scans
  imports Prelude "HOL-Library.Sublist"
begin

section \<open>Scanning a group (\<open>RepoGroup.Scan\<close> of \<open>repo_group.go\<close>)\<close>

text \<open>
  A scan of a group starts one goroutine per member and merges what the members emit.  The step
  relations interleave the workers; a member is the list of what its channel will yield: an
  identifier, the \<open>nil\<close> sentinel, or its closing.  A worker that finds the context ended leaves,
  perhaps with an identifier it has received and not passed on.  What is emitted carries the
  member it came from, so that the order of each member can be stated.

  A scan that does not follow passes on everything until every member has closed.  One that
  follows runs the workers twice: up to each member's sentinel, then, after its own sentinel, for
  the live updates.
\<close>

datatype 'i ev = EvItem 'i | EvNil | EvClose

datatype stage = SBacklog | SLive | SClosed

record 'i gscan =
  gs_ev :: "nat \<Rightarrow> 'i ev list"
  gs_run :: "nat set"
  gs_bound :: "bool list"
  gs_done :: bool
  gs_stage :: stage
  gs_out :: "(nat \<times> 'i) option list"

definition gscan_start :: "nat \<Rightarrow> (nat \<Rightarrow> 'i ev list) \<Rightarrow> 'i gscan \<Rightarrow> bool" where
  "gscan_start n E s \<longleftrightarrow>
     s = \<lparr>gs_ev = E, gs_run = {..<n}, gs_bound = [], gs_done = False, gs_stage = SBacklog, gs_out = []\<rparr>"

definition recv :: "nat \<Rightarrow> 'i gscan \<Rightarrow> 'i gscan" where
  "recv j s = s\<lparr>gs_ev := (gs_ev s)(j := tl (gs_ev s j))\<rparr>"

definition scan_emit :: "nat \<Rightarrow> 'i \<Rightarrow> 'i gscan \<Rightarrow> 'i gscan" where
  "scan_emit j i s = s\<lparr>gs_out := gs_out s @ [Some (j, i)]\<rparr>"

definition leave :: "nat \<Rightarrow> 'i gscan \<Rightarrow> 'i gscan" where
  "leave j s = s\<lparr>gs_run := gs_run s - {j}\<rparr>"

text \<open>A scan that follows.\<close>

inductive scan_follow_step :: "nat \<Rightarrow> 'i gscan \<Rightarrow> 'i gscan \<Rightarrow> bool" for n where
  sf_ctx: "scan_follow_step n s (s\<lparr>gs_done := True\<rparr>)"
| sf_item: "gs_stage s \<noteq> SClosed \<Longrightarrow> j \<in> gs_run s \<Longrightarrow> gs_ev s j = EvItem i # es \<Longrightarrow>
     scan_follow_step n s (scan_emit j i (recv j s))"
| sf_drop: "gs_stage s \<noteq> SClosed \<Longrightarrow> gs_done s \<Longrightarrow> j \<in> gs_run s \<Longrightarrow> gs_ev s j = EvItem i # es \<Longrightarrow>
     scan_follow_step n s (leave j (recv j s))"
| sf_quit: "gs_stage s \<noteq> SClosed \<Longrightarrow> gs_done s \<Longrightarrow> j \<in> gs_run s \<Longrightarrow> scan_follow_step n s (leave j s)"
| sf_drained: "gs_stage s = SBacklog \<Longrightarrow> j \<in> gs_run s \<Longrightarrow> gs_ev s j = EvNil # es \<Longrightarrow>
     scan_follow_step n s (leave j (recv j s)\<lparr>gs_bound := gs_bound s @ [True]\<rparr>)"
| sf_short: "gs_stage s = SBacklog \<Longrightarrow> j \<in> gs_run s \<Longrightarrow> gs_ev s j = EvClose # es \<Longrightarrow>
     scan_follow_step n s (leave j (recv j s)\<lparr>gs_bound := gs_bound s @ [False], gs_done := True\<rparr>)"
| sf_stop: "gs_stage s = SBacklog \<Longrightarrow> gs_run s = {} \<Longrightarrow> False \<in> set (gs_bound s) \<or> gs_done s \<Longrightarrow>
     scan_follow_step n s (s\<lparr>gs_stage := SClosed\<rparr>)"
| sf_sentinel: "gs_stage s = SBacklog \<Longrightarrow> gs_run s = {} \<Longrightarrow> False \<notin> set (gs_bound s) \<Longrightarrow>
     scan_follow_step n s (s\<lparr>gs_stage := SLive, gs_run := {..<n}, gs_out := gs_out s @ [None]\<rparr>)"
| sf_second_nil: "gs_stage s = SLive \<Longrightarrow> j \<in> gs_run s \<Longrightarrow> gs_ev s j = EvNil # es \<Longrightarrow>
     scan_follow_step n s (leave j (recv j s)\<lparr>gs_done := True\<rparr>)"
| sf_closed: "gs_stage s = SLive \<Longrightarrow> j \<in> gs_run s \<Longrightarrow> gs_ev s j = EvClose # es \<Longrightarrow>
     scan_follow_step n s (leave j (recv j s))"
| sf_end: "gs_stage s = SLive \<Longrightarrow> gs_run s = {} \<Longrightarrow> scan_follow_step n s (s\<lparr>gs_stage := SClosed\<rparr>)"

text \<open>A scan that does not follow.\<close>

inductive scan_once_step :: "'i gscan \<Rightarrow> 'i gscan \<Rightarrow> bool" where
  so_ctx: "scan_once_step s (s\<lparr>gs_done := True\<rparr>)"
| so_item: "gs_stage s \<noteq> SClosed \<Longrightarrow> j \<in> gs_run s \<Longrightarrow> gs_ev s j = EvItem i # es \<Longrightarrow>
     scan_once_step s (scan_emit j i (recv j s))"
| so_drop: "gs_stage s \<noteq> SClosed \<Longrightarrow> gs_done s \<Longrightarrow> j \<in> gs_run s \<Longrightarrow> gs_ev s j = EvItem i # es \<Longrightarrow>
     scan_once_step s (leave j (recv j s))"
| so_skip: "gs_stage s \<noteq> SClosed \<Longrightarrow> j \<in> gs_run s \<Longrightarrow> gs_ev s j = EvNil # es \<Longrightarrow> scan_once_step s (recv j s)"
| so_closed: "gs_stage s \<noteq> SClosed \<Longrightarrow> j \<in> gs_run s \<Longrightarrow> gs_ev s j = EvClose # es \<Longrightarrow>
     scan_once_step s (leave j (recv j s))"
| so_end: "gs_stage s \<noteq> SClosed \<Longrightarrow> gs_run s = {} \<Longrightarrow> scan_once_step s (s\<lparr>gs_stage := SClosed\<rparr>)"

subsection \<open>What has been emitted\<close>

fun from_src :: "nat \<Rightarrow> (nat \<times> 'i) option list \<Rightarrow> 'i list" where
  "from_src j [] = []"
| "from_src j (None # xs) = from_src j xs"
| "from_src j (Some (k, i) # xs) = (if k = j then i # from_src j xs else from_src j xs)"

fun items_of :: "'i ev list \<Rightarrow> 'i list" where
  "items_of [] = []"
| "items_of (EvItem i # es) = i # items_of es"
| "items_of (EvNil # es) = items_of es"
| "items_of (EvClose # es) = []"

fun yields :: "'i ev list \<Rightarrow> 'i list" where
  "yields [] = []"
| "yields (EvItem i # es) = i # yields es"
| "yields (EvNil # es) = yields es"
| "yields (EvClose # es) = yields es"

definition before_nil :: "'a option list \<Rightarrow> 'a option list" where
  "before_nil xs = takeWhile (\<lambda>x. x \<noteq> None) xs"

definition after_nil :: "'a option list \<Rightarrow> 'a option list" where
  "after_nil xs = tl (dropWhile (\<lambda>x. x \<noteq> None) xs)"

lemma from_src_append [simp]: "from_src j (xs @ ys) = from_src j xs @ from_src j ys"
  by (induction j xs rule: from_src.induct) auto

lemma before_nil_snoc:
  "None \<in> set xs \<Longrightarrow> before_nil (xs @ ys) = before_nil xs"
  "None \<in> set xs \<Longrightarrow> after_nil (xs @ ys) = after_nil xs @ ys"
  by (induction xs) (auto simp: before_nil_def after_nil_def)

lemma before_nil_none: "None \<notin> set xs \<Longrightarrow> before_nil (xs @ None # ys) = xs \<and> after_nil (xs @ None # ys) = ys"
proof (induction xs)
  case (Cons a xs)
  then show ?case by (cases a) (auto simp: before_nil_def after_nil_def)
qed (simp add: before_nil_def after_nil_def)

text \<open>
  What was passed on is in order and was yielded by its member, whatever happened; while the
  context has not ended, it is all that was yielded.
\<close>

definition passed_on :: "nat \<Rightarrow> 'i gscan \<Rightarrow> 'i ev list" where
  "passed_on j s = map EvItem (from_src j (before_nil (gs_out s))) @ EvNil # map EvItem (from_src j (after_nil (gs_out s)))"

definition member_ok :: "(nat \<Rightarrow> 'i ev list) \<Rightarrow> 'i gscan \<Rightarrow> nat \<Rightarrow> bool" where
  "member_ok E s j =
     (case gs_stage s of
        SBacklog \<Rightarrow> E j = map EvItem (from_src j (gs_out s)) @ (if j \<in> gs_run s then [] else [EvNil]) @ gs_ev s j
      | SLive \<Rightarrow> if j \<in> gs_run s then E j = passed_on j s @ gs_ev s j else \<exists>es. E j = passed_on j s @ EvClose # es
      | SClosed \<Rightarrow> \<exists>es. E j = passed_on j s @ EvClose # es)"

definition nils_ok :: "'i gscan \<Rightarrow> bool" where
  "nils_ok s \<longleftrightarrow> (gs_stage s = SBacklog \<longrightarrow> None \<notin> set (gs_out s)) \<and>
     (gs_stage s = SLive \<longrightarrow> count_list (gs_out s) None = 1) \<and> count_list (gs_out s) None \<le> 1 \<and>
     (False \<in> set (gs_bound s) \<longrightarrow> gs_done s)"

definition follow_inv :: "nat \<Rightarrow> (nat \<Rightarrow> 'i ev list) \<Rightarrow> 'i gscan \<Rightarrow> bool" where
  "follow_inv n E s \<longleftrightarrow> nils_ok s \<and> (\<forall>j. subseq (from_src j (gs_out s) @ yields (gs_ev s j)) (yields (E j))) \<and>
     (\<not> gs_done s \<longrightarrow> (\<forall>j < n. member_ok E s j))"

lemma subseq_trim: "subseq (xs @ a # ys) zs \<Longrightarrow> subseq (xs @ ys) zs"
  by (meson list_emb_append_mono subseq_order.order_trans subseq_Cons' subseq_order.order_refl)

lemma yielded_step:
  assumes "subseq (from_src j (gs_out s) @ yields (gs_ev s j)) (yields (E j))" and "scan_follow_step n s t"
  shows "subseq (from_src j (gs_out t) @ yields (gs_ev t j)) (yields (E j))"
  using assms(2)
proof cases
  case (sf_drop k i es)
  then show ?thesis using assms(1) by (auto simp: leave_def recv_def dest: subseq_trim)
qed (use assms(1) in \<open>auto simp: scan_emit_def leave_def recv_def\<close>)

lemma nils_step: "nils_ok s \<Longrightarrow> scan_follow_step n s t \<Longrightarrow> nils_ok t"
  by (erule scan_follow_step.cases) (auto simp: nils_ok_def scan_emit_def leave_def recv_def)

lemma member_step:
  assumes "nils_ok s" and "member_ok E s j" and "scan_follow_step n s t" and "\<not> gs_done t" and "j < n"
  shows "member_ok E t j"
  using assms(3)
proof cases
  case (sf_item k i es)
  have nil: "None \<in> set (gs_out s)" if "gs_stage s = SLive"
    using assms(1) that by (auto simp: nils_ok_def intro: ccontr)
  show ?thesis
    using assms(2) sf_item nil
    by (cases "gs_stage s") (auto simp: member_ok_def passed_on_def scan_emit_def recv_def before_nil_snoc)
next
  case sf_sentinel
  then show ?thesis
    using assms(1,2,5) before_nil_none [of "gs_out s" "[]"] by (auto simp: member_ok_def passed_on_def nils_ok_def)
next
  case sf_stop
  then show ?thesis using assms(1,4) by (auto simp: nils_ok_def)
qed (use assms(2,4) in \<open>auto simp: member_ok_def passed_on_def leave_def recv_def split: stage.splits if_splits\<close>)

lemma done_stays: "scan_follow_step n s t \<Longrightarrow> gs_done s \<Longrightarrow> gs_done t"
  by (erule scan_follow_step.cases) (auto simp: scan_emit_def leave_def recv_def)

lemma follow_inv_step:
  assumes "follow_inv n E s" and "scan_follow_step n s t"
  shows "follow_inv n E t"
proof -
  have i: "nils_ok s" "\<And>j. subseq (from_src j (gs_out s) @ yields (gs_ev s j)) (yields (E j))"
    "\<And>j. \<not> gs_done s \<Longrightarrow> j < n \<Longrightarrow> member_ok E s j" using assms(1) by (auto simp: follow_inv_def)
  have "subseq (from_src j (gs_out t) @ yields (gs_ev t j)) (yields (E j))" for j
    by (rule yielded_step [OF i(2) assms(2)])
  moreover have "member_ok E t j" if "\<not> gs_done t" "j < n" for j
    using member_step [OF i(1) i(3) assms(2)] done_stays [OF assms(2)] that by blast
  ultimately show ?thesis using nils_step [OF i(1) assms(2)] by (simp add: follow_inv_def)
qed

definition once_inv :: "nat \<Rightarrow> (nat \<Rightarrow> 'i ev list) \<Rightarrow> 'i gscan \<Rightarrow> bool" where
  "once_inv n E s \<longleftrightarrow>
     None \<notin> set (gs_out s) \<and>
     (\<not> gs_done s \<longrightarrow>
        (\<forall>j < n. items_of (E j) = from_src j (gs_out s) @ (if j \<in> gs_run s then items_of (gs_ev s j) else [])) \<and>
        (gs_stage s = SClosed \<longrightarrow> gs_run s = {}))"

lemma once_inv_step:
  assumes "once_inv n E s" and "scan_once_step s t"
  shows "once_inv n E t"
  using assms(2)
  by cases (use assms(1) in \<open>auto simp: once_inv_def scan_emit_def leave_def recv_def\<close>)

interpretation follow_scan: safety "gscan_start n E" "scan_follow_step n" "follow_inv n E" for n E
  by unfold_locales (simp add: gscan_start_def follow_inv_def nils_ok_def member_ok_def, erule (1) follow_inv_step)

interpretation once_scan: safety "gscan_start n E" scan_once_step "once_inv n E" for n E
  by unfold_locales (simp add: gscan_start_def once_inv_def, erule (1) once_inv_step)

subsection \<open>Properties\<close>


text \<open>
  A scan of a group that does not follow emits, once it has closed and if its context did not
  end, exactly the identifiers of every member up to its closing, each member's in order, and no
  \<open>nil\<close>.
\<close>

lemma group_scan_complete:
  assumes "reach (gscan_start n E) scan_once_step s" and "gs_stage s = SClosed" and "\<not> gs_done s"
  shows "None \<notin> set (gs_out s) \<and> (\<forall>j < n. from_src j (gs_out s) = items_of (E j))"
  using once_scan.reach_inv [OF assms(1)] assms(2,3) by (simp add: once_inv_def)

text \<open>
  Once the context has ended the sentinel can come early: the workers have left without draining,
  and the final choice between the ended context and the consumer may fall on the consumer.
\<close>

definition early_events :: "nat \<Rightarrow> nat ev list" where
  "early_events j = [EvItem j, EvNil]"

lemma early_sentinel:
  "\<exists>s. reach (gscan_start 1 early_events) (scan_follow_step 1) s \<and> gs_out s = [None] \<and> gs_ev s 0 = [EvItem 0, EvNil]"
proof -
  let ?R = "reach (gscan_start 1 early_events) (scan_follow_step 1)"
  let ?s = "\<lambda>run d st out. \<lparr>gs_ev = early_events, gs_run = run, gs_bound = [], gs_done = d, gs_stage = st, gs_out = out\<rparr>"
  have "?R (?s {..<1} False SBacklog [])" by (rule reach_init) (simp add: gscan_start_def)
  from reach_step [OF this sf_ctx] have 1: "?R (?s {..<1} True SBacklog [])" by simp
  have "?R (?s {} True SBacklog [])"
    using reach_step [OF 1 sf_quit [of _ 0]] by (simp add: leave_def lessThan_Suc)
  from reach_step [OF this sf_sentinel] have "?R (?s {..<1} True SLive [None])" by simp
  then show ?thesis by (intro exI [of _ "?s {..<1} True SLive [None]"]) (simp add: early_events_def)
qed

lemma demo_scan_live:
  "reach (gscan_start 1 early_events) (scan_follow_step 1)
     \<lparr>gs_ev = early_events(0 := []), gs_run = {..<1}, gs_bound = [True], gs_done = False, gs_stage = SLive,
      gs_out = [Some (0, 0), None]\<rparr>"
proof -
  let ?R = "reach (gscan_start 1 early_events) (scan_follow_step 1)"
  let ?s = "\<lambda>ev run bo st out. \<lparr>gs_ev = ev, gs_run = run, gs_bound = bo, gs_done = False, gs_stage = st, gs_out = out\<rparr>"
  have e: "early_events 0 = [EvItem 0, EvNil]" by (simp add: early_events_def)
  have 0: "?R (?s early_events {..<1} [] SBacklog [])" by (rule reach_init) (simp add: gscan_start_def)
  have 1: "?R (?s (early_events(0 := [EvNil])) {..<1} [] SBacklog [Some (0, 0)])"
    using reach_step [OF 0 sf_item [of _ 0 0 "[EvNil]"]] by (simp add: e scan_emit_def recv_def)
  have 2: "?R (?s (early_events(0 := [])) {} [True] SBacklog [Some (0, 0)])"
    using reach_step [OF 1 sf_drained [of _ 0 "[]"]] by (simp add: leave_def recv_def lessThan_Suc)
  show ?thesis using reach_step [OF 2 sf_sentinel] by simp
qed


lemma group_scan_complete_witness:
  "\<exists>s :: nat gscan. gs_stage s = SClosed \<and> from_src 0 (gs_out s) = items_of [EvItem (5 :: nat), EvClose]"
proof -
  let ?E = "\<lambda>_ :: nat. [EvItem (5 :: nat), EvClose]"
  let ?R = "reach (gscan_start 1 ?E) scan_once_step"
  let ?s = "\<lambda>ev run st out. \<lparr>gs_ev = ev, gs_run = run, gs_bound = [], gs_done = False, gs_stage = st, gs_out = out\<rparr>"
  have 0: "?R (?s ?E {..<1} SBacklog [])" by (rule reach_init) (simp add: gscan_start_def)
  have 1: "?R (?s (?E(0 := [EvClose])) {..<1} SBacklog [Some (0, 5)])"
    using reach_step [OF 0 so_item [of _ 0 5 "[EvClose]"]] by (simp add: scan_emit_def recv_def)
  have 2: "?R (?s (?E(0 := [])) {} SBacklog [Some (0, 5)])"
    using reach_step [OF 1 so_closed [of _ 0 "[]"]] by (simp add: leave_def recv_def lessThan_Suc)
  have 3: "?R (?s (?E(0 := [])) {} SClosed [Some (0, 5)])"
    using reach_step [OF 2 so_end] by simp
  show ?thesis using group_scan_complete [OF 3] by (intro exI [of _ "?s (?E(0 := [])) {} SClosed [Some (0, 5)]"]) simp
qed

end
