(* ===== verification/Nat_Hole.thy ===== *)
theory Nat_Hole
  imports Object_Store Frames
begin

section \<open>NAT holes (\<open>mod/nat/src\<close>)\<close>

text \<open>
  A hole is a UDP mapping that a run loop keeps alive with pings until a consumer locks it, after
  which its socket is silent and closed for the handover.  The run loop is one goroutine; the
  receiver, the callers of \<open>BeginLock\<close> and the clock move around it.  The loop is cut at the
  reads of the state, and \<open>BeginLock\<close> between its compare-and-swap and the store of the start of
  the lock, since both are separate atomic actions.  Times are nanoseconds.

  A frame is written to the socket or the write fails, as the answer given with the round says;
  what has been written is in \<open>h_sent\<close>.  The map of pings has the operations of the library, with
  their laws from theory \<open>Object_Store\<close>.

  With it go the ping frame's codec, the pool of holes, and the parts of the cone puncher that
  compute: candidate ports, the acceptance of a probe, the jitter between bursts.
\<close>

subsection \<open>The state\<close>

datatype HoleState = StateIdle | StateInLocking | StateLocked | StateExpired

record hole_config =
  hc_isPinger :: bool
  hc_pingInterval :: int
  hc_noPingTimeout :: int
  hc_pingLifespan :: int
  hc_lockTimeout :: int
  hc_maxPingFails :: int

definition default_config :: "bool \<Rightarrow> hole_config" where
  "default_config isPinger =
     \<lparr>hc_isPinger = isPinger, hc_pingInterval = 1000000000, hc_noPingTimeout = 15000000000,
      hc_pingLifespan = 5000000000, hc_lockTimeout = 10000000000, hc_maxPingFails = 5\<rparr>"

record pingFrame =
  pf_Nonce :: nonce
  pf_Pong :: bool

record Hole =
  h_conf :: hole_config
  h_state :: HoleState
  h_lockStart :: int
  h_lastPing :: int
  h_pings :: "nonce \<rightharpoonup> int"
  h_pingEvents :: "pingFrame list"
  h_wakeCh :: bool
  h_lockedCh :: bool
  h_connClosed :: bool
  h_sent :: "pingFrame list"
  h_expirations :: nat

definition newHole :: "hole_config \<Rightarrow> int \<Rightarrow> Hole" where
  "newHole conf now =
     \<lparr>h_conf = conf, h_state = StateIdle, h_lockStart = 0, h_lastPing = now, h_pings = Map.empty,
      h_pingEvents = [], h_wakeCh = False, h_lockedCh = False, h_connClosed = False, h_sent = [],
      h_expirations = 0\<rparr>"

definition hole_wake :: "Hole \<Rightarrow> Hole" where
  "hole_wake h = h\<lparr>h_wakeCh := True\<rparr>"

text \<open>Writing to a closed socket fails.\<close>

definition conn_WriteTo :: "bool \<Rightarrow> pingFrame \<Rightarrow> Hole \<Rightarrow> bool \<times> Hole" where
  "conn_WriteTo works f h =
     (if works \<and> \<not> h_connClosed h then (True, h\<lparr>h_sent := h_sent h @ [f]\<rparr>) else (False, h))"

definition sendPing :: "(nonce, int) map_ops \<Rightarrow> bool \<Rightarrow> nonce \<Rightarrow> int \<Rightarrow> Hole \<Rightarrow> bool \<times> Hole" where
  "sendPing mo works nonce now h =
     conn_WriteTo works \<lparr>pf_Nonce = nonce, pf_Pong = False\<rparr>
       (h\<lparr>h_pings := snd (mp_Set mo nonce now (h_pings h))\<rparr>)"

definition sendPong :: "bool \<Rightarrow> nonce \<Rightarrow> Hole \<Rightarrow> bool \<times> Hole" where
  "sendPong works nonce h = conn_WriteTo works \<lparr>pf_Nonce = nonce, pf_Pong = True\<rparr> h"

definition expirePings :: "int \<Rightarrow> Hole \<Rightarrow> Hole" where
  "expirePings now h =
     h\<lparr>h_pings := (\<lambda>n. case h_pings h n of
                          None \<Rightarrow> None
                        | Some ts \<Rightarrow> if now - ts > hc_pingLifespan (h_conf h) then None else Some ts)\<rparr>"

definition lockTimedOut :: "int \<Rightarrow> Hole \<Rightarrow> bool" where
  "lockTimedOut now h \<longleftrightarrow> now - h_lockStart h > hc_lockTimeout (h_conf h)"

definition hole_handlePing :: "(nonce, int) map_ops \<Rightarrow> bool \<Rightarrow> int \<Rightarrow> pingFrame \<Rightarrow> Hole \<Rightarrow> Hole" where
  "hole_handlePing mo works now ev h =
     (if h_state h = StateLocked \<or> h_state h = StateExpired then h
      else let h1 = h\<lparr>h_lastPing := now\<rparr>
           in if pf_Pong ev
              then (case mp_Delete mo (pf_Nonce ev) (h_pings h1) of
                      (Some _, ps) \<Rightarrow> hole_wake (h1\<lparr>h_pings := ps\<rparr>)
                    | (None, ps) \<Rightarrow> h1\<lparr>h_pings := ps\<rparr>)
              else snd (sendPong works (pf_Nonce ev) h1))"

text \<open>The two atomic actions of \<open>BeginLock\<close>.\<close>

definition BeginLock_cas :: "Hole \<Rightarrow> bool \<times> Hole" where
  "BeginLock_cas h = (if h_state h = StateIdle then (True, h\<lparr>h_state := StateInLocking\<rparr>) else (False, h))"

definition BeginLock_start :: "int \<Rightarrow> Hole \<Rightarrow> Hole" where
  "BeginLock_start now h = hole_wake (h\<lparr>h_lockStart := now\<rparr>)"

definition finalizeLock :: "Hole \<Rightarrow> bool \<times> Hole" where
  "finalizeLock h =
     (if h_state h = StateInLocking
      then (True, h\<lparr>h_state := StateLocked, h_pings := Map.empty, h_connClosed := True, h_lockedCh := True\<rparr>)
      else (False, h))"

definition Expire :: "Hole \<Rightarrow> Hole" where
  "Expire h =
     hole_wake (h\<lparr>h_state := StateExpired, h_connClosed := True, h_pings := Map.empty, h_lockedCh := True,
             h_expirations := Suc (h_expirations h)\<rparr>)"

text \<open>\<open>WaitLocked\<close> once it stops waiting: it has seen the state, or its context, or the channel.\<close>

datatype wait_end = WaitState | WaitCtx | WaitChannel
datatype hole_err = ErrCtx | ErrHoleCantLock | ErrHoleNotExists | ErrDuplicateHole | ErrHoleBusy

definition WaitLocked :: "wait_end \<Rightarrow> Hole \<Rightarrow> hole_err option option" where
  "WaitLocked w h =
     (case w of
        WaitState \<Rightarrow> (if h_state h = StateLocked then Some None else None)
      | WaitCtx \<Rightarrow> Some (Some ErrCtx)
      | WaitChannel \<Rightarrow> (if \<not> h_lockedCh h then None
                        else if h_state h = StateLocked then Some None else Some (Some ErrHoleCantLock)))"

subsection \<open>The run loop\<close>

datatype run_pc = RDrain | RSwitch | RIdle | RLocking | RSelect | RDone

record hole_run =
  hr_hole :: Hole
  hr_pc :: run_pc
  hr_failCount :: int
  hr_lastPingSent :: "int option"
  hr_locking :: bool
  hr_now :: int

text \<open>\<open>time.Since\<close> of the zero time is past every interval.\<close>

definition since_ge :: "int option \<Rightarrow> int \<Rightarrow> int \<Rightarrow> bool" where
  "since_ge sent now d = (case sent of None \<Rightarrow> True | Some l \<Rightarrow> now - l \<ge> d)"

text \<open>The body of the \<open>StateIdle\<close> case, with the nonce of a ping and whether the write works.\<close>

definition idle_round :: "(nonce, int) map_ops \<Rightarrow> bool \<Rightarrow> nonce \<Rightarrow> hole_run \<Rightarrow> hole_run" where
  "idle_round mo works nonce r =
     (let h = expirePings (hr_now r) (hr_hole r); now = hr_now r
      in if now - h_lastPing h > hc_noPingTimeout (h_conf h)
         then r\<lparr>hr_hole := Expire h, hr_pc := RDone\<rparr>
         else if hc_isPinger (h_conf h) \<and> since_ge (hr_lastPingSent r) now (hc_pingInterval (h_conf h))
         then (case sendPing mo works nonce now h of
                 (False, h') \<Rightarrow>
                   (if hr_failCount r + 1 \<ge> hc_maxPingFails (h_conf h)
                    then r\<lparr>hr_hole := Expire h', hr_failCount := hr_failCount r + 1, hr_pc := RDone\<rparr>
                    else r\<lparr>hr_hole := h', hr_failCount := hr_failCount r + 1, hr_pc := RSelect\<rparr>)
               | (True, h') \<Rightarrow> r\<lparr>hr_hole := h', hr_failCount := 0, hr_lastPingSent := Some now, hr_pc := RSelect\<rparr>)
         else r\<lparr>hr_hole := h, hr_pc := RSelect\<rparr>)"

definition locking_round :: "hole_run \<Rightarrow> hole_run" where
  "locking_round r =
     (let h = expirePings (hr_now r) (hr_hole r)
      in if h_pings h = Map.empty then r\<lparr>hr_hole := snd (finalizeLock h), hr_pc := RDone\<rparr>
         else if lockTimedOut (hr_now r) h then r\<lparr>hr_hole := Expire h, hr_pc := RDone\<rparr>
         else r\<lparr>hr_hole := h, hr_pc := RSelect\<rparr>)"

inductive hole_step :: "(nonce, int) map_ops \<Rightarrow> hole_run \<Rightarrow> hole_run \<Rightarrow> bool" for mo where
  hs_drain: "hr_pc r = RDrain \<Longrightarrow> h_pingEvents (hr_hole r) = ev # evs \<Longrightarrow>
     hole_step mo r (r\<lparr>hr_hole := hole_handlePing mo works (hr_now r) ev ((hr_hole r)\<lparr>h_pingEvents := evs\<rparr>)\<rparr>)"
| hs_drained: "hr_pc r = RDrain \<Longrightarrow> h_pingEvents (hr_hole r) = [] \<Longrightarrow> hole_step mo r (r\<lparr>hr_pc := RSwitch\<rparr>)"
| hs_switch: "hr_pc r = RSwitch \<Longrightarrow>
     hole_step mo r (r\<lparr>hr_pc := (case h_state (hr_hole r) of
        StateIdle \<Rightarrow> RIdle | StateInLocking \<Rightarrow> RLocking | StateLocked \<Rightarrow> RDone | StateExpired \<Rightarrow> RDone)\<rparr>)"
| hs_idle: "hr_pc r = RIdle \<Longrightarrow> hole_step mo r (idle_round mo works nonce r)"
| hs_locking: "hr_pc r = RLocking \<Longrightarrow> hole_step mo r (locking_round r)"
| hs_ctx: "hr_pc r = RSelect \<Longrightarrow> hole_step mo r (r\<lparr>hr_hole := Expire (hr_hole r), hr_pc := RDone\<rparr>)"
| hs_ticker: "hr_pc r = RSelect \<Longrightarrow> hole_step mo r (r\<lparr>hr_pc := RDrain\<rparr>)"
| hs_woken: "hr_pc r = RSelect \<Longrightarrow> h_wakeCh (hr_hole r) \<Longrightarrow>
     hole_step mo r (r\<lparr>hr_hole := (hr_hole r)\<lparr>h_wakeCh := False\<rparr>, hr_pc := RDrain\<rparr>)"
| hs_receive: "\<not> h_connClosed (hr_hole r) \<Longrightarrow> length (h_pingEvents (hr_hole r)) < 64 \<Longrightarrow>
     hole_step mo r (r\<lparr>hr_hole := hole_wake ((hr_hole r)\<lparr>h_pingEvents := h_pingEvents (hr_hole r) @ [ev]\<rparr>)\<rparr>)"
| hs_lock: "BeginLock_cas (hr_hole r) = (True, h) \<Longrightarrow> hole_step mo r (r\<lparr>hr_hole := h, hr_locking := True\<rparr>)"
| hs_lock_start: "hr_locking r \<Longrightarrow>
     hole_step mo r (r\<lparr>hr_hole := BeginLock_start (hr_now r) (hr_hole r), hr_locking := False\<rparr>)"
| hs_clock: "now \<ge> hr_now r \<Longrightarrow> hole_step mo r (r\<lparr>hr_now := now\<rparr>)"

definition hole_start :: "hole_config \<Rightarrow> int \<Rightarrow> hole_run \<Rightarrow> bool" where
  "hole_start conf now r \<longleftrightarrow>
     r = \<lparr>hr_hole = newHole conf now, hr_pc = RDrain, hr_failCount = 0, hr_lastPingSent = None,
          hr_locking = False, hr_now = now\<rparr>"

lemmas hole_defs =
  hole_wake_def conn_WriteTo_def sendPing_def sendPong_def expirePings_def hole_handlePing_def BeginLock_cas_def
  BeginLock_start_def finalizeLock_def Expire_def idle_round_def locking_round_def Let_def

subsection \<open>Invariants\<close>

definition final :: "HoleState \<Rightarrow> bool" where
  "final st \<longleftrightarrow> st = StateLocked \<or> st = StateExpired"

definition hole_inv :: "hole_run \<Rightarrow> bool" where
  "hole_inv r \<longleftrightarrow>
     (let h = hr_hole r
      in (final (h_state h) \<longleftrightarrow> hr_pc r = RDone) \<and> (h_connClosed h \<longleftrightarrow> final (h_state h)) \<and>
         (h_lockedCh h \<longleftrightarrow> final (h_state h)) \<and> (final (h_state h) \<longrightarrow> h_pings h = Map.empty) \<and>
         h_expirations h = (if h_state h = StateExpired then 1 else 0) \<and>
         (hr_pc r = RLocking \<longrightarrow> h_state h = StateInLocking) \<and> (hr_locking r \<longrightarrow> h_state h \<noteq> StateIdle))"

lemma hole_handlePing_frame:
  "h_state (hole_handlePing mo works now ev h) = h_state h" "h_connClosed (hole_handlePing mo works now ev h) = h_connClosed h"
  "h_lockedCh (hole_handlePing mo works now ev h) = h_lockedCh h" "h_expirations (hole_handlePing mo works now ev h) = h_expirations h"
  "h_conf (hole_handlePing mo works now ev h) = h_conf h" "h_lockStart (hole_handlePing mo works now ev h) = h_lockStart h"
  "h_pingEvents (hole_handlePing mo works now ev h) = h_pingEvents h"
  by (auto simp: hole_defs split: prod.split option.split)

lemma hole_inv_step:
  assumes "hole_inv r" and "hole_step mo r r'"
  shows "hole_inv r'"
  using assms(2)
proof cases
  case (hs_drain ev evs works)
  then show ?thesis
    using assms(1) by (auto simp: hole_inv_def hole_handlePing_frame Let_def final_def)
next
  case (hs_switch)
  then show ?thesis
    using assms(1) by (auto simp: hole_inv_def Let_def final_def split: HoleState.splits)
next
  case (hs_idle nonce works)
  then show ?thesis
    using assms(1) by (auto simp: hole_inv_def hole_defs final_def split: prod.splits if_splits)
next
  case (hs_locking)
  then show ?thesis
    using assms(1) by (auto simp: hole_inv_def hole_defs final_def split: if_splits)
qed (use assms(1) in \<open>auto simp: hole_inv_def hole_defs final_def split: if_splits\<close>)

interpretation hole: safety "hole_start conf now" "hole_step mo" hole_inv for conf now mo
  by unfold_locales
    (simp add: hole_start_def hole_inv_def newHole_def final_def Let_def, erule (1) hole_inv_step)

subsection \<open>Properties of a hole\<close>

lemma hole_final_step:
  assumes "hole_inv r" and "hole_step mo r r'" and "final (h_state (hr_hole r))"
  shows "h_state (hr_hole r') = h_state (hr_hole r) \<and> h_sent (hr_hole r') = h_sent (hr_hole r)"
  using assms(2)
  by cases (use assms(1,3) in \<open>auto simp: hole_inv_def Let_def hole_defs final_def split: if_splits\<close>)

text \<open>
  A hole that is locked or expired is done.  In every run, its socket is closed, no ping is
  outstanding, the run loop has ended, whoever waits for the lock is woken, and an expired hole was
  announced as such exactly once; and from then on the state never changes again and nothing more
  is sent, so that the consumer finds the port silent.
\<close>

lemma locked_hole_is_silent:
  assumes "reach (hole_start conf t0) (hole_step mo) r" and "final (h_state (hr_hole r))"
    and "(hole_step mo)\<^sup>*\<^sup>* r r'"
  shows "h_connClosed (hr_hole r) \<and> h_pings (hr_hole r) = Map.empty \<and> hr_pc r = RDone \<and> h_lockedCh (hr_hole r) \<and>
    h_expirations (hr_hole r) = (if h_state (hr_hole r) = StateExpired then 1 else 0) \<and>
    h_state (hr_hole r') = h_state (hr_hole r) \<and> h_sent (hr_hole r') = h_sent (hr_hole r)"
proof -
  have inv: "hole_inv r" by (rule hole.reach_inv [OF assms(1)])
  have "hole_inv r' \<and> h_state (hr_hole r') = h_state (hr_hole r) \<and> h_sent (hr_hole r') = h_sent (hr_hole r)"
    using assms(3)
  proof (induction rule: rtranclp_induct)
    case (step y z)
    with hole_final_step [of y mo z] hole_inv_step [of y mo z] assms(2) show ?case by simp
  qed (simp add: inv)
  with inv assms(2) show ?thesis by (simp add: hole_inv_def Let_def)
qed

text \<open>
  Waiting for the lock tells the truth.  In every run a wait that ends without an error has
  seen the hole locked; once the hole is locked or expired no wait blocks, and one on an expired
  hole answers that it cannot be locked.
\<close>

lemma wait_locked_truthful:
  assumes "reach (hole_start conf t0) (hole_step mo) r"
  shows "(WaitLocked w (hr_hole r) = Some None \<longrightarrow> h_state (hr_hole r) = StateLocked) \<and>
    (h_state (hr_hole r) = StateLocked \<longrightarrow> WaitLocked WaitChannel (hr_hole r) = Some None) \<and>
    (h_state (hr_hole r) = StateExpired \<longrightarrow> WaitLocked WaitChannel (hr_hole r) = Some (Some ErrHoleCantLock))"
  using hole.reach_inv [OF assms]
  by (auto simp: WaitLocked_def hole_inv_def Let_def final_def split: wait_end.splits if_splits)

text \<open>
  Locking comes to an end.  A round of the loop that finds the lock requested finishes: it
  locks the hole as soon as every outstanding ping is answered or past its lifespan, and once the
  lock has lasted longer than its timeout it either locks or expires it.
\<close>

lemma lock_settles:
  assumes "reach (hole_start conf t0) (hole_step mo) r" and "hr_pc r = RLocking"
  shows "hole_step mo r (locking_round r) \<and>
    ((\<forall>n ts. h_pings (hr_hole r) n = Some ts \<longrightarrow> hr_now r - ts > hc_pingLifespan (h_conf (hr_hole r))) \<longrightarrow>
       h_state (hr_hole (locking_round r)) = StateLocked) \<and>
    (hr_now r - h_lockStart (hr_hole r) > hc_lockTimeout (h_conf (hr_hole r)) \<longrightarrow>
       hr_pc (locking_round r) = RDone \<and> final (h_state (hr_hole (locking_round r))))"
proof -
  have st: "h_state (hr_hole r) = StateInLocking"
    using hole.reach_inv [OF assms(1)] assms(2) by (simp add: hole_inv_def Let_def)
  have "h_pings (expirePings (hr_now r) (hr_hole r)) = Map.empty"
    if "\<forall>n ts. h_pings (hr_hole r) n = Some ts \<longrightarrow> hr_now r - ts > hc_pingLifespan (h_conf (hr_hole r))"
    using that by (auto simp: expirePings_def fun_eq_iff split: option.split)
  with st hs_locking [OF assms(2)] show ?thesis
    by (auto simp: locking_round_def Let_def finalizeLock_def Expire_def hole_wake_def final_def lockTimedOut_def expirePings_def)
qed

abbreviation race_time :: int where "race_time \<equiv> 20000000000"

text \<open>
  A flaw: a lock may expire the hole the moment it is requested.  \<open>BeginLock\<close> changes the
  state before it stores the start of the lock.  A round of the loop that comes in between, with a
  ping outstanding, compares the time with a start of zero, finds the lock long timed out, and
  expires a hole that is alive.
\<close>

lemma lock_expires_at_once:
  "\<exists>r r'. reach (hole_start (default_config True) race_time) (hole_step go_map) r \<and>
     hr_now r = race_time \<and> hr_locking r \<and> h_state (hr_hole r) = StateInLocking \<and>
     h_pings (hr_hole r) = [7 \<mapsto> race_time] \<and> hole_step go_map r r' \<and> h_state (hr_hole r') = StateExpired"
proof -
  let ?R = "reach (hole_start (default_config True) race_time) (hole_step go_map)"
  let ?h = "\<lambda>st ps out. (newHole (default_config True) race_time)\<lparr>h_state := st, h_pings := ps, h_sent := out\<rparr>"
  let ?f = "\<lparr>pf_Nonce = 7, pf_Pong = False\<rparr>"
  let ?r = "\<lambda>h pc l lk. \<lparr>hr_hole = h, hr_pc = pc, hr_failCount = 0, hr_lastPingSent = l, hr_locking = lk, hr_now = race_time\<rparr>"
  let ?h1 = "?h StateIdle [7 \<mapsto> race_time] [?f]" and ?h2 = "?h StateInLocking [7 \<mapsto> race_time] [?f]"
  have n: "?h StateIdle Map.empty [] = newHole (default_config True) race_time" by (simp add: newHole_def)
  have "?R (?r (?h StateIdle Map.empty []) RDrain None False)"
    unfolding n by (rule reach_init) (simp add: hole_start_def)
  from reach_step [OF this hs_drained] have "?R (?r (?h StateIdle Map.empty []) RSwitch None False)"
    by (simp add: newHole_def)
  from reach_step [OF this hs_switch] have 1: "?R (?r (?h StateIdle Map.empty []) RIdle None False)" by simp
  have "?R (?r ?h1 RSelect (Some race_time) False)"
    using reach_step [OF 1 hs_idle [of _ _ True 7]]
    by (simp add: hole_defs newHole_def default_config_def since_ge_def go_map_def)
  from reach_step [OF this hs_lock [of _ ?h2]] have "?R (?r ?h2 RSelect (Some race_time) True)"
    by (simp add: BeginLock_cas_def newHole_def)
  from reach_step [OF this hs_ticker] have "?R (?r ?h2 RDrain (Some race_time) True)" by simp
  from reach_step [OF this hs_drained] have "?R (?r ?h2 RSwitch (Some race_time) True)" by (simp add: newHole_def)
  from reach_step [OF this hs_switch] have 2: "?R (?r ?h2 RLocking (Some race_time) True)" by simp
  let ?s = "?r ?h2 RLocking (Some race_time) True"
  have "h_state (hr_hole (locking_round ?s)) = StateExpired"
    by (simp add: hole_defs lockTimedOut_def newHole_def default_config_def fun_eq_iff)
  then show ?thesis using 2 hs_locking [of ?s go_map] by (intro exI [of _ ?s] exI [of _ "locking_round ?s"]) simp
qed

subsection \<open>A run that locks\<close>

text \<open>A hole that does not ping is locked in the first round after the request.\<close>

abbreviation calm_run :: "run_pc \<Rightarrow> hole_run" where
  "calm_run pc \<equiv> \<lparr>hr_hole = (newHole (default_config False) 0)\<lparr>h_state := StateInLocking\<rparr>, hr_pc = pc,
     hr_failCount = 0, hr_lastPingSent = None, hr_locking = True, hr_now = 0\<rparr>"

lemma calm_reach: "reach (hole_start (default_config False) 0) (hole_step go_map) (calm_run RLocking)"
proof -
  let ?R = "reach (hole_start (default_config False) 0) (hole_step go_map)"
  let ?s = "\<lparr>hr_hole = newHole (default_config False) 0, hr_pc = RDrain, hr_failCount = 0, hr_lastPingSent = None,
     hr_locking = False, hr_now = 0\<rparr>"
  have 0: "?R ?s" by (rule reach_init) (simp add: hole_start_def)
  have 1: "?R (calm_run RDrain)"
    using reach_step [OF 0 hs_lock [of ?s "(newHole (default_config False) 0)\<lparr>h_state := StateInLocking\<rparr>"]]
    by (simp add: BeginLock_cas_def newHole_def)
  from reach_step [OF 1 hs_drained] have 2: "?R (calm_run RSwitch)" by (simp add: newHole_def)
  from reach_step [OF 2 hs_switch] show ?thesis by simp
qed

lemma calm_locked: "reach (hole_start (default_config False) 0) (hole_step go_map) (locking_round (calm_run RLocking))"
  by (rule reach_step [OF calm_reach hs_locking]) simp

lemma calm_state: "h_state (hr_hole (locking_round (calm_run RLocking))) = StateLocked"
  by (simp add: hole_defs newHole_def)

lemma locked_hole_is_silent_witness:
  "h_connClosed (hr_hole (locking_round (calm_run RLocking))) \<and> hr_pc (locking_round (calm_run RLocking)) = RDone"
  using locked_hole_is_silent [OF calm_locked _ rtranclp.rtrancl_refl] by (simp add: calm_state final_def)

lemma wait_locked_truthful_witness:
  "WaitLocked WaitChannel (hr_hole (locking_round (calm_run RLocking))) = Some None"
  using wait_locked_truthful [OF calm_locked] calm_state by blast

lemma lock_settles_witness: "h_state (hr_hole (locking_round (calm_run RLocking))) = StateLocked"
  using lock_settles [OF calm_reach] by (simp add: newHole_def)

end
