(* ===== verification/Nat_Pool.thy ===== *)
theory Nat_Pool
  imports Nat_Hole
begin

section \<open>Pool, hand-over and punching of NAT holes\<close>

text \<open>
  The pool keeps holes by their nonce; consuming a hole takes it out, locks it, and gives it back
  when it was never locked.  The answers of other parties (authorization, the resolution of a name,
  the peer, the channel, how the wait for the lock ends) are arguments.

  Of the puncher: the codec of the probes' keep-alive frame, the candidate ports, which packet is
  taken for a probe, the checks and the ends of a punch, and the jitter.  Sending the bursts is
  output only and left out.
\<close>

subsection \<open>The ping frame\<close>

definition pf_bytes :: "byteOrder \<Rightarrow> pingFrame \<Rightarrow> bytes" where
  "pf_bytes bo f = putUint bo 8 (unat (pf_Nonce f)) @ [if pf_Pong f then 1 else 0]"

definition pingFrame_WriteTo :: "byteOrder \<Rightarrow> pingFrame \<Rightarrow> wr" where
  "pingFrame_WriteTo bo f =
     wr_then (binWrite (putUint bo 8 (unat (pf_Nonce f)))) (binWrite [if pf_Pong f then 1 else 0])"

definition pingFrame_ReadFrom :: "byteOrder \<Rightarrow> pingFrame rd" where
  "pingFrame_ReadFrom bo =
     rd_bind (readU64 bo) (\<lambda>nonce.
     rd_bind (binRead 1 (\<lambda>bs. bs = [1])) (\<lambda>pong.
     rd_return \<lparr>pf_Nonce = nonce, pf_Pong = pong\<rparr>))"

interpretation hole_ping: wire_codec pf_bytes pingFrame_WriteTo pingFrame_ReadFrom "\<lambda>_. True"
proof
  fix bo f r
  show "writes (pingFrame_WriteTo bo f) (pf_bytes bo f)"
    unfolding pingFrame_WriteTo_def pf_bytes_def by blast
  show "pingFrame_ReadFrom bo (pf_bytes bo f @ r) = (length (pf_bytes bo f), Inr f, r)"
    by (simp add: pingFrame_ReadFrom_def pf_bytes_def codec_simps binRead_def)
  show "exact (pingFrame_ReadFrom bo)"
    unfolding pingFrame_ReadFrom_def by blast
qed

text \<open>
  The receiver takes a packet from the expected address that decodes, and ignores every other one.
\<close>

definition receiver_packet :: "byteOrder \<Rightarrow> 'addr \<Rightarrow> 'addr \<Rightarrow> bytes \<Rightarrow> Hole \<Rightarrow> Hole option" where
  "receiver_packet bo expected from buf h =
     (if from \<noteq> expected then Some h
      else case pingFrame_ReadFrom bo buf of
             (_, Inl _, _) \<Rightarrow> Some h
           | (_, Inr f, _) \<Rightarrow>
               (if length (h_pingEvents h) < 64 then Some (hole_wake (h\<lparr>h_pingEvents := h_pingEvents h @ [f]\<rparr>)) else None))"

subsection \<open>The pool\<close>

record hole_pool =
  hp_holes :: "nonce \<rightharpoonup> nat"
  hp_hole :: "nat \<Rightarrow> Hole"
  hp_nonce :: "nat \<Rightarrow> nonce"

definition pool_Add :: "(nonce, nat) map_ops \<Rightarrow> nat \<Rightarrow> hole_pool \<Rightarrow> hole_err option \<times> hole_pool" where
  "pool_Add mo a p =
     (case mp_Set mo (hp_nonce p a) a (hp_holes p) of
        (b, hs) \<Rightarrow> (if b then None else Some ErrDuplicateHole, p\<lparr>hp_holes := hs\<rparr>))"

definition pool_Remove :: "(nonce, nat) map_ops \<Rightarrow> nonce \<Rightarrow> hole_pool \<Rightarrow> nat option \<times> hole_pool" where
  "pool_Remove mo nonce p =
     (case mp_Delete mo nonce (hp_holes p) of (old, hs) \<Rightarrow> (old, p\<lparr>hp_holes := hs\<rparr>))"

definition pool_Take :: "(nonce, nat) map_ops \<Rightarrow> nonce \<Rightarrow> hole_pool \<Rightarrow> (hole_err + nat) \<times> hole_pool" where
  "pool_Take mo nonce p =
     (case pool_Remove mo nonce p of
        (None, p') \<Rightarrow> (Inl ErrHoleNotExists, p')
      | (Some a, p') \<Rightarrow> (Inr a, p'))"

text \<open>\<open>TakeAny\<close>: the values of the map as one atomic action, then the removal as another.\<close>

definition TakeAny_pick :: "(nat \<Rightarrow> bool) \<Rightarrow> nat list \<Rightarrow> nat option" where
  "TakeAny_pick matches vs = find matches vs"

definition TakeAny_remove :: "(nonce, nat) map_ops \<Rightarrow> nat option \<Rightarrow> hole_pool \<Rightarrow> (hole_err + nat) \<times> hole_pool" where
  "TakeAny_remove mo pick p =
     (case pick of
        None \<Rightarrow> (Inl ErrHoleNotExists, p)
      | Some a \<Rightarrow> (Inr a, snd (pool_Remove mo (hp_nonce p a) p)))"

definition pool_TakeAny ::
  "(nonce, nat) map_ops \<Rightarrow> (nat \<Rightarrow> bool) \<Rightarrow> (hole_pool \<Rightarrow> nat list) \<Rightarrow> hole_pool \<Rightarrow> (hole_err + nat) \<times> hole_pool" where
  "pool_TakeAny mo matches values p = TakeAny_remove mo (TakeAny_pick matches (values p)) p"

subsection \<open>Consuming a hole\<close>

datatype consume_msg =
    MsgNotPermitted | MsgResolve | MsgUnknownIdentity | MsgHole hole_err | MsgPeer | MsgChannel
  | MsgAck | MsgLocked bool | MsgTaken | MsgHandover nonce

record consume_env =
  ce_authorized :: bool
  ce_target :: "(unit + bool) option"
  ce_peer :: bool
  ce_signal_lock :: bool
  ce_wait :: "hole_err option"
  ce_send_locked :: bool
  ce_signal_take :: bool
  ce_send_taken :: bool

text \<open>
  \<open>ce_target\<close>: no identity in the query, one that does not resolve, or one that does and whether
  it is not zero.  \<open>ce_wait\<close> is how the wait for the lock ends, with the hole the loop leaves
  behind as an argument of its own.  \<open>begin_lock\<close> is the whole of \<open>BeginLock\<close>.
\<close>

definition begin_lock :: "int \<Rightarrow> nat \<Rightarrow> hole_pool \<Rightarrow> bool \<times> hole_pool" where
  "begin_lock now a p =
     (case BeginLock_cas (hp_hole p a) of
        (False, _) \<Rightarrow> (False, p)
      | (True, h) \<Rightarrow> (True, p\<lparr>hp_hole := (hp_hole p)(a := BeginLock_start now h)\<rparr>))"

definition give_back :: "(nonce, nat) map_ops \<Rightarrow> nat \<Rightarrow> hole_pool \<Rightarrow> hole_pool" where
  "give_back mo a p = (if h_state (hp_hole p a) \<noteq> StateIdle then p else snd (pool_Add mo a p))"

definition waited :: "nat \<Rightarrow> Hole \<Rightarrow> hole_pool \<Rightarrow> hole_pool" where
  "waited a h p = p\<lparr>hp_hole := (hp_hole p)(a := h)\<rparr>"

definition consume_taken ::
  "consume_env \<Rightarrow> int \<Rightarrow> Hole \<Rightarrow> nat \<Rightarrow> hole_pool \<Rightarrow> consume_msg list \<times> hole_pool" where
  "consume_taken env now after a p =
     (if ce_target env \<noteq> None
      then (case begin_lock now a p of
              (False, p1) \<Rightarrow> ([MsgHole ErrHoleBusy], p1)
            | (True, p1) \<Rightarrow>
                (if \<not> ce_peer env then ([MsgPeer], p1)
                 else case ce_wait env of
                        Some e \<Rightarrow> ([MsgHole e], waited a after p1)
                      | None \<Rightarrow> ([MsgAck], waited a after p1)))
      else if \<not> ce_signal_lock env then ([MsgChannel], p)
      else (case begin_lock now a p of
              (False, p1) \<Rightarrow> ([MsgLocked False, MsgHole ErrHoleBusy], p1)
            | (True, p1) \<Rightarrow>
                (case ce_wait env of
                   Some e \<Rightarrow> ([MsgHole e], waited a after p1)
                 | None \<Rightarrow>
                     (let p2 = waited a after p1
                      in if \<not> ce_send_locked env then ([MsgLocked True, MsgChannel], p2)
                         else if \<not> ce_signal_take env then ([MsgLocked True, MsgChannel], p2)
                         else if \<not> ce_send_taken env then ([MsgLocked True, MsgTaken, MsgChannel], p2)
                         else ([MsgLocked True, MsgTaken, MsgHandover (hp_nonce p a)], p2)))))"

definition OpNodeConsumeHole ::
  "(nonce, nat) map_ops \<Rightarrow> consume_env \<Rightarrow> int \<Rightarrow> Hole \<Rightarrow> nonce \<Rightarrow> hole_pool \<Rightarrow> consume_msg list \<times> hole_pool" where
  "OpNodeConsumeHole mo env now after pair p =
     (if \<not> ce_authorized env then ([MsgNotPermitted], p)
      else if ce_target env = Some (Inl ()) then ([MsgResolve], p)
      else if ce_target env = Some (Inr False) then ([MsgUnknownIdentity], p)
      else case pool_Take mo pair p of
             (Inl e, p1) \<Rightarrow> ([MsgHole e], p1)
           | (Inr a, p1) \<Rightarrow> (case consume_taken env now after a p1 of (msgs, p2) \<Rightarrow> (msgs, give_back mo a p2)))"

lemma pool_Remove_eq: "map_ops_law mo \<Longrightarrow> pool_Remove mo n p = (hp_holes p n, p\<lparr>hp_holes := (hp_holes p)(n := None)\<rparr>)"
  by (simp add: pool_Remove_def map_ops_lawD(2))

lemma begin_lock_state:
  "begin_lock now a p = (b, p') \<Longrightarrow>
     hp_holes p' = hp_holes p \<and> hp_nonce p' = hp_nonce p \<and> (b \<longrightarrow> h_state (hp_hole p' a) = StateInLocking) \<and>
     (\<not> b \<longrightarrow> p' = p \<and> h_state (hp_hole p a) \<noteq> StateIdle)"
  by (auto simp: begin_lock_def BeginLock_cas_def BeginLock_start_def hole_wake_def split: if_splits)

lemma consume_taken_pool:
  assumes "consume_taken env now after a p = (msgs, p')" and "h_state after \<noteq> StateIdle"
  shows "hp_holes p' = hp_holes p" and "hp_nonce p' = hp_nonce p"
    and "h_state (hp_hole p' a) = StateIdle \<Longrightarrow> hp_hole p' = hp_hole p"
    and "MsgHandover n \<in> set msgs \<Longrightarrow> n = hp_nonce p a \<and> h_state (hp_hole p' a) \<noteq> StateIdle"
  using assms
  by (auto simp: consume_taken_def waited_def Let_def dest: begin_lock_state
      split: if_splits prod.splits bool.splits option.splits)

text \<open>
  Consuming a hole neither loses it nor hands it out twice.  Whatever goes wrong on the way,
  the other holes of the pool stay; the hole asked for is either back, untouched, or out of the
  pool; an idle hole is never left out; and it is handed over only when it is out of the pool.
\<close>

lemma consume_keeps_holes:
  assumes "map_ops_law mo" and "\<And>k a. hp_holes p k = Some a \<Longrightarrow> hp_nonce p a = k" and "h_state after \<noteq> StateIdle"
    and "OpNodeConsumeHole mo env now after pair p = (msgs, p')"
  shows "(\<forall>k. k \<noteq> pair \<longrightarrow> hp_holes p' k = hp_holes p k) \<and>
    (hp_holes p' pair = None \<or> hp_holes p' pair = hp_holes p pair \<and> hp_hole p' = hp_hole p) \<and>
    (\<forall>a. hp_holes p pair = Some a \<and> hp_holes p' pair = None \<longrightarrow> h_state (hp_hole p' a) \<noteq> StateIdle) \<and>
    (\<forall>n. MsgHandover n \<in> set msgs \<longrightarrow> n = pair \<and> hp_holes p' pair = None)"
proof (cases "ce_authorized env \<and> ce_target env \<noteq> Some (Inl ()) \<and> ce_target env \<noteq> Some (Inr False)")
  case False
  with assms(4) show ?thesis by (auto simp: OpNodeConsumeHole_def split: if_splits)
next
  case True
  show ?thesis
  proof (cases "hp_holes p pair")
    case None
    with True assms(1,4) show ?thesis
      by (auto simp: OpNodeConsumeHole_def pool_Take_def pool_Remove_eq)
  next
    case (Some a)
    let ?p1 = "p\<lparr>hp_holes := (hp_holes p)(pair := None)\<rparr>"
    obtain ms p2 where c: "consume_taken env now after a ?p1 = (ms, p2)" by (cases "consume_taken env now after a ?p1")
    note k = consume_taken_pool [OF c assms(3)]
    have out: "msgs = ms" "p' = give_back mo a p2"
      using True Some assms(1,4) c by (auto simp: OpNodeConsumeHole_def pool_Take_def pool_Remove_eq)
    have an: "hp_nonce p a = pair" using assms(2) [OF Some] .
    show ?thesis
    proof (cases "h_state (hp_hole p2 a) = StateIdle")
      case True
      then have "p' = p2\<lparr>hp_holes := (hp_holes p)(pair \<mapsto> a)\<rparr>"
        using out(2) k(1,2) an by (auto simp: give_back_def pool_Add_def map_ops_lawD(1) [OF assms(1)])
      with True out(1) k(3,4) Some show ?thesis by auto
    next
      case False
      then have "p' = p2" using out(2) by (simp add: give_back_def)
      with False out(1) k an Some show ?thesis by auto
    qed
  qed
qed

text \<open>
  Two races at the pool.  \<open>TakeAny\<close> does not look at what its removal answers, so two callers that
  list the holes before either removes one are given the same hole.  And a hole may expire between
  the check that it is idle and its return, after it removed itself from a pool it was not in: it
  stays in the pool, expired.
\<close>

lemma take_any_twice:
  assumes "map_ops_law mo" and "TakeAny_pick matches vs = Some a"
  shows "\<exists>p1 p2. TakeAny_remove mo (TakeAny_pick matches vs) p = (Inr a, p1) \<and>
    TakeAny_remove mo (TakeAny_pick matches vs) p1 = (Inr a, p2)"
  using assms by (auto simp: TakeAny_remove_def)

lemma expired_hole_returned:
  assumes "map_ops_law mo" and "hp_holes p (hp_nonce p a) = None" and "h_state (hp_hole p a) = StateIdle"
  shows "\<exists>p'. pool_Add mo a (waited a (Expire (hp_hole p a)) (snd (pool_Remove mo (hp_nonce p a) p))) = (None, p') \<and>
    hp_holes p' (hp_nonce p a) = Some a \<and> h_state (hp_hole p' a) = StateExpired"
  using assms(2)
  by (auto simp: pool_Add_def waited_def pool_Remove_eq [OF assms(1)] map_ops_lawD(1) [OF assms(1)] Expire_def hole_wake_def)

subsection \<open>Punching\<close>

definition minPort :: int where "minPort = 1"
definition maxPort :: int where "maxPort = 2 ^ 16 - 1"
definition portGuessRange :: int where "portGuessRange = 10"

function ports_loop :: "int \<Rightarrow> int \<Rightarrow> int list" where
  "ports_loop i hi = (if i \<le> hi then i # ports_loop (i + 1) hi else [])"
  by auto
termination by (relation "measure (\<lambda>(i, hi). nat (hi + 1 - i))") auto

declare ports_loop.simps [simp del]

definition candidatePorts :: "int \<Rightarrow> int \<Rightarrow> int list" where
  "candidatePorts center spread =
     (let spread = max spread 0
      in ports_loop (max (center - spread) minPort) (min (center + spread) maxPort))"

lemma ports_loop_upto: "ports_loop i hi = [i..hi]"
proof (induction i hi rule: ports_loop.induct)
  case (1 i hi)
  then show ?case by (subst ports_loop.simps) (simp add: upto.simps)
qed

datatype punch_err =
    PunchEmptyIP | PunchNoSession | PunchBadPort | PunchNoConn | PunchNoTargets | PunchCtx | PunchPanic

text \<open>
  The targets of a punch: the addresses that resolve, out of the candidate ports.  Resolving is
  the system's.
\<close>

definition preparePunchTargets :: "('ip \<Rightarrow> int \<Rightarrow> 'addr option) \<Rightarrow> 'ip \<Rightarrow> int \<Rightarrow> punch_err + 'addr list" where
  "preparePunchTargets resolve peer peerPort =
     (let addrs = List.map_filter (resolve peer) (candidatePorts peerPort portGuessRange)
      in if addrs = [] then Inl PunchNoTargets else Inr addrs)"

text \<open>Of the packets that arrive, the first one from an allowed address that carries the session.\<close>

definition receive_probe :: "'addr list \<Rightarrow> bytes \<Rightarrow> ('addr \<times> bytes) list \<Rightarrow> 'addr option" where
  "receive_probe allowed session pkts =
     map_option fst (find (\<lambda>(from, buf). from \<in> set allowed \<and> buf = session) pkts)"

text \<open>
  How the wait of a punch ends: a probe, the receiver having closed its channel with none, or the
  context.
\<close>

datatype 'addr punch_end = PunchProbe 'addr | PunchReceiverGone | PunchTimeout

record conePuncher =
  cp_session :: bytes
  cp_conn :: bool
  cp_localPort :: int

definition newConePuncher :: "bytes \<Rightarrow> bytes \<Rightarrow> conePuncher option" where
  "newConePuncher fresh session =
     (if length session \<noteq> 0 \<and> length session \<noteq> 16 then None
      else Some \<lparr>cp_session = (if length session = 0 then fresh else session), cp_conn = False, cp_localPort = 0\<rparr>)"

definition puncher_Open :: "int option \<Rightarrow> conePuncher \<Rightarrow> int option \<times> conePuncher" where
  "puncher_Open listened p =
     (if cp_session p = [] then (None, p)
      else if cp_conn p then (Some (cp_localPort p), p)
      else case listened of
             None \<Rightarrow> (None, p)
           | Some lp \<Rightarrow> (Some lp, p\<lparr>cp_conn := True, cp_localPort := lp\<rparr>))"

definition puncher_Close :: "conePuncher \<Rightarrow> conePuncher" where
  "puncher_Close p = p\<lparr>cp_conn := False, cp_localPort := 0\<rparr>"

definition HolePunch ::
  "('ip \<Rightarrow> int \<Rightarrow> 'addr option) \<Rightarrow> bool \<Rightarrow> 'ip \<Rightarrow> int \<Rightarrow> 'addr punch_end \<Rightarrow> conePuncher \<Rightarrow>
     punch_err + (int \<times> 'addr)" where
  "HolePunch resolve emptyIP peer peerPort wait p =
     (if emptyIP then Inl PunchEmptyIP
      else if cp_session p = [] then Inl PunchNoSession
      else if peerPort < 1 \<or> peerPort > 65535 then Inl PunchBadPort
      else if \<not> cp_conn p then Inl PunchNoConn
      else case preparePunchTargets resolve peer peerPort of
             Inl e \<Rightarrow> Inl e
           | Inr addrs \<Rightarrow>
               (case wait of
                  PunchProbe a \<Rightarrow> Inr (cp_localPort p, a)
                | PunchReceiverGone \<Rightarrow> Inl PunchPanic
                | PunchTimeout \<Rightarrow> Inl PunchCtx))"

text \<open>The jitter, with the random number in the range \<open>rand.Int63n\<close> draws from.\<close>

definition jitter :: "int \<Rightarrow> int \<Rightarrow> int \<Rightarrow> int" where
  "jitter rand base mx = (if mx \<le> 0 then base else base + (rand - mx))"

text \<open>
  The passive side of a punch, \<open>OpNodePunch\<close>: the calls in their order, each with the answer it
  gets, up to the first that fails; with it go whether the puncher was closed, by the deferred call
  or at the end, and whether the hole was added.
\<close>

datatype punch_call =
    PcAuthorize | PcEnabled | PcLocalIP | PcOffer | PcNewPuncher | PcOpen | PcAnswer | PcReady | PcGo | PcPunch
  | PcResult | PcSendResult

definition punch_calls :: "punch_call list" where
  "punch_calls = [PcAuthorize, PcEnabled, PcLocalIP, PcOffer, PcNewPuncher, PcOpen, PcAnswer, PcReady, PcGo, PcPunch,
     PcResult, PcSendResult]"

datatype punch_reply = ReplyNotPermitted | ReplyDisabled | ReplyError | ReplyNone

text \<open>What is sent back when a call fails: some failures are reported to the peer, others only end the operation.\<close>

fun punch_reply_of :: "punch_call \<Rightarrow> punch_reply" where
  "punch_reply_of PcAuthorize = ReplyNotPermitted"
| "punch_reply_of PcEnabled = ReplyDisabled"
| "punch_reply_of PcOffer = ReplyError"
| "punch_reply_of PcReady = ReplyError"
| "punch_reply_of PcResult = ReplyError"
| "punch_reply_of _ = ReplyNone"

record punch_state =
  ps_made :: bool
  ps_open :: bool
  ps_closed :: bool
  ps_added :: bool

fun punch_do :: "punch_call \<Rightarrow> punch_state \<Rightarrow> punch_state" where
  "punch_do PcNewPuncher s = s\<lparr>ps_made := True\<rparr>"
| "punch_do PcOpen s = s\<lparr>ps_open := True\<rparr>"
| "punch_do _ s = s"

fun punch_run :: "(punch_call \<Rightarrow> bool) \<Rightarrow> punch_call list \<Rightarrow> punch_state \<Rightarrow> punch_reply \<times> punch_state" where
  "punch_run works [] s = (ReplyNone, s\<lparr>ps_closed := True, ps_open := False, ps_added := True\<rparr>)"
| "punch_run works (c # cs) s =
     (if works c then punch_run works cs (punch_do c s)
      else (punch_reply_of c, if ps_made s then s\<lparr>ps_closed := True, ps_open := False\<rparr> else s))"

definition OpNodePunch :: "(punch_call \<Rightarrow> bool) \<Rightarrow> punch_reply \<times> punch_state" where
  "OpNodePunch works = punch_run works punch_calls \<lparr>ps_made = False, ps_open = False, ps_closed = False, ps_added = False\<rparr>"

text \<open>
  The socket of a punch does not outlive it: whichever call fails, the puncher is closed if it was
  made, its socket is not open at the end, and the hole is added exactly when every call worked.
\<close>

lemma punch_do_sel:
  "ps_added (punch_do c s) = ps_added s" "ps_made s \<Longrightarrow> ps_made (punch_do c s)"
  "ps_open (punch_do c s) \<Longrightarrow> ps_open s \<or> c = PcOpen"
  by (cases c; simp)+

lemma punch_run_added: "\<not> ps_added s \<Longrightarrow> ps_added (snd (punch_run works cs s)) \<longleftrightarrow> (\<forall>c \<in> set cs. works c)"
  by (induction cs arbitrary: s) (auto simp: punch_do_sel)

lemma punch_run_made:
  "ps_made s \<Longrightarrow> \<not> ps_open (snd (punch_run works cs s)) \<and> ps_closed (snd (punch_run works cs s))"
  by (induction cs arbitrary: s) (auto simp: punch_do_sel)

lemma punch_closes:
  "\<not> ps_open (snd (OpNodePunch works)) \<and> (ps_made (snd (OpNodePunch works)) \<longrightarrow> ps_closed (snd (OpNodePunch works))) \<and>
   (ps_added (snd (OpNodePunch works)) \<longleftrightarrow> (\<forall>c. works c))"
proof -
  have "c \<in> set punch_calls" for c by (cases c) (simp_all add: punch_calls_def)
  then have "ps_added (snd (OpNodePunch works)) \<longleftrightarrow> (\<forall>c. works c)"
    by (auto simp: OpNodePunch_def punch_run_added)
  moreover have "\<not> ps_open (snd (OpNodePunch works)) \<and> (ps_made (snd (OpNodePunch works)) \<longrightarrow> ps_closed (snd (OpNodePunch works)))"
    using punch_run_made [of "\<lparr>ps_made = True, ps_open = False, ps_closed = False, ps_added = False\<rparr>" works
        "[PcOpen, PcAnswer, PcReady, PcGo, PcPunch, PcResult, PcSendResult]"]
    by (auto simp: OpNodePunch_def punch_calls_def simp del: punch_run.simps(1) split: if_splits)
  ultimately show ?thesis by blast
qed

subsection \<open>Enabling\<close>

record nat_module =
  nm_enabled :: bool
  nm_changed :: nat

text \<open>\<open>Changed\<close> is called on the registered service, if there is one.\<close>

definition SetEnabled :: "bool \<Rightarrow> bool \<Rightarrow> nat_module \<Rightarrow> nat_module" where
  "SetEnabled registered enabled m =
     (if nm_enabled m \<noteq> enabled \<and> registered then m\<lparr>nm_enabled := enabled, nm_changed := Suc (nm_changed m)\<rparr>
      else m\<lparr>nm_enabled := enabled\<rparr>)"

definition evaluateEnabled :: "bool \<Rightarrow> bool option \<Rightarrow> 'ip list \<Rightarrow> nat_module \<Rightarrow> nat_module" where
  "evaluateEnabled registered setting candidates m =
     (let settingEnabled = (case setting of None \<Rightarrow> True | Some b \<Rightarrow> b)
      in SetEnabled registered (settingEnabled \<and> length candidates > 0) m)"

definition getLocalIPv4 :: "('ip \<Rightarrow> bool) \<Rightarrow> 'ip list \<Rightarrow> 'ip option" where
  "getLocalIPv4 isIPv4 candidates = find isIPv4 candidates"

text \<open>
  Traversal is on exactly when the setting does not forbid it and a public address is known, and
  discovery is told exactly of the changes.
\<close>

lemma evaluate_enabled_exact:
  "nm_enabled (evaluateEnabled True setting ips m) \<longleftrightarrow> setting \<noteq> Some False \<and> ips \<noteq> []"
  "nm_changed (evaluateEnabled True setting ips m) =
     nm_changed m + (if nm_enabled (evaluateEnabled True setting ips m) \<noteq> nm_enabled m then 1 else 0)"
  by (auto simp: evaluateEnabled_def SetEnabled_def Let_def split: option.splits)

text \<open>
  A punch probes the ports around the one announced, and only valid ones.  For every port a
  punch accepts, the candidates are exactly the ports at most ten away, in order, each once, and
  the announced port is among them; a probe is taken only from one of the resolved candidates and
  only with the session's bytes.
\<close>

lemma punch_targets:
  assumes "1 \<le> peerPort" and "peerPort \<le> 65535"
  shows "set (candidatePorts peerPort portGuessRange) =
      {q. 1 \<le> q \<and> q \<le> 65535 \<and> \<bar>q - peerPort\<bar> \<le> 10} \<and>
    distinct (candidatePorts peerPort portGuessRange) \<and> sorted (candidatePorts peerPort portGuessRange) \<and>
    peerPort \<in> set (candidatePorts peerPort portGuessRange) \<and>
    (preparePunchTargets resolve peer peerPort = Inr addrs \<and> receive_probe addrs session pkts = Some a \<longrightarrow>
       (\<exists>q \<in> set (candidatePorts peerPort portGuessRange). resolve peer q = Some a) \<and> (a, session) \<in> set pkts)"
proof -
  have c: "candidatePorts peerPort portGuessRange = [max (peerPort - 10) 1..min (peerPort + 10) 65535]"
    by (simp add: candidatePorts_def ports_loop_upto minPort_def maxPort_def portGuessRange_def)
  have "\<exists>q \<in> set (candidatePorts peerPort portGuessRange). resolve peer q = Some a" "(a, session) \<in> set pkts"
    if p: "preparePunchTargets resolve peer peerPort = Inr addrs" "receive_probe addrs session pkts = Some a"
  proof -
    from p(2) have "a \<in> set addrs" "(a, session) \<in> set pkts"
      by (auto simp: receive_probe_def dest!: find_Some_mem)
    moreover have "addrs = List.map_filter (resolve peer) (candidatePorts peerPort portGuessRange)"
      using p(1) by (simp add: preparePunchTargets_def Let_def split: if_splits)
    then have "\<forall>x \<in> set addrs. \<exists>q \<in> set (candidatePorts peerPort portGuessRange). resolve peer q = Some x"
      by (auto simp: List.map_filter_def)
    ultimately show "\<exists>q \<in> set (candidatePorts peerPort portGuessRange). resolve peer q = Some a" "(a, session) \<in> set pkts"
      by auto
  qed
  with assms show ?thesis by (auto simp: c)
qed

text \<open>The jitter may fall short of its base, and never leaves the range around it.\<close>

lemma jitter_range: "0 < mx \<Longrightarrow> 0 \<le> rand \<Longrightarrow> rand \<le> 2 * mx \<Longrightarrow> base - mx \<le> jitter rand base mx \<and> jitter rand base mx \<le> base + mx"
  by (simp add: jitter_def)

lemma jitter_below_base: "0 < mx \<Longrightarrow> jitter 0 base mx < base"
  by (simp add: jitter_def)

subsection \<open>Examples\<close>

definition demo_pool2 :: hole_pool where
  "demo_pool2 = \<lparr>hp_holes = [5 \<mapsto> 0], hp_hole = (\<lambda>_. newHole (default_config True) 0), hp_nonce = (\<lambda>_. 5)\<rparr>"

definition consume_demo :: consume_env where
  "consume_demo = \<lparr>ce_authorized = True, ce_target = None, ce_peer = True, ce_signal_lock = False, ce_wait = None,
     ce_send_locked = True, ce_signal_take = True, ce_send_taken = True\<rparr>"

lemma consume_keeps_holes_witness:
  "hp_holes (snd (OpNodeConsumeHole go_map consume_demo 0 (Expire (newHole (default_config True) 0)) 5 demo_pool2)) 5 = Some 0"
proof -
  let ?h = "Expire (newHole (default_config True) 0)"
  obtain msgs p' where r: "OpNodeConsumeHole go_map consume_demo 0 ?h 5 demo_pool2 = (msgs, p')" by (metis prod.exhaust)
  have w: "hp_holes demo_pool2 k = Some a \<Longrightarrow> hp_nonce demo_pool2 a = k" for k a
    by (auto simp: demo_pool2_def split: if_splits)
  have h: "h_state ?h \<noteq> StateIdle" by (simp add: Expire_def hole_wake_def)
  have "h_state (hp_hole p' 0) = StateIdle"
    using r by (auto simp: OpNodeConsumeHole_def consume_demo_def consume_taken_def give_back_def pool_Add_def
        pool_Take_def pool_Remove_def go_map_def demo_pool2_def newHole_def)
  with consume_keeps_holes [OF go_map_law w h r] r show ?thesis by (auto simp: demo_pool2_def)
qed

lemma punch_targets_witness:
  "set (candidatePorts 5 portGuessRange) = {q. 1 \<le> q \<and> q \<le> 65535 \<and> \<bar>q - 5\<bar> \<le> 10}"
  using punch_targets [of 5 "\<lambda>_ q. Some q" "()" "[]" "[]" "[]" 0] by simp

end
