(* ===== verification/Spec2Isabelle.thy ===== *)
theory Spec2Isabelle
  imports Migration_Properties Mux_Properties Session_Streams Link_Negotiation Query_Routing Connectivity
    Object_Runs Repo_Registry Repo_Scans Nat_Pool
begin

section \<open>Properties across components\<close>

text \<open>
  C13.  What a node sends, its peer can read.  In every run of a node, every frame it has sent
  over any of its links is written whole by its codec into a transport with room, and the bytes
  decode at the peer, whatever follows them, to the frame that was sent.
\<close>

theorem sent_frames_decode:
  assumes "reach quiet_start (lawful_step sset) n" and "f \<in> set (frames_sent n l)"
    and "identity_wire idBytes idWrite idRead" and "length (frame_bytes idBytes zeroID bo f) \<le> room w"
  shows "\<exists>w' m. frame_WriteTo idWrite zeroID bo f w = (length (frame_bytes idBytes zeroID bo f), None, w') \<and>
           written w' = written w @ frame_bytes idBytes zeroID bo f \<and>
           frame_ReadFrom idRead bo (ObjectType f) = Some m \<and>
           m (frame_bytes idBytes zeroID bo f @ rest) =
             (length (frame_bytes idBytes zeroID bo f), Inr (received_as zeroID f), rest)"
proof -
  have "sendable f" using onwire.reach_inv [OF assms(1)] assms(2) by (auto simp: all_sendable_def)
  with frame_writes [OF assms(3), of zeroID bo f] frame_reads [OF assms(3)] assms(4) show ?thesis
    by (fastforce simp: writes_def)
qed

text \<open>
  C5.  A handshake gives two byte streams.  For all keys: the two sides complete the handshake,
  each knows the other's static key, and from then on either direction of the connection is a
  faithful stream, in every run of writes and reads.
\<close>

theorem secure_channel:
  assumes "crypto_laws c"
  shows "\<exists>a1 a2 a3 i r.
    ActiveHandshake c si (PrivKeyECDH_PubKey c sr) (Some ei) None None a2 = (Inr i, a1 @ a3, False) \<and>
    PassiveHandshake c sr (Some er) None (a1 @ a3) = (Inr r, a2, False) \<and>
    remoteStatic i = Some (PrivKeyECDH_PubKey c sr) \<and> remoteStatic r = Some (PrivKeyECDH_PubKey c si) \<and>
    (\<forall>d acc got. fifo_run (dir_Write c) (dir_Read c) (\<lambda>s s'. False) (i, [], \<lparr>noise = r, readBuf = []\<rparr>) d acc got
       \<longrightarrow> acc = got @ in_flight c d) \<and>
    (\<forall>d acc got. fifo_run (dir_Write c) (dir_Read c) (\<lambda>s s'. False) (r, [], \<lparr>noise = i, readBuf = []\<rparr>) d acc got
       \<longrightarrow> acc = got @ in_flight c d)"
proof -
  from handshake_completes [OF assms, of si sr ei er] obtain a1 a2 a3 i r where
    h: "ActiveHandshake c si (PrivKeyECDH_PubKey c sr) (Some ei) None None a2 = (Inr i, a1 @ a3, False)"
    "PassiveHandshake c sr (Some er) None (a1 @ a3) = (Inr r, a2, False)"
    "remoteStatic i = Some (PrivKeyECDH_PubKey c sr)" "remoteStatic r = Some (PrivKeyECDH_PubKey c si)"
    and ciph: "sendCipher i = recvCipher r" "sendCipher r = recvCipher i" and idle: "idle i" "idle r"
    by (auto simp: idle_def)
  show ?thesis
    using h run_stream(2) [OF assms ciph(1) idle(1)] run_stream(2) [OF assms ciph(2) idle(2)] by blast
qed

definition wire_node :: "byte node" where
  "wire_node =
     \<lparr>n_links = (\<lambda>l. newLink \<lparr>ch_log = [], ch_send = (\<lambda>_ _. None), ch_closed = False\<rparr>
                  1 2 (of_nat l) True 0),
      n_pool = [0], n_sess = (\<lambda>_. newSession 0 0 None None [] False 0), n_sessNext = 0,
      n_ib = (\<lambda>_. NewInputBuffer 0 None), n_ibNext = 0, n_ob = (\<lambda>_. NewOutputBuffer (0, 0)),
      n_obNext = 0, n_now = 0\<rparr>"

theorem sent_frames_decode_witness:
  "\<exists>n f m. reach quiet_start (lawful_step set_if_absent) n \<and> f \<in> set (frames_sent n 0) \<and>
     frame_ReadFrom byte_id_read BigEndian (ObjectType f) = Some m \<and>
     m (frame_bytes byte_id_bytes 0 BigEndian f) =
       (length (frame_bytes byte_id_bytes 0 BigEndian f), Inr (received_as 0 f), [])"
proof -
  let ?n = "snd (mux_Send 0 (response 5 1 0) wire_node)" and ?f = "response 5 1 0 :: byte frame"
  let ?w = "\<lparr>written = [], room = length (frame_bytes byte_id_bytes 0 BigEndian ?f)\<rparr>"
  have "quiet_start wire_node"
    by (simp add: quiet_start_def node_start_def wire_node_def newLink_def newMux_def)
  then have r: "reach quiet_start (lawful_step set_if_absent) ?n"
    by (intro reach_step [OF reach_init]) (auto simp: lawful_step_def set_law_if_absent intro: ns_refuse)
  have f: "?f \<in> set (frames_sent ?n 0)"
    by (simp add: frames_sent_def mux_Send_def lk_Send_def ch_Send_def upd_link_def wire_node_def newLink_def Let_def)
  obtain m where "frame_ReadFrom byte_id_read BigEndian (ObjectType ?f) = Some m"
    "m (frame_bytes byte_id_bytes 0 BigEndian ?f) =
       (length (frame_bytes byte_id_bytes 0 BigEndian ?f), Inr (received_as 0 ?f), [])"
    using sent_frames_decode [OF r f byte_identity_wire, of 0 BigEndian ?w "[]"] by auto
  with r f show ?thesis by blast
qed

theorem secure_channel_witness:
  "\<exists>a1 a2 a3 i r. ActiveHandshake plain_crypto 1 2 (Some 3) None None a2 = (Inr i, a1 @ a3, False) \<and>
     PassiveHandshake plain_crypto 2 (Some 4) None (a1 @ a3) = (Inr r, a2, False)"
  using secure_channel [OF plain_crypto_laws, of 1 2 3 4] by (auto simp: PrivKeyECDH_PubKey_def plain_crypto_def)

end
